(* ===== verification/Prelude.thy ===== *)
theory Prelude
  imports Main "HOL-Library.Word"
begin

text \<open>
  What every component of the development shares: the outcome of a C function as a value,
  the C loops as one combinator with its rules, checked array accesses, and the facts about
  32-bit words and lists that the component proofs use.

  The kernel is compiled for IA-32 (\<^verbatim>\<open>gcc -m32\<close>): \<open>size_t\<close>, \<open>uintptr_t\<close>,
  \<open>unsigned\<close> and \<open>unsigned long\<close> are 32-bit words, and their arithmetic wraps around.
\<close>

unbundle bit_operations_syntax

type_synonym u8 = "8 word"
type_synonym u32 = "32 word"
type_synonym u64 = "64 word"
type_synonym size_t = "32 word"
type_synonym addr = "32 word"

abbreviation NULL :: addr where
  "NULL \<equiv> 0"

abbreviation SIZE_MAX :: size_t where
  "SIZE_MAX \<equiv> - 1"

section \<open>Outcomes\<close>

text \<open>
  A call returns a value (\<open>ret\<close>), stops the caller for one of the reasons below (\<open>stop\<close>), or
  never comes back because a loop does not end (\<open>None\<close>). \<open>Assert_fail\<close>, \<open>Kernel_panic\<close>
  and \<open>Unreachable\<close> are the three uses of \<^verbatim>\<open>debug_panic\<close> in \<^verbatim>\<open>lib/debug.h\<close>;
  \<open>Wild_access\<close> is an access outside the object the code works on, \<open>Divide_trap\<close> the
  processor's \<^verbatim>\<open>#DE\<close>, and \<open>Sleeps\<close> a call that puts the running thread to sleep, so
  that what follows is another thread's.
\<close>

datatype halt =
    Assert_fail
  | Kernel_panic
  | Unreachable
  | Wild_access
  | Divide_trap
  | Sleeps

type_synonym 'a res = "(halt + 'a) option"

definition ret :: "'a \<Rightarrow> 'a res" where
  "ret x = Some (Inr x)"

definition stop :: "halt \<Rightarrow> 'a res" where
  "stop e = Some (Inl e)"

definition andthen :: "'a res \<Rightarrow> ('a \<Rightarrow> 'b res) \<Rightarrow> 'b res" where
  "andthen m f = Option.bind m (\<lambda>r. case r of Inl e \<Rightarrow> Some (Inl e) | Inr x \<Rightarrow> f x)"

text \<open>\<^verbatim>\<open>ASSERT (CONDITION)\<close> before the rest of a function body.\<close>

definition ASSERT :: "bool \<Rightarrow> 'a res \<Rightarrow> 'a res" where
  "ASSERT c k = (if c then k else stop Assert_fail)"

lemma res_distinct [simp]:
  "ret x = ret y \<longleftrightarrow> x = y" "stop e = stop e' \<longleftrightarrow> e = e'"
  "ret x \<noteq> stop e" "stop e \<noteq> ret x"
  "ret x \<noteq> None" "None \<noteq> ret x" "stop e \<noteq> None" "None \<noteq> stop e"
  by (auto simp: ret_def stop_def)

lemma res_cases:
  obtains (ret) x where "m = ret x" | (stop) e where "m = stop e" | (diverges) "m = None"
  by (cases m; (cases "the m")?) (auto simp: ret_def stop_def)

lemma andthen_simps [simp]:
  "andthen (ret x) f = f x" "andthen (stop e) f = stop e" "andthen None f = None"
  by (simp_all add: ret_def stop_def andthen_def)

lemma andthen_ret_right [simp]: "andthen m ret = m"
  by (cases m rule: res_cases) simp_all

lemma andthen_assoc: "andthen (andthen m f) g = andthen m (\<lambda>x. andthen (f x) g)"
  by (cases m rule: res_cases) simp_all

lemma andthen_cong [fundef_cong]:
  "m = m' \<Longrightarrow> (\<And>x. m' = ret x \<Longrightarrow> f x = f' x) \<Longrightarrow> andthen m f = andthen m' f'"
  by (cases m' rule: res_cases) auto

text \<open>
  The continuation of \<open>andthen\<close> is simplified only once its first argument is known: this is
  what lets \<open>simp\<close> run the model on concrete inputs.
\<close>

lemma andthen_weak_cong [cong]: "m = m' \<Longrightarrow> andthen m f = andthen m' f"
  by simp

lemma andthen_eq_ret: "andthen m f = ret y \<longleftrightarrow> (\<exists>x. m = ret x \<and> f x = ret y)"
  by (cases m rule: res_cases) auto

lemma ASSERT_simps [simp]: "ASSERT True k = k" "ASSERT False k = stop Assert_fail"
  by (simp_all add: ASSERT_def)

lemma ASSERT_eq_ret [simp]: "ASSERT c k = ret y \<longleftrightarrow> c \<and> k = ret y"
  by (simp add: ASSERT_def)

lemma ASSERT_cong [cong]: "c = c' \<Longrightarrow> ASSERT c k = ASSERT c' k"
  by simp

lemma andthen_mono [partial_function_mono]:
  assumes "mono_option B" and "\<And>y. mono_option (\<lambda>f. C y f)"
  shows "mono_option (\<lambda>f. andthen (B f) (\<lambda>y. C y f))"
proof -
  have "mono_option (\<lambda>f. case r of Inl e \<Rightarrow> Some (Inl e) | Inr x \<Rightarrow> C x f)" for r
    by (cases r) (simp_all add: assms option.const_mono)
  then show ?thesis
    unfolding andthen_def by (intro bind_mono assms)
qed

lemma ASSERT_mono [partial_function_mono]:
  "mono_option B \<Longrightarrow> mono_option (\<lambda>f. ASSERT c (B f))"
  by (cases c) (simp_all add: option.const_mono)

subsection \<open>Total correctness of a call\<close>

text \<open>
  \<open>returns m Q\<close>: the call returns, and what it returns satisfies \<open>Q\<close>. The collection
  \<open>wp\<close> computes it along a function body.
\<close>

named_theorems wp "weakest preconditions of the outcome combinators"

definition returns :: "'a res \<Rightarrow> ('a \<Rightarrow> bool) \<Rightarrow> bool" where
  "returns m Q \<longleftrightarrow> (\<exists>x. m = ret x \<and> Q x)"

lemma returns_ret [simp, wp]: "returns (ret x) Q \<longleftrightarrow> Q x"
  by (simp add: returns_def)

lemma returns_stop [simp, wp]: "\<not> returns (stop e) Q"
  by (simp add: returns_def)

lemma returns_None [simp, wp]: "\<not> returns None Q"
  by (simp add: returns_def)

lemma returns_andthen [wp]: "returns (andthen m f) Q \<longleftrightarrow> returns m (\<lambda>x. returns (f x) Q)"
  by (cases m rule: res_cases) simp_all

lemma returns_ASSERT [wp]: "returns (ASSERT c k) Q \<longleftrightarrow> c \<and> returns k Q"
  by (simp add: ASSERT_def)

lemma returns_if [wp]:
  "returns (if c then m else n) Q \<longleftrightarrow> (c \<longrightarrow> returns m Q) \<and> (\<not> c \<longrightarrow> returns n Q)"
  by simp

lemma returnsI [intro?]: "m = ret x \<Longrightarrow> Q x \<Longrightarrow> returns m Q"
  by simp

lemma returnsE [elim?]:
  assumes "returns m Q"
  obtains x where "m = ret x" and "Q x"
  using assms by (auto simp: returns_def)

lemma returns_mono: "returns m P \<Longrightarrow> (\<And>x. P x \<Longrightarrow> Q x) \<Longrightarrow> returns m Q"
  by (auto simp: returns_def)

section \<open>Loops\<close>

text \<open>
  \<open>loop body s\<close> is C's \<^verbatim>\<open>for (;;)\<close> with the loop variables \<open>s\<close>: the body continues with
  new values (\<open>Inl\<close>) or leaves the loop with a result (\<open>Inr\<close>). A loop that never leaves is
  \<open>None\<close>.
\<close>

partial_function (option) loop :: "('s \<Rightarrow> ('s + 'r) res) \<Rightarrow> 's \<Rightarrow> 'r res" where
  "loop body s = andthen (body s) (\<lambda>x. case x of Inl s' \<Rightarrow> loop body s' | Inr r \<Rightarrow> ret r)"

text \<open>
  The rule for loops: an invariant and a measure that the body decreases. \<open>ends\<close> also speaks of
  the ways a call stops; \<open>returns\<close> is the case in which it does not.
\<close>

definition ends :: "'a res \<Rightarrow> (halt \<Rightarrow> bool) \<Rightarrow> ('a \<Rightarrow> bool) \<Rightarrow> bool" where
  "ends m E Q \<longleftrightarrow> (\<exists>e. m = stop e \<and> E e) \<or> (\<exists>x. m = ret x \<and> Q x)"

lemma ends_simps [simp, wp]:
  "ends (ret x) E Q \<longleftrightarrow> Q x" "ends (stop e) E Q \<longleftrightarrow> E e" "\<not> ends None E Q"
  by (auto simp: ends_def)

lemma ends_andthen [wp]: "ends (andthen m f) E Q \<longleftrightarrow> ends m E (\<lambda>x. ends (f x) E Q)"
  by (cases m rule: res_cases) simp_all

lemma ends_mono: "ends m E P \<Longrightarrow> (\<And>x. P x \<Longrightarrow> Q x) \<Longrightarrow> ends m E Q"
  by (auto simp: ends_def)

lemma returns_ends: "returns m Q \<longleftrightarrow> ends m (\<lambda>_. False) Q"
  by (auto simp: returns_def ends_def)

lemma ends_loop:
  fixes m :: "'s \<Rightarrow> nat"
  assumes init: "I s"
    and step: "\<And>s. I s \<Longrightarrow>
      ends (body s) E (\<lambda>x. case x of Inl s' \<Rightarrow> I s' \<and> m s' < m s | Inr r \<Rightarrow> Q r)"
  shows "ends (loop body s) E Q"
  using init
proof (induction "m s" arbitrary: s rule: less_induct)
  case less
  have "ends (body s) E (\<lambda>x. case x of Inl s' \<Rightarrow> ends (loop body s') E Q | Inr r \<Rightarrow> Q r)"
    by (rule ends_mono [OF step [OF less.prems]]) (auto split: sum.splits intro: less.hyps)
  then show ?case
    by (subst loop.simps) (auto simp: wp elim!: ends_mono split: sum.splits)
qed

lemmas returns_loop = ends_loop [where E = "\<lambda>_. False", folded returns_ends]

subsection \<open>Counting loops\<close>

lemma unat_Suc_less:
  assumes "(i :: 'a::len word) < n"
  shows "unat (i + 1) = Suc (unat i)"
proof -
  have "unat i < unat n" "unat n < 2 ^ LENGTH('a)"
    using assms by (simp_all add: word_less_nat_alt)
  then have "Suc (unat i) < 2 ^ LENGTH('a)" by linarith
  then show ?thesis by (simp add: unat_word_ariths)
qed

lemma add_one_le: "(i :: 'a::len word) < n \<Longrightarrow> i + 1 \<le> n"
  by (simp add: inc_le)

text \<open>\<^verbatim>\<open>for (i = lo; i < hi; i++)\<close>, the body updating \<open>s\<close>.\<close>

definition for_range :: "u32 \<Rightarrow> u32 \<Rightarrow> (u32 \<Rightarrow> 's \<Rightarrow> 's res) \<Rightarrow> 's \<Rightarrow> 's res" where
  "for_range lo hi body s =
     loop (\<lambda>(i, s). if i < hi then andthen (body i s) (\<lambda>s'. ret (Inl (i + 1, s')))
                    else ret (Inr s)) (lo, s)"

lemma ends_for_range:
  assumes init: "I (unat lo) s" and le: "lo \<le> hi"
    and step: "\<And>i s. lo \<le> i \<Longrightarrow> i < hi \<Longrightarrow> I (unat i) s \<Longrightarrow> ends (body i s) E (I (Suc (unat i)))"
  shows "ends (for_range lo hi body s) E (I (unat hi))"
  unfolding for_range_def
proof (rule ends_loop [where I = "\<lambda>(i, s). lo \<le> i \<and> i \<le> hi \<and> I (unat i) s"
      and m = "\<lambda>(i, s). unat hi - unat i"], goal_cases)
  case 1
  show ?case using init le by simp
next
  case (2 p)
  then obtain i t where p: "p = (i, t)" "lo \<le> i" "i \<le> hi" "I (unat i) t"
    by (cases p) auto
  show ?case
  proof (cases "i < hi")
    case True
    then have "unat (i + 1) = Suc (unat i)" "i + 1 \<le> hi" "unat i < unat hi"
      by (simp_all add: unat_Suc_less add_one_le unat_mono)
    moreover from this p have "lo \<le> i + 1"
      by (simp add: word_le_nat_alt)
    ultimately show ?thesis
      using p True step [OF p(2) True p(4)] by (auto simp: wp elim!: ends_mono)
  next
    case False
    with p have "i = hi" by simp
    with p show ?thesis by simp
  qed
qed

lemmas returns_for_range = ends_for_range [where E = "\<lambda>_. False", folded returns_ends]

text \<open>
  \<^verbatim>\<open>for (i = lo; i < hi; i++)\<close> whose body may return from the function: \<open>Some r\<close> returns
  \<open>r\<close>, \<open>None\<close> goes on; the whole is \<open>None\<close> when the loop runs to its end.
\<close>

definition for_find :: "u32 \<Rightarrow> u32 \<Rightarrow> (u32 \<Rightarrow> 'r option res) \<Rightarrow> 'r option res" where
  "for_find lo hi body =
     loop (\<lambda>i. if i < hi
               then andthen (body i) (\<lambda>r. case r of None \<Rightarrow> ret (Inl (i + 1)) | Some v \<Rightarrow> ret (Inr (Some v)))
               else ret (Inr None)) lo"

primrec first_some :: "('a \<Rightarrow> 'b option) \<Rightarrow> 'a list \<Rightarrow> 'b option" where
  "first_some f [] = None"
| "first_some f (x # xs) = (case f x of None \<Rightarrow> first_some f xs | Some r \<Rightarrow> Some r)"

lemma first_some_const:
  "first_some (\<lambda>x. if P x then Some r else None) xs = (if \<exists>x \<in> set xs. P x then Some r else None)"
  by (induction xs) auto

lemma for_find_eq:
  assumes "\<And>i. lo \<le> i \<Longrightarrow> i < hi \<Longrightarrow> body i = ret (f (unat i))"
  shows "for_find lo hi body = ret (first_some f [unat lo..<unat hi])"
  using assms
proof (induction "unat hi - unat lo" arbitrary: lo)
  case 0
  then have "unat hi \<le> unat lo" by simp
  then show ?case
    by (simp add: for_find_def loop.simps word_less_nat_alt)
next
  case (Suc n)
  then have lt: "lo < hi" by (simp add: word_less_nat_alt)
  have S: "unat (lo + 1) = Suc (unat lo)"
    using lt by (rule unat_Suc_less)
  have IH: "for_find (lo + 1) hi body = ret (first_some f [unat (lo + 1)..<unat hi])"
  proof (rule Suc.hyps(1))
    show "n = unat hi - unat (lo + 1)" using Suc.hyps(2) S by simp
    show "body i = ret (f (unat i))" if "lo + 1 \<le> i" "i < hi" for i
      using that S by (intro Suc.prems) (simp_all add: word_le_nat_alt)
  qed
  have "[unat lo..<unat hi] = unat lo # [unat (lo + 1)..<unat hi]"
    using lt S by (simp add: upt_conv_Cons word_less_nat_alt)
  moreover have "body lo = ret (f (unat lo))"
    using lt by (intro Suc.prems) simp_all
  ultimately show ?case
    using lt IH unfolding for_find_def
    by (subst loop.simps) (cases "f (unat lo)"; simp)
qed

text \<open>
  \<^verbatim>\<open>while (n-- > 0)\<close> with a body that only computes: \<open>count_down\<close> runs to the end,
  \<open>count_down_find\<close> may return from the function (\<open>Inr\<close>).
\<close>

definition count_down :: "u32 \<Rightarrow> ('s \<Rightarrow> 's) \<Rightarrow> 's \<Rightarrow> 's res" where
  "count_down n f s = loop (\<lambda>(n, s). if 0 < n then ret (Inl (n - 1, f s)) else ret (Inr s)) (n, s)"

lemma unat_pred: "0 < (n :: u32) \<Longrightarrow> unat (n - 1) = unat n - 1"
  by (simp add: unat_minus_one)

lemma count_down_eq: "count_down n f s = ret ((f ^^ unat n) s)"
proof (induction "unat n" arbitrary: n s)
  case 0
  then have "n = 0" by (simp add: unat_eq_zero)
  then show ?case by (simp add: count_down_def loop.simps)
next
  case (Suc k)
  then have n: "0 < n" "unat n = Suc k" "unat (n - 1) = k"
    by (simp_all add: word_less_nat_alt unat_pred)
  then have "count_down n f s = count_down (n - 1) f (f s)"
    unfolding count_down_def by (subst loop.simps) simp
  with Suc.hyps(1) [of "n - 1" "f s"] n show ?case
    by (simp add: funpow_swap1)
qed

definition count_down_find :: "u32 \<Rightarrow> ('s \<Rightarrow> 's + 'r) \<Rightarrow> 's \<Rightarrow> ('s + 'r) res" where
  "count_down_find n f s =
     loop (\<lambda>(n, s). if 0 < n then case f s of Inl s' \<Rightarrow> ret (Inl (n - 1, s')) | Inr r \<Rightarrow> ret (Inr (Inr r))
                    else ret (Inr (Inl s))) (n, s)"

primrec iterate_find :: "nat \<Rightarrow> ('s \<Rightarrow> 's + 'r) \<Rightarrow> 's \<Rightarrow> 's + 'r" where
  "iterate_find 0 f s = Inl s"
| "iterate_find (Suc n) f s = (case f s of Inl s' \<Rightarrow> iterate_find n f s' | Inr r \<Rightarrow> Inr r)"

lemma count_down_find_eq: "count_down_find n f s = ret (iterate_find (unat n) f s)"
proof (induction "unat n" arbitrary: n s)
  case 0
  then have "n = 0" by (simp add: unat_eq_zero)
  then show ?case by (simp add: count_down_find_def loop.simps)
next
  case (Suc k)
  then have n: "0 < n" "unat n = Suc k" "unat (n - 1) = k"
    by (simp_all add: word_less_nat_alt unat_pred)
  then have "count_down_find n f s =
      (case f s of Inl s' \<Rightarrow> count_down_find (n - 1) f s' | Inr r \<Rightarrow> ret (Inr r))"
    unfolding count_down_find_def by (subst loop.simps) (simp split: sum.splits)
  with Suc.hyps(1) [of "n - 1"] n show ?case
    by (simp split: sum.splits)
qed

text \<open>A walk over the elements of a list.\<close>

primrec for_each :: "('a \<Rightarrow> 's \<Rightarrow> 's res) \<Rightarrow> 'a list \<Rightarrow> 's \<Rightarrow> 's res" where
  "for_each f [] s = ret s"
| "for_each f (x # xs) s = andthen (f x s) (for_each f xs)"

lemma for_each_append: "for_each f (xs @ ys) s = andthen (for_each f xs s) (for_each f ys)"
proof (induction xs arbitrary: s)
  case (Cons x xs)
  then show ?case by (cases "f x s" rule: res_cases) simp_all
qed simp

lemma returns_for_each:
  assumes "I [] s" and "\<And>ys x zs s. xs = ys @ x # zs \<Longrightarrow> I ys s \<Longrightarrow> returns (f x s) (I (ys @ [x]))"
  shows "returns (for_each f xs s) (I xs)"
proof -
  have "returns (for_each f zs s) (I (ys @ zs))" if "xs = ys @ zs" "I ys s" for ys zs s
    using that
  proof (induction zs arbitrary: ys s)
    case (Cons z zs)
    obtain s' where s': "f z s = ret s'" "I (ys @ [z]) s'"
      using assms(2) [OF Cons.prems] by (auto elim: returnsE)
    then show ?case using Cons.IH [of "ys @ [z]" s'] Cons.prems by simp
  qed simp
  from this [of "[]" xs s] assms(1) show ?thesis by simp
qed

section \<open>Arrays\<close>

text \<open>Reading and writing an element of an array; outside it the access is wild.\<close>

definition rd :: "'a list \<Rightarrow> nat \<Rightarrow> 'a res" where
  "rd xs i = (if i < length xs then ret (xs ! i) else stop Wild_access)"

definition wr :: "'a list \<Rightarrow> nat \<Rightarrow> 'a \<Rightarrow> 'a list res" where
  "wr xs i v = (if i < length xs then ret (xs[i := v]) else stop Wild_access)"

lemma rd_in [simp]: "i < length xs \<Longrightarrow> rd xs i = ret (xs ! i)"
  by (simp add: rd_def)

lemma wr_in [simp]: "i < length xs \<Longrightarrow> wr xs i v = ret (xs[i := v])"
  by (simp add: wr_def)

lemma rd_out [simp]: "length xs \<le> i \<Longrightarrow> rd xs i = stop Wild_access"
  by (simp add: rd_def)

lemma wr_out [simp]: "length xs \<le> i \<Longrightarrow> wr xs i v = stop Wild_access"
  by (simp add: wr_def)

section \<open>Words\<close>

lemma unat_add_le:
  "unat (a :: u32) + unat b < 4294967296 \<Longrightarrow> unat (a + b) = unat a + unat b"
  by (simp add: unat_word_ariths)

lemma unat_lt_2p32 [simp]: "unat (a :: u32) < 4294967296"
  using unsigned_less [of a, where ?'a = nat] by simp

lemma unat_minus_le: "(b :: u32) \<le> a \<Longrightarrow> unat (a - b) = unat a - unat b"
  by (simp add: unat_sub)

lemma and_plus_and_not: "((x :: 'a::len word) AND m) + (x AND NOT m) = x"
proof -
  have "(x AND m) + (x AND NOT m) = (x AND m) OR (x AND NOT m)"
    by (rule disjunctive_add) (auto simp: bit_simps)
  also have "\<dots> = x"
    by (rule bit_eqI) (auto simp: bit_simps)
  finally show ?thesis .
qed

lemmas word_nat = word_less_nat_alt word_le_nat_alt

lemma unat_SIZE_MAX: "unat SIZE_MAX = 4294967295"
  by (simp add: unsigned_minus_1_eq_mask mask_eq_exp_minus_1)

end
