(* ===== verification/Address.thy ===== *)
theory Address
  imports Prelude
begin

text \<open>
  Addresses, pages and page table entries: the macros and inline functions of \<^verbatim>\<open>lib/round.h\<close>, \<^verbatim>\<open>threads/vaddr.h\<close> and
  \<^verbatim>\<open>threads/pte.h\<close> on words of 32 bits, with their arithmetic meaning.
\<close>

section \<open>Rounding (\<^verbatim>\<open>lib/round.h\<close>)\<close>

definition ROUND_UP :: "size_t \<Rightarrow> size_t \<Rightarrow> size_t" where
  "ROUND_UP x step = (x + step - 1) div step * step"

definition DIV_ROUND_UP :: "size_t \<Rightarrow> size_t \<Rightarrow> size_t" where
  "DIV_ROUND_UP x step = (x + step - 1) div step"

definition ROUND_DOWN :: "size_t \<Rightarrow> size_t \<Rightarrow> size_t" where
  "ROUND_DOWN x step = x div step * step"

lemma unat_DIV_ROUND_UP:
  assumes "0 < step" and "unat x + unat step \<le> 2 ^ 32"
  shows "unat (DIV_ROUND_UP x step) = (unat x + unat step - 1) div unat step"
proof -
  have s: "0 < unat step"
    using assms(1) by (simp add: word_less_nat_alt)
  have "unat (x + (step - 1)) = unat x + (unat step - 1)"
  proof (subst unat_add_le)
    have "unat (step - 1) = unat step - 1"
      using assms(1) by (simp add: unat_minus_one)
    then show "unat x + unat (step - 1) < 4294967296" "unat x + unat (step - 1) = unat x + (unat step - 1)"
      using assms(2) s by simp_all
  qed
  then show ?thesis
    using s by (simp add: DIV_ROUND_UP_def unat_div add_diff_eq)
qed

section \<open>Virtual addresses (\<^verbatim>\<open>threads/vaddr.h\<close>)\<close>

definition BITMASK :: "nat \<Rightarrow> nat \<Rightarrow> u32" where
  "BITMASK shift cnt = push_bit shift (push_bit cnt 1 - 1)"

definition PGSHIFT :: nat where "PGSHIFT = 0"
definition PGBITS :: nat where "PGBITS = 12"
definition PGSIZE :: u32 where "PGSIZE = push_bit PGBITS 1"
definition PGMASK :: u32 where "PGMASK = BITMASK PGSHIFT PGBITS"

definition pg_ofs :: "addr \<Rightarrow> u32" where
  "pg_ofs va = va AND PGMASK"

definition pg_no :: "addr \<Rightarrow> u32" where
  "pg_no va = drop_bit PGBITS va"

definition pg_round_up :: "addr \<Rightarrow> addr" where
  "pg_round_up va = (va + PGSIZE - 1) AND NOT PGMASK"

definition pg_round_down :: "addr \<Rightarrow> addr" where
  "pg_round_down va = va AND NOT PGMASK"

definition PHYS_BASE :: addr where
  "PHYS_BASE = 0xc0000000"

definition is_user_vaddr :: "addr \<Rightarrow> bool" where
  "is_user_vaddr vaddr \<longleftrightarrow> vaddr < PHYS_BASE"

definition is_kernel_vaddr :: "addr \<Rightarrow> bool" where
  "is_kernel_vaddr vaddr \<longleftrightarrow> PHYS_BASE \<le> vaddr"

definition ptov :: "u32 \<Rightarrow> addr res" where
  "ptov paddr = ASSERT (paddr < PHYS_BASE) (ret (paddr + PHYS_BASE))"

definition vtop :: "addr \<Rightarrow> u32 res" where
  "vtop vaddr = ASSERT (is_kernel_vaddr vaddr) (ret (vaddr - PHYS_BASE))"

lemma PGSIZE_eq [simp]: "PGSIZE = 4096"
  by (simp add: PGSIZE_def PGBITS_def)

lemma PGMASK_eq: "PGMASK = mask 12"
  by (simp add: PGMASK_def BITMASK_def PGSHIFT_def PGBITS_def mask_eq_decr_exp)

lemma pg_ofs_mod: "pg_ofs va = va mod 4096"
  by (simp add: pg_ofs_def PGMASK_eq flip: take_bit_eq_mask) (simp add: take_bit_eq_mod)

lemma pg_no_div: "pg_no va = va div 4096"
  by (simp add: pg_no_def PGBITS_def drop_bit_eq_div)

lemma unat_pg_ofs: "unat (pg_ofs va) = unat va mod 4096"
  by (simp add: pg_ofs_mod unat_mod)

lemma unat_pg_no: "unat (pg_no va) = unat va div 4096"
  by (simp add: pg_no_div unat_div)

lemma pg_round_down_plus_ofs: "pg_round_down va + pg_ofs va = va"
  using and_plus_and_not [of va PGMASK] by (simp add: pg_round_down_def pg_ofs_def add.commute)

lemma pg_round_down_eq: "pg_round_down va = va - pg_ofs va"
  using pg_round_down_plus_ofs [of va] by (simp add: eq_diff_eq)

lemma unat_pg_round_down: "unat (pg_round_down va) = unat va div 4096 * 4096"
proof -
  have "pg_ofs va \<le> va"
    by (simp add: word_le_nat_alt unat_pg_ofs)
  then show ?thesis
    by (simp add: pg_round_down_eq unat_minus_le unat_pg_ofs minus_mod_eq_div_mult)
qed

lemma pg_ofs_round_down [simp]: "pg_ofs (pg_round_down va) = 0"
  by (simp add: unat_pg_ofs unat_pg_round_down flip: unat_eq_zero)

lemma unat_pg_round_up:
  assumes "unat va \<le> 2 ^ 32 - 4096"
  shows "unat (pg_round_up va) = (unat va + 4095) div 4096 * 4096"
proof -
  have "pg_round_up va = pg_round_down (va + 4095)"
    by (simp add: pg_round_up_def pg_round_down_def add.commute)
  moreover have "unat (va + 4095) = unat va + 4095"
    using assms by (subst unat_add_le) simp_all
  ultimately show ?thesis
    by (simp add: unat_pg_round_down)
qed

section \<open>Page table entries (\<^verbatim>\<open>threads/pte.h\<close>)\<close>

definition PTSHIFT :: nat where "PTSHIFT = PGBITS"
definition PTBITS :: nat where "PTBITS = 10"
definition PTMASK :: u32 where "PTMASK = BITMASK PTSHIFT PTBITS"
definition PDSHIFT :: nat where "PDSHIFT = PTSHIFT + PTBITS"

definition pt_no :: "addr \<Rightarrow> u32" where
  "pt_no va = drop_bit PTSHIFT (va AND PTMASK)"

definition pd_no :: "addr \<Rightarrow> u32" where
  "pd_no va = drop_bit PDSHIFT va"

definition PTE_FLAGS :: u32 where "PTE_FLAGS = 0x00000fff"
definition PTE_ADDR :: u32 where "PTE_ADDR = 0xfffff000"
definition PTE_P :: u32 where "PTE_P = 0x1"
definition PTE_W :: u32 where "PTE_W = 0x2"
definition PTE_U :: u32 where "PTE_U = 0x4"

definition pde_create :: "addr \<Rightarrow> u32 res" where
  "pde_create pt = ASSERT (pg_ofs pt = 0) (andthen (vtop pt) (\<lambda>p. ret (p OR PTE_U OR PTE_P OR PTE_W)))"

definition pde_get_pt :: "u32 \<Rightarrow> addr res" where
  "pde_get_pt pde = ASSERT (pde AND PTE_P \<noteq> 0) (ptov (pde AND PTE_ADDR))"

definition pte_create_kernel :: "addr \<Rightarrow> bool \<Rightarrow> u32 res" where
  "pte_create_kernel page writable = ASSERT (pg_ofs page = 0)
     (andthen (vtop page) (\<lambda>p. ret (p OR PTE_P OR (if writable then PTE_W else 0))))"

definition pte_create_user :: "addr \<Rightarrow> bool \<Rightarrow> u32 res" where
  "pte_create_user page writable = andthen (pte_create_kernel page writable) (\<lambda>e. ret (e OR PTE_U))"

definition pte_get_page :: "u32 \<Rightarrow> addr res" where
  "pte_get_page pte = ptov (pte AND PTE_ADDR)"

lemmas pte_flag_defs = PTE_FLAGS_def PTE_ADDR_def PTE_P_def PTE_W_def PTE_U_def

lemma aligned_flags:
  assumes "pg_ofs x = 0" and "f AND PTE_ADDR = 0"
  shows "(x OR f) AND PTE_ADDR = x" and "(x OR f) AND PTE_FLAGS = f"
proof -
  have A: "PTE_ADDR = NOT (mask 12)" "PTE_FLAGS = mask 12"
    by (simp_all add: PTE_ADDR_def PTE_FLAGS_def mask_eq_decr_exp)
  have x: "x AND mask 12 = 0" "x AND NOT (mask 12) = x"
    using assms(1) pg_round_down_plus_ofs [of x]
    by (simp_all add: pg_ofs_def pg_round_down_def PGMASK_eq)
  have "f AND mask 12 = f"
    using assms(2) and_plus_and_not [of f "mask 12"] by (simp add: A)
  with x show "(x OR f) AND PTE_ADDR = x" "(x OR f) AND PTE_FLAGS = f"
    using assms(2) by (simp_all add: A word_ao_dist)
qed

lemma pg_ofs_vtop: "pg_ofs page = 0 \<Longrightarrow> pg_ofs (page - PHYS_BASE) = 0"
proof -
  have "page - PHYS_BASE = page + 0x40000000"
    by (simp add: PHYS_BASE_def)
  moreover have "unat (page + 0x40000000) mod 4096 = unat page mod 4096"
    using mod_mult_self1 [of "unat page" 262144 4096] by (simp add: unat_word_ariths mod_mod_cancel)
  ultimately show "pg_ofs page = 0 \<Longrightarrow> pg_ofs (page - PHYS_BASE) = 0"
    by (metis unat_eq_zero unat_pg_ofs)
qed

lemma vtop_ptov: "is_kernel_vaddr va \<Longrightarrow> vtop va = ret (va - PHYS_BASE) \<and> ptov (va - PHYS_BASE) = ret va"
proof -
  assume k: "is_kernel_vaddr va"
  then have "unat (va - PHYS_BASE) = unat va - unat PHYS_BASE"
    by (simp add: is_kernel_vaddr_def unat_minus_le)
  moreover have "unat va - 0xc0000000 < 0xc0000000"
    using unat_lt_2p32 [of va] by linarith
  ultimately have "va - PHYS_BASE < PHYS_BASE"
    by (simp add: word_less_nat_alt PHYS_BASE_def)
  with k show ?thesis
    by (simp add: vtop_def ptov_def)
qed

section \<open>Properties\<close>

text \<open>
  C37: Page table entries round trip. For a page-aligned kernel virtual address, the entry made by
  \<^verbatim>\<open>pte_create_kernel\<close>, by \<^verbatim>\<open>pte_create_user\<close> or by \<^verbatim>\<open>pde_create\<close> leads back to that very address,
  and its low twelve bits are exactly the requested permission flags.
\<close>

theorem pte_roundtrip:
  assumes "pg_ofs page = 0" and "is_kernel_vaddr page"
  shows "returns (pte_create_kernel page w) (\<lambda>e. pte_get_page e = ret page \<and>
        e AND PTE_FLAGS = PTE_P OR (if w then PTE_W else 0)) \<and>
      returns (pte_create_user page w) (\<lambda>e. pte_get_page e = ret page \<and>
        e AND PTE_FLAGS = PTE_P OR (if w then PTE_W else 0) OR PTE_U) \<and>
      returns (pde_create page) (\<lambda>e. pde_get_pt e = ret page \<and>
        e AND PTE_FLAGS = PTE_U OR PTE_P OR PTE_W)"
    (is "?kernel \<and> ?user \<and> ?pde")
proof (intro conjI)
  let ?p = "page - PHYS_BASE"
  have p: "pg_ofs ?p = 0" using assms(1) by (rule pg_ofs_vtop)
  note v = vtop_ptov [OF assms(2)]
  have f: "(PTE_P OR (if w then PTE_W else 0)) AND PTE_ADDR = 0"
    "(PTE_P OR (if w then PTE_W else 0) OR PTE_U) AND PTE_ADDR = 0"
    "(PTE_U OR PTE_P OR PTE_W) AND PTE_ADDR = 0"
    by (simp_all add: pte_flag_defs)
  show ?kernel
    using assms(1) v aligned_flags [OF p f(1)]
    by (simp add: pte_create_kernel_def pte_get_page_def wp or.assoc)
  show ?user
    using assms(1) v aligned_flags [OF p f(2)]
    by (simp add: pte_create_user_def pte_create_kernel_def pte_get_page_def wp or.assoc)
  have "(?p OR (PTE_U OR PTE_P OR PTE_W)) AND PTE_P \<noteq> 0"
    by (simp add: pte_flag_defs word_ao_dist)
  then show ?pde
    using assms(1) v aligned_flags [OF p f(3)]
    by (simp add: pde_create_def pde_get_pt_def wp or.assoc)
qed

text \<open>At the first page of kernel memory.\<close>

theorem pte_roundtrip_witness:
  "returns (pte_create_user 0xc0000000 True) (\<lambda>e. pte_get_page e = ret 0xc0000000)"
  using pte_roundtrip [of "0xc0000000" True]
  by (auto simp: pg_ofs_mod is_kernel_vaddr_def PHYS_BASE_def intro: returns_mono)

end
