(* ===== verification/Memory.thy ===== *)
theory Memory
  imports Prelude
begin

text \<open>
  The \<^verbatim>\<open>mem\<close> functions of \<^verbatim>\<open>lib/string.c\<close> over a memory of bytes, and what their loops compute.
\<close>

type_synonym mem = "addr \<Rightarrow> u8"

definition memcpy :: "mem \<Rightarrow> addr \<Rightarrow> addr \<Rightarrow> size_t \<Rightarrow> (addr \<times> mem) res" where
  "memcpy m dst src n =
     ASSERT (dst \<noteq> NULL \<or> n = 0) (ASSERT (src \<noteq> NULL \<or> n = 0)
       (andthen (count_down n (\<lambda>(m, d, s). (m(d := m s), d + 1, s + 1)) (m, dst, src))
         (\<lambda>(m, _, _). ret (dst, m))))"

definition memmove :: "mem \<Rightarrow> addr \<Rightarrow> addr \<Rightarrow> size_t \<Rightarrow> (addr \<times> mem) res" where
  "memmove m dst src n =
     ASSERT (dst \<noteq> NULL \<or> n = 0) (ASSERT (src \<noteq> NULL \<or> n = 0)
       (if dst < src then
          andthen (count_down n (\<lambda>(m, d, s). (m(d := m s), d + 1, s + 1)) (m, dst, src))
            (\<lambda>(m, d, _). ret (d, m))
        else
          andthen (count_down n (\<lambda>(m, d, s). let d = d - 1; s = s - 1 in (m(d := m s), d, s))
              (m, dst + n, src + n))
            (\<lambda>(m, d, _). ret (d, m))))"

definition memset :: "mem \<Rightarrow> addr \<Rightarrow> u32 \<Rightarrow> size_t \<Rightarrow> (addr \<times> mem) res" where
  "memset m dst value n =
     ASSERT (dst \<noteq> NULL \<or> n = 0)
       (andthen (count_down n (\<lambda>(m, d). (m(d := ucast value), d + 1)) (m, dst))
         (\<lambda>(m, _). ret (dst, m)))"

definition memcmp :: "mem \<Rightarrow> addr \<Rightarrow> addr \<Rightarrow> size_t \<Rightarrow> int res" where
  "memcmp m a b n =
     ASSERT (a \<noteq> NULL \<or> n = 0) (ASSERT (b \<noteq> NULL \<or> n = 0)
       (andthen (count_down_find n (\<lambda>(a, b).
            if m a \<noteq> m b then Inr (if m b < m a then 1 else - 1) else Inl (a + 1, b + 1)) (a, b))
         (\<lambda>r. case r of Inr c \<Rightarrow> ret c | Inl _ \<Rightarrow> ret 0)))"

definition memchr :: "mem \<Rightarrow> addr \<Rightarrow> u32 \<Rightarrow> size_t \<Rightarrow> addr res" where
  "memchr m block ch n = (let ch = ucast ch :: u8 in
     ASSERT (block \<noteq> NULL \<or> n = 0)
       (andthen (count_down_find n (\<lambda>p. if m p = ch then Inr p else Inl (p + 1)) block)
         (\<lambda>r. case r of Inr p \<Rightarrow> ret p | Inl _ \<Rightarrow> ret NULL)))"

section \<open>What the loops compute\<close>

lemma unat_offset: "unat ((a :: addr) - b) = k \<Longrightarrow> a = b + of_nat k"
  by (auto simp: algebra_simps)

lemma offset_less_Suc:
  assumes "Suc k < 4294967296"
  shows "(a :: addr) - d < of_nat (Suc k) \<longleftrightarrow> a - d < of_nat k \<or> a = d + of_nat k"
proof -
  have "unat (of_nat (Suc k) :: u32) = Suc k" "unat (of_nat k :: u32) = k"
    using assms by (simp_all add: unat_of_nat del: of_nat_Suc)
  then show ?thesis
    by (auto simp: word_less_nat_alt less_Suc_eq simp del: of_nat_Suc dest: unat_offset)
qed

lemma memset_funpow:
  "k < 4294967296 \<Longrightarrow>
   ((\<lambda>(m, d). (m(d := v), d + 1)) ^^ k) (m, dst) = (\<lambda>a. if a - dst < of_nat k then v else m a, (dst :: addr) + of_nat k)"
proof (induction k)
  case (Suc k)
  then show ?case
    by (auto simp: offset_less_Suc [OF Suc.prems] fun_eq_iff simp del: of_nat_Suc) (simp_all add: of_nat_Suc)
qed simp

theorem memset_eq:
  "memset m dst v n =
     (if dst \<noteq> NULL \<or> n = 0 then ret (dst, \<lambda>a. if a - dst < n then ucast v else m a) else stop Assert_fail)"
  by (auto simp: memset_def ASSERT_def count_down_eq memset_funpow)

definition copied :: "mem \<Rightarrow> addr \<Rightarrow> addr \<Rightarrow> size_t \<Rightarrow> mem" where
  "copied m dst src n = (\<lambda>a. if a - dst < n then m (src + (a - dst)) else m a)"

lemma forward_funpow:
  assumes "k < 4294967296"
    and "\<And>i j. i < j \<Longrightarrow> j < k \<Longrightarrow> (dst :: addr) + of_nat i \<noteq> src + of_nat j"
  shows "((\<lambda>(m, d, s). (m(d := m s), d + 1, s + 1)) ^^ k) (m, dst, src) =
    (copied m dst src (of_nat k), dst + of_nat k, src + of_nat k)"
  using assms
proof (induction k)
  case (Suc k)
  have "\<not> src + of_nat k - dst < (of_nat k :: addr)"
  proof
    assume *: "src + of_nat k - dst < (of_nat k :: addr)"
    define i where "i = unat (src + of_nat k - dst)"
    have "i < k"
      using * Suc.prems(1) by (simp add: i_def word_less_nat_alt unat_of_nat)
    moreover have "dst + of_nat i = src + of_nat k"
      by (simp add: i_def)
    ultimately show False using Suc.prems(2) [of i k] by simp
  qed
  then have "copied m dst src (of_nat k) (src + of_nat k) = m (src + of_nat k)"
    by (simp add: copied_def)
  moreover have "(copied m dst src (of_nat k))(dst + of_nat k := m (src + of_nat k)) = copied m dst src (of_nat (Suc k))"
    using offset_less_Suc [OF Suc.prems(1), of _ dst]
    by (auto simp: copied_def fun_eq_iff simp del: of_nat_Suc)
  moreover have "((\<lambda>(m, d, s). (m(d := m s), d + 1, s + 1)) ^^ k) (m, dst, src) =
    (copied m dst src (of_nat k), dst + of_nat k, src + of_nat k)"
    using Suc.prems by (intro Suc.IH) simp_all
  ultimately show ?case
    by (simp only: funpow.simps o_apply prod.case) (simp add: add.commute add.left_commute)
qed (simp add: copied_def)

text \<open>Copying downwards leaves the bytes from offset \<open>n - k\<close> on copied.\<close>

definition copied_from :: "mem \<Rightarrow> addr \<Rightarrow> addr \<Rightarrow> nat \<Rightarrow> nat \<Rightarrow> mem" where
  "copied_from m dst src lo hi =
     (\<lambda>a. if lo \<le> unat (a - dst) \<and> unat (a - dst) < hi then m (src + (a - dst)) else m a)"

lemma backward_funpow:
  assumes "k \<le> n" and "n < 4294967296"
    and "\<And>i j. j < i \<Longrightarrow> i < n \<Longrightarrow> (dst :: addr) + of_nat i \<noteq> src + of_nat j"
  shows "((\<lambda>(m, d, s). let d = d - 1; s = s - 1 in (m(d := m s), d, s)) ^^ k)
      (m, dst + of_nat n, src + of_nat n) =
    (copied_from m dst src (n - k) n, dst + of_nat (n - k), src + of_nat (n - k))"
  using assms(1)
proof (induction k)
  case (Suc k)
  define j where "j = n - Suc k"
  have j: "n - k = Suc j" "j < n" using Suc.prems by (simp_all add: j_def)
  have "copied_from m dst src (Suc j) n (src + of_nat j) = m (src + of_nat j)"
  proof -
    define i where "i = unat (src + of_nat j - dst)"
    have "dst + of_nat i = src + of_nat j" by (simp add: i_def)
    then have "\<not> (Suc j \<le> i \<and> i < n)" using assms(3) [of j i] by auto
    then show ?thesis unfolding copied_from_def i_def by (simp only: if_False)
  qed
  moreover have "(copied_from m dst src (Suc j) n)(dst + of_nat j := m (src + of_nat j)) = copied_from m dst src j n"
  proof
    fix a
    have u: "unat (of_nat j :: addr) = j" using j assms(2) by (simp add: unat_of_nat)
    show "((copied_from m dst src (Suc j) n)(dst + of_nat j := m (src + of_nat j))) a = copied_from m dst src j n a"
    proof (cases "a = dst + of_nat j")
      case True
      then show ?thesis using u j by (simp add: copied_from_def)
    next
      case False
      then have "unat (a - dst) \<noteq> j" using unat_offset by blast
      then have "Suc j \<le> unat (a - dst) \<longleftrightarrow> j \<le> unat (a - dst)" by linarith
      then show ?thesis unfolding copied_from_def fun_upd_apply using False by (simp only: if_False)
    qed
  qed
  moreover have "(p :: addr) + of_nat (Suc j) - 1 = p + of_nat j" for p by simp
  moreover have "k \<le> n" using Suc.prems by simp
  ultimately show ?case
    by (simp only: funpow.simps o_apply Suc.IH prod.case j flip: j_def) (simp only: Let_def)
qed (auto simp: copied_from_def fun_eq_iff)

lemma no_wrap_offset:
  assumes "unat (p :: addr) + n \<le> 4294967296" and "i < n"
  shows "unat (p + of_nat i) = unat p + i"
  using assms by (subst unat_add_le) (simp_all add: unat_of_nat)

lemma no_wrap_offset_eq:
  assumes "unat (p :: addr) + n \<le> 4294967296" and "i < n" and "j < n"
  shows "p + of_nat i = p + of_nat j \<longleftrightarrow> i = j"
  using no_wrap_offset [OF assms(1,2)] no_wrap_offset [OF assms(1,3)] by (metis add_left_cancel)

lemma memcmp_iterate:
  "iterate_find n (\<lambda>(a, b). if m a \<noteq> m b then Inr (if m b < m a then 1 else - 1) else Inl (a + 1, b + 1)) (a, b) = r \<Longrightarrow>
   (\<forall>j < n. m (a + of_nat j) = m ((b :: addr) + of_nat j)) \<and> r = Inl (a + of_nat n, b + of_nat n) \<or>
   (\<exists>j < n. (\<forall>i < j. m (a + of_nat i) = m (b + of_nat i)) \<and> m (a + of_nat j) \<noteq> m (b + of_nat j) \<and>
      r = Inr (if m (b + of_nat j) < m (a + of_nat j) then 1 else - 1 :: int))"
proof (induction n arbitrary: a b)
  case (Suc n)
  show ?case
  proof (cases "m a = m b")
    case False
    then show ?thesis using Suc.prems by (intro disjI2 exI [of _ 0]) simp
  next
    case True
    have shift: "(p :: addr) + of_nat (Suc i) = p + 1 + of_nat i" for p i by simp
    from True Suc.prems have "iterate_find n (\<lambda>(a, b). if m a \<noteq> m b then Inr (if m b < m a then 1 else - 1)
        else Inl (a + 1, b + 1)) (a + 1, b + 1) = r" by simp
    from Suc.IH [OF this] show ?thesis
    proof (elim disjE exE conjE)
      assume eq: "\<forall>j < n. m (a + 1 + of_nat j) = m (b + 1 + of_nat j)" and "r = Inl (a + 1 + of_nat n, b + 1 + of_nat n)"
      moreover have "m (a + of_nat j) = m (b + of_nat j)" if "j < Suc n" for j
        using that True eq by (cases j) (simp_all only: shift, simp_all)
      ultimately show ?thesis by (simp add: add.assoc)
    next
      fix j assume j: "j < n" "\<forall>i < j. m (a + 1 + of_nat i) = m (b + 1 + of_nat i)"
        "m (a + 1 + of_nat j) \<noteq> m (b + 1 + of_nat j)"
        "r = Inr (if m (b + 1 + of_nat j) < m (a + 1 + of_nat j) then 1 else - 1)"
      have "m (a + of_nat i) = m (b + of_nat i)" if "i < Suc j" for i
        using that True j(2) by (cases i) (simp_all only: shift, simp_all)
      then show ?thesis using j by (intro disjI2 exI [of _ "Suc j"]) (simp only: shift, simp)
    qed
  qed
qed simp

lemma memchr_iterate:
  "iterate_find n (\<lambda>p. if m p = c then Inr p else Inl (p + 1)) (p :: addr) = r \<Longrightarrow>
   (\<forall>j < n. m (p + of_nat j) \<noteq> c) \<and> r = Inl (p + of_nat n) \<or>
   (\<exists>j < n. (\<forall>i < j. m (p + of_nat i) \<noteq> c) \<and> m (p + of_nat j) = c \<and> r = Inr (p + of_nat j))"
proof (induction n arbitrary: p)
  case (Suc n)
  show ?case
  proof (cases "m p = c")
    case True
    then show ?thesis using Suc.prems by (intro disjI2 exI [of _ 0]) simp
  next
    case False
    have shift: "(p :: addr) + of_nat (Suc i) = p + 1 + of_nat i" for i by simp
    from False Suc.prems have "iterate_find n (\<lambda>p. if m p = c then Inr p else Inl (p + 1)) (p + 1) = r" by simp
    from Suc.IH [OF this] show ?thesis
    proof (elim disjE exE conjE)
      assume ne: "\<forall>j < n. m (p + 1 + of_nat j) \<noteq> c" and "r = Inl (p + 1 + of_nat n)"
      moreover have "m (p + of_nat j) \<noteq> c" if "j < Suc n" for j
        using that False ne by (cases j) (simp_all only: shift, simp_all)
      ultimately show ?thesis by (simp add: add.assoc)
    next
      fix j assume j: "j < n" "\<forall>i < j. m (p + 1 + of_nat i) \<noteq> c" "m (p + 1 + of_nat j) = c" "r = Inr (p + 1 + of_nat j)"
      have "m (p + of_nat i) \<noteq> c" if "i < Suc j" for i
        using that False j(2) by (cases i) (simp_all only: shift, simp_all)
      then show ?thesis using j by (intro disjI2 exI [of _ "Suc j"]) (simp only: shift, simp)
    qed
  qed
qed simp

lemma memcpy_copied:
  assumes "dst \<noteq> NULL" and "src \<noteq> NULL"
    and "unat dst + unat n \<le> 4294967296" and "unat src + unat n \<le> 4294967296"
    and "unat dst + unat n \<le> unat src \<or> unat src + unat n \<le> unat dst"
  shows "memcpy m dst src n = ret (dst, copied m dst src n)"
proof -
  have "dst + of_nat i \<noteq> src + of_nat j" if "i < unat n" "j < unat n" for i j
    using that assms(5) no_wrap_offset [OF assms(3), of i] no_wrap_offset [OF assms(4), of j] by auto
  then show ?thesis
    using assms(1,2) by (simp add: memcpy_def count_down_eq forward_funpow)
qed

lemma memcmp_zero:
  assumes "a \<noteq> NULL" and "b \<noteq> NULL"
  shows "returns (memcmp m a b n) (\<lambda>c. c = 0 \<longleftrightarrow> (\<forall>j < unat n. m (a + of_nat j) = m (b + of_nat j)))"
  using assms memcmp_iterate [OF refl, of "unat n" m a b]
  by (auto simp: memcmp_def count_down_find_eq)

section \<open>Properties\<close>

text \<open>
  C36: \<^verbatim>\<open>memmove\<close> copies correctly whatever the overlap. If neither block runs past the end of
  the address space, every destination byte becomes the source byte of the old memory and
  no other byte changes. The value returned is the destination, as documented, only when the
  copy runs downwards; when the destination lies below the source it is the address after the
  last byte written.
\<close>

theorem memmove_overlap:
  assumes "dst \<noteq> NULL" and "src \<noteq> NULL"
    and "unat dst + unat n \<le> 4294967296" and "unat src + unat n \<le> 4294967296"
  shows "memmove m dst src n = ret (if dst < src then dst + n else dst, copied m dst src n)"
proof (cases "dst < src")
  case True
  have "dst + of_nat i \<noteq> src + of_nat j" if "i < j" "j < unat n" for i j
    using that True no_wrap_offset [OF assms(3), of i] no_wrap_offset [OF assms(4), of j]
    by (auto simp: word_less_nat_alt)
  then show ?thesis
    using True assms(1,2) by (simp add: memmove_def count_down_eq forward_funpow)
next
  case False
  have "dst + of_nat i \<noteq> src + of_nat j" if "j < i" "i < unat n" for i j
    using that False no_wrap_offset [OF assms(3), of i] no_wrap_offset [OF assms(4), of j]
    by (auto simp: word_less_nat_alt)
  then have "((\<lambda>(m, d, s). let d = d - 1; s = s - 1 in (m(d := m s), d, s)) ^^ unat n)
      (m, dst + of_nat (unat n), src + of_nat (unat n)) = (copied_from m dst src 0 (unat n), dst, src)"
    by (subst backward_funpow) simp_all
  moreover have "copied_from m dst src 0 (unat n) = copied m dst src n"
    by (simp add: copied_from_def copied_def word_less_nat_alt)
  ultimately show ?thesis
    using False assms(1,2) by (simp add: memmove_def count_down_eq)
qed

theorem memmove_overlap_witness:
  "memmove (\<lambda>a. ucast a) 100 102 10 = ret (110, copied (\<lambda>a. ucast a) 100 102 10) \<and>
   memmove (\<lambda>a. ucast a) 102 100 10 = ret (102, copied (\<lambda>a. ucast a) 102 100 10)"
  using memmove_overlap [of 100 102 10 "\<lambda>a. ucast a"] memmove_overlap [of 102 100 10 "\<lambda>a. ucast a"] by simp

text \<open>
  \<^verbatim>\<open>memcpy\<close> of disjoint blocks copies every byte, changes nothing else and returns the
  destination; \<^verbatim>\<open>memcmp\<close> then finds the two blocks equal.
\<close>

lemma memcpy_disjoint:
  assumes "dst \<noteq> NULL" and "src \<noteq> NULL"
    and "unat dst + unat n \<le> 4294967296" and "unat src + unat n \<le> 4294967296"
    and "unat dst + unat n \<le> unat src \<or> unat src + unat n \<le> unat dst"
  shows "memcpy m dst src n = ret (dst, copied m dst src n) \<and> memcmp (copied m dst src n) dst src n = ret 0"
proof
  have ne: "dst + of_nat i \<noteq> src + of_nat j" if "i < unat n" "j < unat n" for i j
    using that assms(5) no_wrap_offset [OF assms(3), of i] no_wrap_offset [OF assms(4), of j] by auto
  show "memcpy m dst src n = ret (dst, copied m dst src n)"
    using assms by (rule memcpy_copied)
  have "copied m dst src n (dst + of_nat j) = copied m dst src n (src + of_nat j)" if j: "j < unat n" for j
  proof -
    have "j < 4294967296" using j unat_lt_2p32 [of n] by linarith
    then have "unat (of_nat j :: addr) = j" by (simp add: unat_of_nat)
    moreover have "\<not> src + of_nat j - dst < n"
    proof
      assume "src + of_nat j - dst < n"
      then have "unat (src + of_nat j - dst) < unat n" by (simp add: word_less_nat_alt)
      moreover have "dst + of_nat (unat (src + of_nat j - dst)) = src + of_nat j" by simp
      ultimately show False using ne j by blast
    qed
    ultimately show ?thesis using j by (simp add: copied_def word_less_nat_alt)
  qed
  then show "memcmp (copied m dst src n) dst src n = ret 0"
    using assms(1,2) memcmp_iterate [OF refl, of "unat n" "copied m dst src n" dst src]
    by (auto simp: memcmp_def count_down_find_eq)
qed

text \<open>
  \<^verbatim>\<open>memcmp\<close> compares lexicographically and \<^verbatim>\<open>memchr\<close> finds the first occurrence. For
  non-null blocks of any size, \<^verbatim>\<open>memcmp\<close> returns 0 if all bytes agree and otherwise the order
  of the first two unsigned bytes that differ; \<^verbatim>\<open>memchr\<close> returns the address of the first
  byte equal to \<^verbatim>\<open>ch\<close>, or a null pointer if there is none.
\<close>

lemma memcmp_memchr_first:
  assumes "a \<noteq> NULL" and "b \<noteq> NULL"
  shows "((\<forall>j < unat n. m (a + of_nat j) = m (b + of_nat j)) \<and> memcmp m a b n = ret 0 \<or>
      (\<exists>j < unat n. (\<forall>i < j. m (a + of_nat i) = m (b + of_nat i)) \<and> m (a + of_nat j) \<noteq> m (b + of_nat j) \<and>
        memcmp m a b n = ret (if m (b + of_nat j) < m (a + of_nat j) then 1 else - 1))) \<and>
    ((\<forall>j < unat n. m (a + of_nat j) \<noteq> ucast ch) \<and> memchr m a ch n = ret NULL \<or>
      (\<exists>j < unat n. (\<forall>i < j. m (a + of_nat i) \<noteq> ucast ch) \<and> m (a + of_nat j) = ucast ch \<and>
        memchr m a ch n = ret (a + of_nat j)))"
  using assms memcmp_iterate [OF refl, of "unat n" m a b] memchr_iterate [OF refl, where n = "unat n" and m = m and c = "ucast ch" and p = a]
  by (auto simp: memcmp_def memchr_def count_down_find_eq Let_def)

end
