(* ===== verification/Bitmap.thy ===== *)
theory Bitmap
  imports Address
begin

text \<open>
  Bitmaps (\<^verbatim>\<open>lib/kernel/bitmap.c\<close>): the operations on elements of 32 bits, and their refinement of
  operations on lists of booleans.
\<close>

section \<open>The model of \<^verbatim>\<open>lib/kernel/bitmap.c\<close>\<close>

definition ELEM_BITS :: size_t where
  "ELEM_BITS = 4 * 8"

record bitmap =
  bit_cnt :: size_t
  bits :: "u32 list"

definition elem_idx :: "size_t \<Rightarrow> size_t" where
  "elem_idx bit_idx = bit_idx div ELEM_BITS"

definition bit_mask :: "size_t \<Rightarrow> u32" where
  "bit_mask bit_idx = push_bit (unat (bit_idx mod ELEM_BITS)) 1"

definition elem_cnt :: "size_t \<Rightarrow> size_t" where
  "elem_cnt n = DIV_ROUND_UP n ELEM_BITS"

definition byte_cnt :: "size_t \<Rightarrow> size_t" where
  "byte_cnt n = 4 * elem_cnt n"

definition last_mask :: "bitmap \<Rightarrow> u32" where
  "last_mask b = (let last_bits = bit_cnt b mod ELEM_BITS
                  in if last_bits \<noteq> 0 then push_bit (unat last_bits) 1 - 1 else - 1)"

definition bitmap_size :: "bitmap \<Rightarrow> size_t" where
  "bitmap_size b = bit_cnt b"

definition bitmap_mark :: "bitmap \<Rightarrow> size_t \<Rightarrow> bitmap res" where
  "bitmap_mark b bit_idx = (let idx = unat (elem_idx bit_idx); mask = bit_mask bit_idx in
     andthen (rd (bits b) idx) (\<lambda>w.
     andthen (wr (bits b) idx (w OR mask)) (\<lambda>ws. ret (b\<lparr>bits := ws\<rparr>))))"

definition bitmap_reset :: "bitmap \<Rightarrow> size_t \<Rightarrow> bitmap res" where
  "bitmap_reset b bit_idx = (let idx = unat (elem_idx bit_idx); mask = bit_mask bit_idx in
     andthen (rd (bits b) idx) (\<lambda>w.
     andthen (wr (bits b) idx (w AND NOT mask)) (\<lambda>ws. ret (b\<lparr>bits := ws\<rparr>))))"

definition bitmap_flip :: "bitmap \<Rightarrow> size_t \<Rightarrow> bitmap res" where
  "bitmap_flip b bit_idx = (let idx = unat (elem_idx bit_idx); mask = bit_mask bit_idx in
     andthen (rd (bits b) idx) (\<lambda>w.
     andthen (wr (bits b) idx (w XOR mask)) (\<lambda>ws. ret (b\<lparr>bits := ws\<rparr>))))"

definition bitmap_set :: "bitmap \<Rightarrow> size_t \<Rightarrow> bool \<Rightarrow> bitmap res" where
  "bitmap_set b idx value = ASSERT (idx < bit_cnt b)
     (if value then bitmap_mark b idx else bitmap_reset b idx)"

definition bitmap_test :: "bitmap \<Rightarrow> size_t \<Rightarrow> bool res" where
  "bitmap_test b idx = ASSERT (idx < bit_cnt b)
     (andthen (rd (bits b) (unat (elem_idx idx))) (\<lambda>w. ret (w AND bit_mask idx \<noteq> 0)))"

definition bitmap_set_multiple :: "bitmap \<Rightarrow> size_t \<Rightarrow> size_t \<Rightarrow> bool \<Rightarrow> bitmap res" where
  "bitmap_set_multiple b start cnt value =
     ASSERT (start \<le> bit_cnt b) (ASSERT (start + cnt \<le> bit_cnt b)
       (for_range 0 cnt (\<lambda>i b. bitmap_set b (start + i) value) b))"

definition bitmap_set_all :: "bitmap \<Rightarrow> bool \<Rightarrow> bitmap res" where
  "bitmap_set_all b value = bitmap_set_multiple b 0 (bitmap_size b) value"

definition bitmap_count :: "bitmap \<Rightarrow> size_t \<Rightarrow> size_t \<Rightarrow> bool \<Rightarrow> size_t res" where
  "bitmap_count b start cnt value =
     ASSERT (start \<le> bit_cnt b) (ASSERT (start + cnt \<le> bit_cnt b)
       (for_range 0 cnt (\<lambda>i value_cnt. andthen (bitmap_test b (start + i)) (\<lambda>t.
          ret (if t = value then value_cnt + 1 else value_cnt))) 0))"

definition bitmap_contains :: "bitmap \<Rightarrow> size_t \<Rightarrow> size_t \<Rightarrow> bool \<Rightarrow> bool res" where
  "bitmap_contains b start cnt value =
     ASSERT (start \<le> bit_cnt b) (ASSERT (start + cnt \<le> bit_cnt b)
       (andthen (for_find 0 cnt (\<lambda>i. andthen (bitmap_test b (start + i)) (\<lambda>t.
            ret (if t = value then Some True else None))))
        (\<lambda>r. case r of Some v \<Rightarrow> ret v | None \<Rightarrow> ret False)))"

definition bitmap_any :: "bitmap \<Rightarrow> size_t \<Rightarrow> size_t \<Rightarrow> bool res" where
  "bitmap_any b start cnt = bitmap_contains b start cnt True"

definition bitmap_none :: "bitmap \<Rightarrow> size_t \<Rightarrow> size_t \<Rightarrow> bool res" where
  "bitmap_none b start cnt = andthen (bitmap_contains b start cnt True) (\<lambda>c. ret (\<not> c))"

definition bitmap_all :: "bitmap \<Rightarrow> size_t \<Rightarrow> size_t \<Rightarrow> bool res" where
  "bitmap_all b start cnt = andthen (bitmap_contains b start cnt False) (\<lambda>c. ret (\<not> c))"

definition BITMAP_ERROR :: size_t where
  "BITMAP_ERROR = SIZE_MAX"

definition bitmap_scan :: "bitmap \<Rightarrow> size_t \<Rightarrow> size_t \<Rightarrow> bool \<Rightarrow> size_t res" where
  "bitmap_scan b start cnt value = ASSERT (start \<le> bit_cnt b)
     (if cnt \<le> bit_cnt b then
        let last = bit_cnt b - cnt in
        loop (\<lambda>i. if i \<le> last then
                    andthen (bitmap_contains b i cnt (\<not> value)) (\<lambda>c.
                      if \<not> c then ret (Inr i) else ret (Inl (i + 1)))
                  else ret (Inr BITMAP_ERROR)) start
      else ret BITMAP_ERROR)"

definition bitmap_scan_and_flip :: "bitmap \<Rightarrow> size_t \<Rightarrow> size_t \<Rightarrow> bool \<Rightarrow> (size_t \<times> bitmap) res" where
  "bitmap_scan_and_flip b start cnt value =
     andthen (bitmap_scan b start cnt value) (\<lambda>idx.
       if idx \<noteq> BITMAP_ERROR
       then andthen (bitmap_set_multiple b idx cnt (\<not> value)) (\<lambda>b'. ret (idx, b'))
       else ret (idx, b))"

definition bitmap_buf_size :: "size_t \<Rightarrow> size_t" where
  "bitmap_buf_size n = 8 + byte_cnt n"

text \<open>
  \<open>bitmap_create_in_buf\<close> lays the bitmap out in a block of memory, given here as the words it
  holds: \<^verbatim>\<open>struct bitmap\<close> takes the first two, the elements follow it.
\<close>

definition bitmap_create_in_buf :: "size_t \<Rightarrow> u32 list \<Rightarrow> size_t \<Rightarrow> bitmap res" where
  "bitmap_create_in_buf n block block_size =
     ASSERT (bitmap_buf_size n \<le> block_size)
       (bitmap_set_all \<lparr>bit_cnt = n, bits = drop 2 block\<rparr> False)"

section \<open>Abstraction to lists of bits\<close>

definition bm_bit :: "bitmap \<Rightarrow> nat \<Rightarrow> bool" where
  "bm_bit b i = bit (bits b ! (i div 32)) (i mod 32)"

definition bm_abs :: "bitmap \<Rightarrow> bool list" where
  "bm_abs b = map (bm_bit b) [0..<unat (bit_cnt b)]"

definition wf_bitmap :: "bitmap \<Rightarrow> bool" where
  "wf_bitmap b \<longleftrightarrow> unat (bit_cnt b) \<le> 32 * length (bits b)"

text \<open>\<open>b\<close> is a well-formed bitmap and holds the bits \<open>xs\<close>.\<close>

definition holds_bits :: "bitmap \<Rightarrow> bool list \<Rightarrow> bool" where
  "holds_bits b xs \<longleftrightarrow> wf_bitmap b \<and> bm_abs b = xs"

lemma holds_bits_length: "holds_bits b xs \<Longrightarrow> length xs = unat (bit_cnt b)"
  by (auto simp: holds_bits_def bm_abs_def)

lemma holds_bits_nth: "holds_bits b xs \<Longrightarrow> i < length xs \<Longrightarrow> xs ! i = bm_bit b i"
  by (auto simp: holds_bits_def bm_abs_def)

lemma holds_bitsI:
  "wf_bitmap b \<Longrightarrow> length xs = unat (bit_cnt b) \<Longrightarrow> (\<And>i. i < length xs \<Longrightarrow> xs ! i = bm_bit b i) \<Longrightarrow>
   holds_bits b xs"
  by (auto simp: holds_bits_def bm_abs_def intro!: nth_equalityI)

lemma unat_elem_idx: "unat (elem_idx i) = unat i div 32"
  by (simp add: elem_idx_def ELEM_BITS_def unat_div)

lemma bit_bit_mask: "bit (bit_mask i) k \<longleftrightarrow> k = unat i mod 32"
  by (auto simp: bit_mask_def ELEM_BITS_def bit_simps unat_mod)

lemma and_bit_mask: "w AND bit_mask i \<noteq> 0 \<longleftrightarrow> bit w (unat i mod 32)"
proof -
  have "bit (w AND bit_mask i) n \<longleftrightarrow> n = unat i mod 32 \<and> bit w n" for n
    by (auto simp: bit_and_iff bit_bit_mask)
  moreover have "w AND bit_mask i = 0 \<longleftrightarrow> (\<forall>n. \<not> bit (w AND bit_mask i) n)"
    by (metis bit_0_eq bit_eqI bot_apply bot_bool_def)
  ultimately show ?thesis by simp
qed

lemma elem_in_range: "wf_bitmap b \<Longrightarrow> i < unat (bit_cnt b) \<Longrightarrow> i div 32 < length (bits b)"
  unfolding wf_bitmap_def by linarith

lemma bitmap_test_holds:
  assumes "holds_bits b xs" and "unat idx < length xs"
  shows "bitmap_test b idx = ret (xs ! unat idx)"
proof -
  have "idx < bit_cnt b" "unat idx div 32 < length (bits b)"
    using assms holds_bits_length [OF assms(1)]
    by (simp_all add: word_less_nat_alt holds_bits_def elem_in_range)
  then show ?thesis
    using assms by (simp add: bitmap_test_def unat_elem_idx and_bit_mask holds_bits_nth bm_bit_def)
qed

lemma bitmap_set_holds:
  assumes "holds_bits b xs" and "unat idx < length xs"
  shows "returns (bitmap_set b idx v) (\<lambda>b'. holds_bits b' (xs[unat idx := v]) \<and> bit_cnt b' = bit_cnt b)"
proof -
  have len: "length xs = unat (bit_cnt b)" and wf: "wf_bitmap b"
    using assms holds_bits_length by (auto simp: holds_bits_def)
  have e: "idx < bit_cnt b" "unat idx div 32 < length (bits b)"
    using assms len wf by (simp_all add: word_less_nat_alt elem_in_range)
  define w where "w = bits b ! (unat idx div 32)"
  define w' where "w' = (if v then w OR bit_mask idx else w AND NOT (bit_mask idx))"
  let ?b = "b\<lparr>bits := (bits b)[unat idx div 32 := w']\<rparr>"
  have "bitmap_set b idx v = ret ?b"
    using e by (simp add: bitmap_set_def bitmap_mark_def bitmap_reset_def unat_elem_idx Let_def w_def w'_def)
  moreover have "holds_bits ?b (xs[unat idx := v])"
  proof (rule holds_bitsI)
    fix i assume i: "i < length (xs[unat idx := v])"
    have bw: "bit w' k \<longleftrightarrow> (if k = unat idx mod 32 then v else bit w k)" if "k < 32" for k
      using that by (simp add: w'_def bit_simps bit_bit_mask)
    have "i div 32 < length (bits b)"
      using i len wf by (simp add: elem_in_range)
    moreover have "i = unat idx" if "i div 32 = unat idx div 32" "i mod 32 = unat idx mod 32"
      using that by (metis div_mult_mod_eq)
    ultimately show "xs[unat idx := v] ! i = bm_bit ?b i"
      using assms e i bw [of "i mod 32"] by (auto simp: bm_bit_def nth_list_update holds_bits_nth w_def)
  qed (use wf len in \<open>simp_all add: wf_bitmap_def\<close>)
  ultimately show ?thesis by simp
qed

lemma bitmap_set_out: "bit_cnt b \<le> idx \<Longrightarrow> bitmap_set b idx v = stop Assert_fail"
  by (simp add: bitmap_set_def leD)

lemma bitmap_test_out: "bit_cnt b \<le> idx \<Longrightarrow> bitmap_test b idx = stop Assert_fail"
  by (simp add: bitmap_test_def leD)

section \<open>Ranges of bits\<close>

definition set_range :: "nat \<Rightarrow> nat \<Rightarrow> 'a \<Rightarrow> 'a list \<Rightarrow> 'a list" where
  "set_range s n v xs = take s xs @ replicate n v @ drop (s + n) xs"

lemma set_range_0 [simp]: "set_range s 0 v xs = xs"
  by (simp add: set_range_def)

lemma length_set_range [simp]: "s + n \<le> length xs \<Longrightarrow> length (set_range s n v xs) = length xs"
  by (simp add: set_range_def)

lemma nth_set_range:
  "s + n \<le> length xs \<Longrightarrow> i < length xs \<Longrightarrow>
   set_range s n v xs ! i = (if s \<le> i \<and> i < s + n then v else xs ! i)"
  by (auto simp: set_range_def nth_append)

lemma set_range_Suc:
  "s + n < length xs \<Longrightarrow> set_range s (Suc n) v xs = (set_range s n v xs)[s + n := v]"
  by (rule nth_equalityI) (auto simp: nth_set_range nth_list_update)

text \<open>\<open>run_at v n xs i\<close>: the \<open>n\<close> bits from \<open>i\<close> on are all \<open>v\<close>.\<close>

definition run_at :: "'a \<Rightarrow> nat \<Rightarrow> 'a list \<Rightarrow> nat \<Rightarrow> bool" where
  "run_at v n xs i \<longleftrightarrow> i + n \<le> length xs \<and> (\<forall>j < n. xs ! (i + j) = v)"

lemma run_at_set_range: "s + n \<le> length xs \<Longrightarrow> run_at v n (set_range s n v xs) s"
  by (simp add: run_at_def nth_set_range)

lemma run_at_nth: "run_at v n xs s \<Longrightarrow> s \<le> i \<Longrightarrow> i < s + n \<Longrightarrow> xs ! i = v"
  unfolding run_at_def by (metis add_diff_inverse_nat add_less_cancel_left not_less)

lemma set_range_undo: "run_at v n xs s \<Longrightarrow> set_range s n v (set_range s n w xs) = xs"
  by (rule nth_equalityI) (auto simp: nth_set_range run_at_nth run_at_def [THEN iffD1])

text \<open>
  The wrapped sum in \<^verbatim>\<open>ASSERT (start + cnt <= b->bit_cnt)\<close> can only be smaller than the real
  one; what it lets through is caught by the assertion of \<open>bitmap_set\<close> or \<open>bitmap_test\<close>.
\<close>

lemma wrapped_assert:
  assumes "unat start + unat cnt \<le> unat (n :: size_t)"
  shows "start \<le> n \<and> start + cnt \<le> n"
proof -
  have "unat (start + cnt) = unat start + unat cnt"
    using assms unat_lt_2p32 [of n] by (intro unat_add_le) linarith
  with assms show ?thesis by (simp add: word_le_nat_alt)
qed

lemma unat_start_plus:
  assumes "unat (start :: size_t) + unat cnt \<le> unat (n :: size_t)" and "i < cnt"
  shows "unat (start + i) = unat start + unat i" and "unat (start + i) < unat n"
proof -
  have lt: "unat start + unat i < unat n"
    using assms by (simp add: word_less_nat_alt)
  then show u: "unat (start + i) = unat start + unat i"
    using unat_lt_2p32 [of n] by (intro unat_add_le) linarith
  from lt show "unat (start + i) < unat n" by (simp add: u)
qed

lemma bitmap_set_multiple_holds:
  assumes b: "holds_bits b xs" and le: "unat start + unat cnt \<le> length xs"
  shows "returns (bitmap_set_multiple b start cnt v)
    (\<lambda>b'. holds_bits b' (set_range (unat start) (unat cnt) v xs) \<and> bit_cnt b' = bit_cnt b)"
proof -
  have len: "length xs = unat (bit_cnt b)"
    using b by (rule holds_bits_length)
  have "returns (for_range 0 cnt (\<lambda>i b. bitmap_set b (start + i) v) b)
    (\<lambda>b'. holds_bits b' (set_range (unat start) (unat cnt) v xs) \<and> bit_cnt b' = bit_cnt b)"
  proof (rule returns_for_range [where I = "\<lambda>n b'. holds_bits b' (set_range (unat start) n v xs) \<and>
        bit_cnt b' = bit_cnt b"])
    fix i b'
    assume i: "i < cnt" and b': "holds_bits b' (set_range (unat start) (unat i) v xs) \<and> bit_cnt b' = bit_cnt b"
    have u: "unat (start + i) = unat start + unat i" "unat (start + i) < length xs"
      using unat_start_plus [OF le [unfolded len] i] by (simp_all add: len)
    with b' have "returns (bitmap_set b' (start + i) v)
      (\<lambda>b''. holds_bits b'' ((set_range (unat start) (unat i) v xs)[unat start + unat i := v]) \<and> bit_cnt b'' = bit_cnt b')"
      using bitmap_set_holds [of b' "set_range (unat start) (unat i) v xs" "start + i" v] by simp
    then show "returns (bitmap_set b' (start + i) v)
        (\<lambda>b'. holds_bits b' (set_range (unat start) (Suc (unat i)) v xs) \<and> bit_cnt b' = bit_cnt b)"
      using b' u by (elim returns_mono) (simp add: set_range_Suc)
  qed (use b in simp_all)
  moreover have "start \<le> bit_cnt b" "start + cnt \<le> bit_cnt b"
    using wrapped_assert [of start cnt "bit_cnt b"] le len by auto
  ultimately show ?thesis
    by (simp add: bitmap_set_multiple_def)
qed

lemma bitmap_set_multiple_out:
  assumes b: "holds_bits b xs" and gt: "length xs < unat start + unat cnt"
  shows "bitmap_set_multiple b start cnt v = stop Assert_fail"
proof (cases "start \<le> bit_cnt b \<and> start + cnt \<le> bit_cnt b")
  case False
  then show ?thesis by (auto simp: bitmap_set_multiple_def ASSERT_def)
next
  case True
  have len: "length xs = unat (bit_cnt b)"
    using b by (rule holds_bits_length)
  have "ends (for_range 0 cnt (\<lambda>i b. bitmap_set b (start + i) v) b) (\<lambda>e. e = Assert_fail)
    (\<lambda>b'. bit_cnt b' = bit_cnt b \<and> unat start + unat cnt \<le> length xs \<and> (\<exists>ys. holds_bits b' ys))"
  proof (rule ends_for_range [where I = "\<lambda>n b'. bit_cnt b' = bit_cnt b \<and> unat start + n \<le> length xs \<and>
        (\<exists>ys. holds_bits b' ys)"])
    fix i b'
    assume i: "i < cnt" and b': "bit_cnt b' = bit_cnt b \<and> unat start + unat i \<le> length xs \<and> (\<exists>ys. holds_bits b' ys)"
    have u: "unat (start + i) = unat start + unat i"
      using b' len unat_lt_2p32 [of "bit_cnt b"] by (intro unat_add_le) linarith
    obtain ys where ys: "holds_bits b' ys" and lys: "length ys = length xs"
      using b' len holds_bits_length by fastforce
    show "ends (bitmap_set b' (start + i) v) (\<lambda>e. e = Assert_fail)
        (\<lambda>b'. bit_cnt b' = bit_cnt b \<and> unat start + Suc (unat i) \<le> length xs \<and> (\<exists>ys. holds_bits b' ys))"
    proof (cases "unat (start + i) < length xs")
      case True
      then show ?thesis
        using bitmap_set_holds [OF ys, of "start + i" v] lys u b'
        by (auto simp: returns_def)
    next
      case False
      then have "bit_cnt b' \<le> start + i"
        using b' len by (simp add: word_le_nat_alt)
      then show ?thesis by (simp add: bitmap_set_out)
    qed
  qed (use b True len in \<open>auto simp: word_le_nat_alt\<close>)
  then show ?thesis
    using True gt by (auto simp: bitmap_set_multiple_def ends_def)
qed

lemma bitmap_contains_holds:
  assumes b: "holds_bits b xs" and le: "unat start + unat cnt \<le> length xs"
  shows "bitmap_contains b start cnt v = ret (\<exists>j < unat cnt. xs ! (unat start + j) = v)"
proof -
  have len: "length xs = unat (bit_cnt b)"
    using b by (rule holds_bits_length)
  have "for_find 0 cnt (\<lambda>i. andthen (bitmap_test b (start + i)) (\<lambda>t. ret (if t = v then Some True else None)))
    = ret (first_some (\<lambda>j. if xs ! (unat start + j) = v then Some True else None) [unat (0 :: u32)..<unat cnt])"
  proof (rule for_find_eq)
    fix i assume i: "i < cnt"
    have "unat (start + i) = unat start + unat i" "unat (start + i) < length xs"
      using unat_start_plus [OF le [unfolded len] i] by (simp_all add: len)
    then show "andthen (bitmap_test b (start + i)) (\<lambda>t. ret (if t = v then Some True else None)) =
        ret (if xs ! (unat start + unat i) = v then Some True else None)"
      using bitmap_test_holds [OF b] by simp
  qed
  moreover have "start \<le> bit_cnt b" "start + cnt \<le> bit_cnt b"
    using wrapped_assert [of start cnt "bit_cnt b"] le len by auto
  ultimately show ?thesis
    by (auto simp: bitmap_contains_def first_some_const)
qed

lemma bitmap_all_holds:
  "holds_bits b xs \<Longrightarrow> unat start + unat cnt \<le> length xs \<Longrightarrow>
   bitmap_all b start cnt = ret (run_at True (unat cnt) xs (unat start))"
  by (simp add: bitmap_all_def bitmap_contains_holds run_at_def)

text \<open>Out of range the answer is never \<open>True\<close>: a bit outside trips the assertion of \<open>bitmap_test\<close>.\<close>

lemma bitmap_contains_out:
  assumes b: "holds_bits b xs" and gt: "length xs < unat start + unat cnt"
  shows "bitmap_contains b start cnt v = stop Assert_fail \<or> bitmap_contains b start cnt v = ret True"
proof (cases "start \<le> bit_cnt b \<and> start + cnt \<le> bit_cnt b")
  case False
  then show ?thesis by (auto simp: bitmap_contains_def ASSERT_def)
next
  case True
  have len: "length xs = unat (bit_cnt b)"
    using b by (rule holds_bits_length)
  have "ends (for_find 0 cnt (\<lambda>i. andthen (bitmap_test b (start + i)) (\<lambda>t. ret (if t = v then Some True else None))))
      (\<lambda>e. e = Assert_fail) (\<lambda>r. r = Some True)"
    unfolding for_find_def
  proof (rule ends_loop [where I = "\<lambda>i. unat start + unat i \<le> length xs" and m = "\<lambda>i. length xs - unat i"])
    show "unat start + unat (0 :: size_t) \<le> length xs" using True len by (simp add: word_le_nat_alt)
  next
    fix i :: size_t assume i: "unat start + unat i \<le> length xs"
    have lt: "i < cnt" using i gt by (simp add: word_less_nat_alt)
    have u: "unat (start + i) = unat start + unat i"
      using i len unat_lt_2p32 [of "bit_cnt b"] by (intro unat_add_le) linarith
    note S = unat_Suc_less [OF lt]
    show "ends (if i < cnt then andthen (andthen (bitmap_test b (start + i)) (\<lambda>t. ret (if t = v then Some True else None)))
          (\<lambda>r. case r of None \<Rightarrow> ret (Inl (i + 1)) | Some v \<Rightarrow> ret (Inr (Some v))) else ret (Inr None))
        (\<lambda>e. e = Assert_fail)
        (\<lambda>x. case x of Inl s' \<Rightarrow> unat start + unat s' \<le> length xs \<and> length xs - unat s' < length xs - unat i
          | Inr r \<Rightarrow> r = Some True)"
    proof (cases "unat (start + i) < length xs")
      case True
      then show ?thesis
        using bitmap_test_holds [OF b, of "start + i"] lt u S by (simp add: wp diff_less_mono2)
    next
      case False
      then have "bit_cnt b \<le> start + i" using len by (simp add: word_le_nat_alt)
      then show ?thesis using lt by (simp add: bitmap_test_out)
    qed
  qed
  then show ?thesis
    using True by (auto simp: bitmap_contains_def ends_def)
qed

lemma bitmap_all_out:
  assumes "holds_bits b xs" and "length xs < unat start + unat cnt"
  shows "bitmap_all b start cnt = stop Assert_fail \<or> bitmap_all b start cnt = ret False"
  using bitmap_contains_out [OF assms, of False] by (auto simp: bitmap_all_def)

lemma bitmap_none_holds:
  "holds_bits b xs \<Longrightarrow> unat start + unat cnt \<le> length xs \<Longrightarrow>
   bitmap_none b start cnt = ret (run_at False (unat cnt) xs (unat start))"
  by (simp add: bitmap_none_def bitmap_contains_holds run_at_def)

lemma bitmap_any_holds:
  "holds_bits b xs \<Longrightarrow> unat start + unat cnt \<le> length xs \<Longrightarrow>
   bitmap_any b start cnt = ret (\<exists>j < unat cnt. xs ! (unat start + j))"
  by (simp add: bitmap_any_def bitmap_contains_holds)

lemma bitmap_count_holds:
  assumes b: "holds_bits b xs" and le: "unat start + unat cnt \<le> length xs"
  shows "returns (bitmap_count b start cnt v)
    (\<lambda>n. unat n = count_list (take (unat cnt) (drop (unat start) xs)) v)"
proof -
  have len: "length xs = unat (bit_cnt b)"
    using b by (rule holds_bits_length)
  let ?ys = "drop (unat start) xs"
  have "returns (for_range 0 cnt (\<lambda>i value_cnt. andthen (bitmap_test b (start + i)) (\<lambda>t.
          ret (if t = v then value_cnt + 1 else value_cnt))) (0 :: size_t))
    (\<lambda>n. unat n = count_list (take (unat cnt) ?ys) v)"
  proof (rule returns_for_range [where I = "\<lambda>k n. unat n = count_list (take k ?ys) v"])
    fix i n :: size_t
    assume i: "i < cnt" and n: "unat n = count_list (take (unat i) ?ys) v"
    have u: "unat (start + i) = unat start + unat i" "unat (start + i) < length xs"
      using unat_start_plus [OF le [unfolded len] i] by (simp_all add: len)
    have "unat n \<le> unat i"
      using n count_le_length [of "take (unat i) ?ys" v] by simp
    then have "n < cnt"
      using i by (simp add: word_less_nat_alt)
    then show "returns (andthen (bitmap_test b (start + i)) (\<lambda>t. ret (if t = v then n + 1 else n)))
        (\<lambda>n. unat n = count_list (take (Suc (unat i)) ?ys) v)"
      using u n bitmap_test_holds [OF b]
      by (simp add: unat_Suc_less take_Suc_conv_app_nth)
  qed simp_all
  moreover have "start \<le> bit_cnt b" "start + cnt \<le> bit_cnt b"
    using wrapped_assert [of start cnt "bit_cnt b"] le len by auto
  ultimately show ?thesis
    by (simp add: bitmap_count_def)
qed

section \<open>Scanning\<close>

definition is_first_run :: "'a \<Rightarrow> nat \<Rightarrow> 'a list \<Rightarrow> nat \<Rightarrow> nat \<Rightarrow> bool" where
  "is_first_run v n xs s i \<longleftrightarrow> s \<le> i \<and> run_at v n xs i \<and> (\<forall>j. s \<le> j \<and> j < i \<longrightarrow> \<not> run_at v n xs j)"

lemma bitmap_scan_holds:
  assumes b: "holds_bits b xs" and start: "unat start \<le> length xs" and cnt: "0 < cnt"
  shows "returns (bitmap_scan b start cnt v) (\<lambda>r.
    if r = BITMAP_ERROR then \<forall>i \<ge> unat start. \<not> run_at v (unat cnt) xs i
    else is_first_run v (unat cnt) xs (unat start) (unat r))"
proof (cases "cnt \<le> bit_cnt b")
  case False
  have "length xs < unat cnt"
    using False holds_bits_length [OF b] by (simp add: word_le_nat_alt)
  with False start show ?thesis
    using holds_bits_length [OF b]
    by (auto simp: bitmap_scan_def run_at_def word_le_nat_alt)
next
  case True
  have len: "length xs = unat (bit_cnt b)"
    using b by (rule holds_bits_length)
  define last where "last = bit_cnt b - cnt"
  have last: "unat last + unat cnt = length xs" "0 < unat cnt"
    using True cnt by (simp_all add: last_def unat_minus_le len word_nat)
  have lmax: "i < SIZE_MAX" if "i \<le> last" for i :: size_t
  proof -
    have "unat i < unat (bit_cnt b)"
      using that last len by (simp add: word_le_nat_alt)
    then have "i < bit_cnt b" by (simp add: word_less_nat_alt)
    also have "\<dots> \<le> SIZE_MAX" by (rule word_n1_ge)
    finally show ?thesis .
  qed
  have "returns (loop (\<lambda>i. if i \<le> last then
                    andthen (bitmap_contains b i cnt (\<not> v)) (\<lambda>c.
                      if \<not> c then ret (Inr i) else ret (Inl (i + 1)))
                  else ret (Inr BITMAP_ERROR)) start)
    (\<lambda>r. if r = BITMAP_ERROR then \<forall>i \<ge> unat start. \<not> run_at v (unat cnt) xs i
    else is_first_run v (unat cnt) xs (unat start) (unat r))"
  proof (rule returns_loop [where m = "\<lambda>i. Suc (unat last) - unat i" and
        I = "\<lambda>i. unat start \<le> unat i \<and> (\<forall>j. unat start \<le> j \<and> j < unat i \<longrightarrow> \<not> run_at v (unat cnt) xs j)"])
    fix i :: size_t
    assume I: "unat start \<le> unat i \<and> (\<forall>j. unat start \<le> j \<and> j < unat i \<longrightarrow> \<not> run_at v (unat cnt) xs j)"
    show "returns (if i \<le> last then
                    andthen (bitmap_contains b i cnt (\<not> v)) (\<lambda>c.
                      if \<not> c then ret (Inr i) else ret (Inl (i + 1)))
                  else ret (Inr BITMAP_ERROR))
      (\<lambda>x. case x of
          Inl i' \<Rightarrow> (unat start \<le> unat i' \<and> (\<forall>j. unat start \<le> j \<and> j < unat i' \<longrightarrow> \<not> run_at v (unat cnt) xs j)) \<and>
            Suc (unat last) - unat i' < Suc (unat last) - unat i
        | Inr r \<Rightarrow> if r = BITMAP_ERROR then \<forall>i \<ge> unat start. \<not> run_at v (unat cnt) xs i
            else is_first_run v (unat cnt) xs (unat start) (unat r))"
    proof (cases "i \<le> last")
      case True
      then have i: "unat i + unat cnt \<le> length xs" "unat (i + 1) = Suc (unat i)" "i \<noteq> BITMAP_ERROR"
          "unat i \<le> unat last"
        using last lmax [OF True] by (simp_all add: word_le_nat_alt unat_Suc_less BITMAP_ERROR_def)
      have "bitmap_contains b i cnt (\<not> v) = ret (\<not> run_at v (unat cnt) xs (unat i))"
        using i by (auto simp: bitmap_contains_holds [OF b] run_at_def)
      then show ?thesis
        using I i True by (auto simp: is_first_run_def less_Suc_eq)
    next
      case False
      then have "unat last < unat i" by (simp add: word_le_nat_alt)
      then have "\<not> run_at v (unat cnt) xs j" if "unat i \<le> j" for j
        using that last by (simp add: run_at_def)
      with I False show ?thesis
        by simp (meson linorder_not_less)
    qed
  qed auto
  with True start show ?thesis
    by (simp add: bitmap_scan_def Let_def word_le_nat_alt len last_def)
qed

lemma bitmap_scan_and_flip_holds:
  assumes b: "holds_bits b xs" and start: "unat start \<le> length xs" and cnt: "0 < cnt"
  shows "returns (bitmap_scan_and_flip b start cnt v) (\<lambda>(r, b').
    if r = BITMAP_ERROR then b' = b \<and> (\<forall>i \<ge> unat start. \<not> run_at v (unat cnt) xs i)
    else is_first_run v (unat cnt) xs (unat start) (unat r) \<and> bit_cnt b' = bit_cnt b \<and>
      holds_bits b' (set_range (unat r) (unat cnt) (\<not> v) xs))"
proof -
  obtain r where r: "bitmap_scan b start cnt v = ret r"
    "if r = BITMAP_ERROR then \<forall>i \<ge> unat start. \<not> run_at v (unat cnt) xs i
     else is_first_run v (unat cnt) xs (unat start) (unat r)"
    using bitmap_scan_holds [OF assms, of v] by (rule returnsE)
  show ?thesis
  proof (cases "r = BITMAP_ERROR")
    case True
    with r show ?thesis by (simp add: bitmap_scan_and_flip_def)
  next
    case False
    with r have "unat r + unat cnt \<le> length xs"
      by (simp add: is_first_run_def run_at_def)
    from bitmap_set_multiple_holds [OF b this, of "\<not> v"] obtain b' where
      "bitmap_set_multiple b r cnt (\<not> v) = ret b'"
      "holds_bits b' (set_range (unat r) (unat cnt) (\<not> v) xs)" "bit_cnt b' = bit_cnt b"
      by (auto elim: returnsE)
    with False r show ?thesis
      by (simp add: bitmap_scan_and_flip_def)
  qed
qed

section \<open>Creation\<close>

lemma set_range_all: "length xs = n \<Longrightarrow> set_range 0 n v xs = replicate n v"
  by (simp add: set_range_def)

lemma bitmap_create_in_buf_holds:
  assumes "bitmap_buf_size n \<le> block_size" and "unat n \<le> 32 * (length block - 2)"
  shows "returns (bitmap_create_in_buf n block block_size)
    (\<lambda>b. holds_bits b (replicate (unat n) False) \<and> bit_cnt b = n)"
proof -
  let ?b = "\<lparr>bit_cnt = n, bits = drop 2 block\<rparr>"
  have b: "holds_bits ?b (bm_abs ?b)" "length (bm_abs ?b) = unat n"
    using assms(2) by (simp_all add: holds_bits_def wf_bitmap_def bm_abs_def)
  show ?thesis
    using assms(1) bitmap_set_multiple_holds [OF b(1), of 0 n False] b(2)
    by (simp add: bitmap_create_in_buf_def bitmap_set_all_def bitmap_size_def wp set_range_all)
qed

text \<open>The number of bytes a bitmap takes, without wrap-around.\<close>

lemma unat_bitmap_buf_size:
  assumes "unat n \<le> 2 ^ 31"
  shows "unat (bitmap_buf_size n) = 8 + 4 * ((unat n + 31) div 32)"
proof -
  have e: "unat (elem_cnt n) = (unat n + 31) div 32"
    using assms unat_DIV_ROUND_UP [of ELEM_BITS n] by (simp add: elem_cnt_def ELEM_BITS_def)
  have le: "(unat n + 31) div 32 \<le> 2 ^ 27"
    using assms by (simp add: div_le_mono [of "unat n + 31" "2 ^ 32" 32, simplified])
  have "unat (4 * elem_cnt n) = 4 * ((unat n + 31) div 32)"
    using le e by (subst unat_mult_lem [THEN iffD1]) simp_all
  with le show ?thesis
    unfolding bitmap_buf_size_def byte_cnt_def by (subst unat_add_le) simp_all
qed

section \<open>Properties\<close>

text \<open>
  C20: Setting a range of bits refines the update of a list of booleans, and never leaves the
  bitmap: inside the bitmap exactly the \<^verbatim>\<open>cnt\<close> bits from \<^verbatim>\<open>start\<close> on get the value, and
  every call whose range ends outside fails an assertion, also when \<^verbatim>\<open>start + cnt\<close> wraps
  around.
\<close>

theorem bitmap_set_multiple_exact:
  assumes "holds_bits b xs"
  shows "if unat start + unat cnt \<le> length xs
    then returns (bitmap_set_multiple b start cnt v)
      (\<lambda>b'. holds_bits b' (set_range (unat start) (unat cnt) v xs) \<and> bit_cnt b' = bit_cnt b)
    else bitmap_set_multiple b start cnt v = stop Assert_fail"
  using bitmap_set_multiple_holds [OF assms] bitmap_set_multiple_out [OF assms] by simp

theorem bitmap_set_multiple_exact_witness:
  "bitmap_set_multiple \<lparr>bit_cnt = 2, bits = [3]\<rparr> 1 0xffffffff False = stop Assert_fail"
proof -
  have "[0..<2] = [0, 1 :: nat]" by (simp add: upt_rec)
  then have "holds_bits \<lparr>bit_cnt = 2, bits = [3]\<rparr> [True, True]"
    by (simp add: holds_bits_def wf_bitmap_def bm_abs_def bm_bit_def)
  from bitmap_set_multiple_exact [OF this, of 1 "0xffffffff" False] show ?thesis by simp
qed

text \<open>
  C21: \<^verbatim>\<open>bitmap_scan_and_flip\<close> finds the first group. For a positive count it returns the lowest
  index at or after \<^verbatim>\<open>start\<close> where \<^verbatim>\<open>cnt\<close> bits in a row have the value, and flips exactly
  these; it returns \<^verbatim>\<open>BITMAP_ERROR\<close>, with the bitmap as before, exactly if there is no such
  group.
\<close>

theorem bitmap_scan_and_flip_first:
  assumes "holds_bits b xs" and "unat start \<le> length xs" and "0 < cnt"
  shows "returns (bitmap_scan_and_flip b start cnt v) (\<lambda>(r, b').
    if \<exists>i \<ge> unat start. run_at v (unat cnt) xs i
    then r \<noteq> BITMAP_ERROR \<and> is_first_run v (unat cnt) xs (unat start) (unat r) \<and>
      holds_bits b' (set_range (unat r) (unat cnt) (\<not> v) xs)
    else r = BITMAP_ERROR \<and> b' = b)"
proof -
  obtain r b' where r: "bitmap_scan_and_flip b start cnt v = ret (r, b')"
    "if r = BITMAP_ERROR then b' = b \<and> (\<forall>i \<ge> unat start. \<not> run_at v (unat cnt) xs i)
     else is_first_run v (unat cnt) xs (unat start) (unat r) \<and> bit_cnt b' = bit_cnt b \<and>
      holds_bits b' (set_range (unat r) (unat cnt) (\<not> v) xs)"
    using bitmap_scan_and_flip_holds [OF assms, of v] by (auto elim!: returnsE)
  show ?thesis
  proof (cases "r = BITMAP_ERROR")
    case True
    with r show ?thesis by simp
  next
    case False
    with r(2) have "\<exists>i \<ge> unat start. run_at v (unat cnt) xs i" by (auto simp: is_first_run_def)
    with False r show ?thesis by simp
  qed
qed

theorem bitmap_scan_and_flip_first_witness:
  "returns (bitmap_scan_and_flip \<lparr>bit_cnt = 2, bits = [1]\<rparr> 0 1 False) (\<lambda>(r, b').
    is_first_run False 1 [True, False] 0 (unat r) \<and> holds_bits b' (set_range (unat r) 1 True [True, False]))"
proof -
  have "[0..<2] = [0, 1 :: nat]" by (simp add: upt_rec)
  then have b: "holds_bits \<lparr>bit_cnt = 2, bits = [1]\<rparr> [True, False]"
    by (simp add: holds_bits_def wf_bitmap_def bm_abs_def bm_bit_def)
  have "\<exists>i \<ge> unat (0 :: size_t). run_at False (unat (1 :: size_t)) [True, False] i"
    by (rule exI [of _ 1]) (simp add: run_at_def)
  from bitmap_scan_and_flip_first [OF b, of 0 1 False, unfolded if_P [OF this]] show ?thesis
    by (auto elim!: returnsE)
qed

text \<open>
  For a count of zero \<^verbatim>\<open>bitmap_scan_and_flip\<close> returns \<^verbatim>\<open>start\<close> and changes nothing.
\<close>

lemma bitmap_scan_and_flip_zero:
  assumes "start \<le> bit_cnt b"
  shows "returns (bitmap_scan_and_flip b start 0 v) (\<lambda>(r, b'). r = start \<and> b' = b)"
  using assms
  by (simp add: bitmap_scan_and_flip_def bitmap_scan_def loop.simps bitmap_contains_def for_find_def
      bitmap_set_multiple_def for_range_def wp BITMAP_ERROR_def)

text \<open>
  C22: The queries over a range answer for exactly the bits of the range: \<^verbatim>\<open>bitmap_count\<close>
  counts the bits equal to the value, and \<^verbatim>\<open>bitmap_contains\<close>, \<^verbatim>\<open>bitmap_any\<close>,
  \<^verbatim>\<open>bitmap_none\<close> and \<^verbatim>\<open>bitmap_all\<close> quantify over them.
\<close>

theorem bitmap_queries_exact:
  assumes "holds_bits b xs" and "unat start + unat cnt \<le> length xs"
  shows "returns (bitmap_count b start cnt v) (\<lambda>n. unat n = count_list (take (unat cnt) (drop (unat start) xs)) v) \<and>
    bitmap_contains b start cnt v = ret (v \<in> set (take (unat cnt) (drop (unat start) xs))) \<and>
    bitmap_any b start cnt = ret (True \<in> set (take (unat cnt) (drop (unat start) xs))) \<and>
    bitmap_none b start cnt = ret (True \<notin> set (take (unat cnt) (drop (unat start) xs))) \<and>
    bitmap_all b start cnt = ret (False \<notin> set (take (unat cnt) (drop (unat start) xs)))"
proof -
  have set: "w \<in> set (take (unat cnt) (drop (unat start) xs)) \<longleftrightarrow> (\<exists>j < unat cnt. xs ! (unat start + j) = w)" for w
    using assms(2) by (auto simp: in_set_conv_nth)
  show ?thesis
    using bitmap_count_holds [OF assms] bitmap_contains_holds [OF assms] unfolding set
    by (simp add: bitmap_any_def bitmap_none_def bitmap_all_def)
qed

theorem bitmap_queries_exact_witness:
  "bitmap_contains \<lparr>bit_cnt = 2, bits = [1]\<rparr> 1 1 True = ret False \<and> bitmap_all \<lparr>bit_cnt = 2, bits = [1]\<rparr> 0 1 = ret True"
proof -
  have "[0..<2] = [0, 1 :: nat]" by (simp add: upt_rec)
  then have b: "holds_bits \<lparr>bit_cnt = 2, bits = [1]\<rparr> [True, False]"
    by (simp add: holds_bits_def wf_bitmap_def bm_abs_def bm_bit_def)
  show ?thesis
    using bitmap_queries_exact [OF b, of 1 1 True] bitmap_queries_exact [OF b, of 0 1 False] by simp
qed

end
