(* ===== verification/Kernel.thy ===== *)
theory Kernel
  imports Address
begin

text \<open>
  The part of the kernel that the synchronization primitives use: the interrupt level and the
  thread structures. The operations on threads are in the theory \<open>Thread\<close>, the handling of
  interrupts in \<open>Interrupt\<close>.
\<close>

section \<open>Interrupt state (\<^verbatim>\<open>threads/interrupt.c\<close>) and threads (\<^verbatim>\<open>threads/thread.h\<close>)\<close>

datatype intr_level = INTR_OFF | INTR_ON

datatype thread_status = THREAD_RUNNING | THREAD_READY | THREAD_BLOCKED | THREAD_DYING

record thread =
  tid :: u32
  status :: thread_status
  name :: string
  stack :: addr
  priority :: int
  magic :: u32

record semaphore =
  sema_value :: u32
  waiters :: "addr list"

record lock =
  holder :: addr
  sema :: semaphore

record kernel =
  thr :: "addr \<Rightarrow> thread"
  running :: addr
  ready_list :: "addr list"
  all_list :: "addr list"
  idle_thread :: addr
  initial_thread :: addr
  level :: intr_level
  in_external_intr :: bool
  yield_on_return :: bool
  thread_ticks :: u32
  idle_ticks :: u64
  kernel_ticks :: u64
  next_tid :: u32
  tid_lock :: lock

definition intr_get_level :: "kernel \<Rightarrow> intr_level" where
  "intr_get_level k = level k"

definition intr_context :: "kernel \<Rightarrow> bool" where
  "intr_context k = in_external_intr k"

definition intr_enable :: "kernel \<Rightarrow> (intr_level \<times> kernel) res" where
  "intr_enable k = (let old_level = intr_get_level k in
     ASSERT (\<not> intr_context k) (ret (old_level, k\<lparr>level := INTR_ON\<rparr>)))"

definition intr_disable :: "kernel \<Rightarrow> (intr_level \<times> kernel) res" where
  "intr_disable k = (let old_level = intr_get_level k in ret (old_level, k\<lparr>level := INTR_OFF\<rparr>))"

definition intr_set_level :: "intr_level \<Rightarrow> kernel \<Rightarrow> (intr_level \<times> kernel) res" where
  "intr_set_level l k = (if l = INTR_ON then intr_enable k else intr_disable k)"

definition intr_yield_on_return :: "kernel \<Rightarrow> kernel res" where
  "intr_yield_on_return k = ASSERT (intr_context k) (ret (k\<lparr>yield_on_return := True\<rparr>))"

definition THREAD_MAGIC :: u32 where
  "THREAD_MAGIC = 0xcd6abf4b"

definition set_status :: "addr \<Rightarrow> thread_status \<Rightarrow> kernel \<Rightarrow> kernel" where
  "set_status t st k = k\<lparr>thr := (thr k)(t := (thr k t)\<lparr>status := st\<rparr>)\<rparr>"

definition is_thread :: "kernel \<Rightarrow> addr \<Rightarrow> bool" where
  "is_thread k t \<longleftrightarrow> t \<noteq> NULL \<and> magic (thr k t) = THREAD_MAGIC"

definition running_thread :: "kernel \<Rightarrow> addr" where
  "running_thread k = running k"

definition thread_current :: "kernel \<Rightarrow> addr res" where
  "thread_current k = (let t = running_thread k in
     ASSERT (is_thread k t) (ASSERT (status (thr k t) = THREAD_RUNNING) (ret t)))"

definition thread_unblock :: "kernel \<Rightarrow> addr \<Rightarrow> kernel res" where
  "thread_unblock k t = ASSERT (is_thread k t)
     (andthen (intr_disable k) (\<lambda>(old_level, k).
      ASSERT (status (thr k t) = THREAD_BLOCKED)
        (let k = k\<lparr>ready_list := ready_list k @ [t]\<rparr>;
             k = set_status t THREAD_READY k
         in andthen (intr_set_level old_level k) (\<lambda>(_, k). ret k))))"

end
