(* ===== verification/Synch.thy ===== *)
theory Synch
  imports Kernel
begin

text \<open>
  Semaphores and locks (\<^verbatim>\<open>threads/synch.c\<close>) as a thread executes them up to the point where it has to
  sleep, and their behaviour when they are free. Interleaved executions, and condition variables,
  are in the theory \<open>Scheduler\<close>.
\<close>

definition sema_init :: "u32 \<Rightarrow> semaphore" where
  "sema_init value = \<lparr>sema_value = value, waiters = []\<rparr>"

text \<open>
  The body of \<^verbatim>\<open>while (sema->value == 0)\<close>: the running thread queues itself and blocks
  (\<^verbatim>\<open>thread_block\<close> up to its call of \<^verbatim>\<open>schedule\<close>).
\<close>

definition thread_block_begin :: "kernel \<Rightarrow> kernel res" where
  "thread_block_begin k = ASSERT (\<not> intr_context k) (ASSERT (intr_get_level k = INTR_OFF)
     (andthen (thread_current k) (\<lambda>cur. ret (set_status cur THREAD_BLOCKED k))))"

datatype 'a wait = Done 'a | Asleep 'a

definition sema_down_pass :: "kernel \<Rightarrow> semaphore \<Rightarrow> (kernel \<times> semaphore) wait res" where
  "sema_down_pass k s =
     (if sema_value s = 0 then
        andthen (thread_current k) (\<lambda>cur.
        andthen (thread_block_begin k) (\<lambda>k.
          ret (Asleep (k, s\<lparr>waiters := waiters s @ [cur]\<rparr>))))
      else ret (Done (k, s\<lparr>sema_value := sema_value s - 1\<rparr>)))"

definition sema_down :: "kernel \<Rightarrow> semaphore \<Rightarrow> (kernel \<times> semaphore) wait res" where
  "sema_down k s = ASSERT (\<not> intr_context k)
     (andthen (intr_disable k) (\<lambda>(old_level, k).
      andthen (sema_down_pass k s) (\<lambda>r. case r of
          Asleep ks \<Rightarrow> ret (Asleep ks)
        | Done (k, s) \<Rightarrow> andthen (intr_set_level old_level k) (\<lambda>(_, k). ret (Done (k, s))))))"

definition sema_try_down :: "kernel \<Rightarrow> semaphore \<Rightarrow> (bool \<times> kernel \<times> semaphore) res" where
  "sema_try_down k s =
     andthen (intr_disable k) (\<lambda>(old_level, k).
      let (success, s) = (if 0 < sema_value s then (True, s\<lparr>sema_value := sema_value s - 1\<rparr>) else (False, s))
      in andthen (intr_set_level old_level k) (\<lambda>(_, k). ret (success, k, s)))"

definition sema_up :: "kernel \<Rightarrow> semaphore \<Rightarrow> (kernel \<times> semaphore) res" where
  "sema_up k s =
     andthen (intr_disable k) (\<lambda>(old_level, k).
     andthen (case waiters s of
          [] \<Rightarrow> ret (k, s)
        | t # ts \<Rightarrow> andthen (thread_unblock k t) (\<lambda>k. ret (k, s\<lparr>waiters := ts\<rparr>))) (\<lambda>(k, s).
      let s = s\<lparr>sema_value := sema_value s + 1\<rparr>
      in andthen (intr_set_level old_level k) (\<lambda>(_, k). ret (k, s))))"

definition lock_init :: lock where
  "lock_init = \<lparr>holder = NULL, sema = sema_init 1\<rparr>"

definition lock_held_by_current_thread :: "kernel \<Rightarrow> lock \<Rightarrow> bool res" where
  "lock_held_by_current_thread k l = andthen (thread_current k) (\<lambda>cur. ret (holder l = cur))"

definition lock_acquire :: "kernel \<Rightarrow> lock \<Rightarrow> (kernel \<times> lock) wait res" where
  "lock_acquire k l = ASSERT (\<not> intr_context k)
     (andthen (lock_held_by_current_thread k l) (\<lambda>held. ASSERT (\<not> held)
       (andthen (sema_down k (sema l)) (\<lambda>r. case r of
            Asleep (k, s) \<Rightarrow> ret (Asleep (k, l\<lparr>sema := s\<rparr>))
          | Done (k, s) \<Rightarrow> andthen (thread_current k) (\<lambda>cur. ret (Done (k, l\<lparr>sema := s, holder := cur\<rparr>)))))))"

definition lock_try_acquire :: "kernel \<Rightarrow> lock \<Rightarrow> (bool \<times> kernel \<times> lock) res" where
  "lock_try_acquire k l =
     andthen (lock_held_by_current_thread k l) (\<lambda>held. ASSERT (\<not> held)
       (andthen (sema_try_down k (sema l)) (\<lambda>(success, k, s).
          if success then andthen (thread_current k) (\<lambda>cur. ret (True, k, l\<lparr>sema := s, holder := cur\<rparr>))
          else ret (False, k, l\<lparr>sema := s\<rparr>))))"

definition lock_release :: "kernel \<Rightarrow> lock \<Rightarrow> (kernel \<times> lock) res" where
  "lock_release k l =
     andthen (lock_held_by_current_thread k l) (\<lambda>held. ASSERT held
       (andthen (sema_up k (sema (l\<lparr>holder := NULL\<rparr>))) (\<lambda>(k, s). ret (k, l\<lparr>holder := NULL, sema := s\<rparr>))))"

section \<open>Uncontended locks\<close>

text \<open>
  \<open>runs k\<close>: kernel code of a proper thread is executing, outside any interrupt handler; this
  is where locks may be used.
\<close>

definition runs :: "kernel \<Rightarrow> bool" where
  "runs k \<longleftrightarrow> \<not> intr_context k \<and> is_thread k (running k) \<and> status (thr k (running k)) = THREAD_RUNNING"

definition lock_held :: "addr \<Rightarrow> lock" where
  "lock_held t = \<lparr>holder = t, sema = sema_init 0\<rparr>"

lemma level_cases [simp]: "l \<noteq> INTR_ON \<longleftrightarrow> l = INTR_OFF"
  by (cases l) simp_all

lemma thread_current_runs [simp]: "runs k \<Longrightarrow> thread_current k = ret (running k)"
  by (simp add: runs_def thread_current_def running_thread_def)

lemma runs_level [simp]: "runs (k\<lparr>level := l\<rparr>) = runs k"
  by (simp add: runs_def intr_context_def is_thread_def)

lemma running_not_NULL: "runs k \<Longrightarrow> running k \<noteq> NULL"
  by (simp add: runs_def is_thread_def)

lemma restore_level [simp]:
  assumes "\<not> intr_context k"
  shows "intr_set_level (level k) (k\<lparr>level := l\<rparr>) = ret (l, k)"
proof (cases "level k")
  case INTR_OFF
  then have "k\<lparr>level := INTR_OFF\<rparr> = k" by (metis kernel.surjective kernel.update_convs(7))
  then show ?thesis using INTR_OFF by (simp add: intr_set_level_def intr_disable_def intr_get_level_def)
next
  case INTR_ON
  then have "k\<lparr>level := INTR_ON\<rparr> = k" by (metis kernel.surjective kernel.update_convs(7))
  then show ?thesis using INTR_ON assms
    by (simp add: intr_set_level_def intr_enable_def intr_get_level_def intr_context_def)
qed

lemma sema_down_free:
  assumes "\<not> intr_context k" and "0 < sema_value s"
  shows "sema_down k s = ret (Done (k, s\<lparr>sema_value := sema_value s - 1\<rparr>))"
  using assms by (auto simp: sema_down_def intr_disable_def intr_get_level_def sema_down_pass_def)

lemma sema_up_free:
  assumes "\<not> intr_context k" and "waiters s = []"
  shows "sema_up k s = ret (k, s\<lparr>sema_value := sema_value s + 1\<rparr>)"
  using assms by (simp add: sema_up_def intr_disable_def intr_get_level_def Let_def)

lemma lock_acquire_free:
  assumes "runs k"
  shows "lock_acquire k lock_init = ret (Done (k, lock_held (running k)))"
proof -
  have "\<not> intr_context k" "running k \<noteq> NULL"
    using assms running_not_NULL by (auto simp: runs_def)
  then show ?thesis
    using assms
    by (simp add: lock_acquire_def lock_held_by_current_thread_def lock_init_def sema_down_free
        sema_init_def lock_held_def)
qed

lemma lock_release_held:
  assumes "runs k"
  shows "lock_release k (lock_held (running k)) = ret (k, lock_init)"
proof -
  have "\<not> intr_context k"
    using assms by (auto simp: runs_def)
  then show ?thesis
    using assms
    by (simp add: lock_release_def lock_held_by_current_thread_def lock_init_def sema_up_free
        sema_init_def lock_held_def)
qed

end
