(* ===== verification/Palloc.thy ===== *)
theory Palloc
  imports Bitmap Memory Synch "HOL-Library.Signed_Division"
begin

text \<open>
  The page allocator, \<^verbatim>\<open>threads/palloc.c\<close>, over the bitmap, the locks and the byte memory.

  A pool holds its lock, its bitmap of used pages, the address of its first page and the cursor
  of next fit. The bitmap is kept as a value of its own: its storage is the pages below
  \<open>base\<close> (\<open>init_pool\<close>), which no page of the pool overlaps. The three searches all keep the
  contract \<open>contiguous_allocator\<close>: a run of free pages is found whenever there is one, and
  exactly this run becomes used. \<open>palloc_get_multiple\<close> is proved once over the contract and
  then instantiated for each mode.
\<close>

section \<open>Pools\<close>

record pool =
  pool_lock :: lock
  used_map :: bitmap
  base :: addr
  next_fit_start_idx :: size_t

datatype palloc_mode = PAL_FIRST_FIT | PAL_NEXT_FIT | PAL_BEST_FIT | PAL_BUDDY

definition PAL_ASSERT :: u32 where "PAL_ASSERT = 1"
definition PAL_ZERO :: u32 where "PAL_ZERO = 2"
definition PAL_USER :: u32 where "PAL_USER = 4"

lemmas pal_flag_defs = PAL_ASSERT_def PAL_ZERO_def PAL_USER_def

text \<open>The globals of the file, and the memory the pages are in.\<close>

record palloc =
  kernel_pool :: pool
  user_pool :: pool
  current_palloc_mode :: palloc_mode
  memory :: mem

definition palloc_set_mode :: "palloc_mode \<Rightarrow> palloc \<Rightarrow> palloc" where
  "palloc_set_mode mode st = st\<lparr>current_palloc_mode := mode\<rparr>"

section \<open>Searches\<close>

definition find_first_fit :: "pool \<Rightarrow> size_t \<Rightarrow> (size_t \<times> pool) res" where
  "find_first_fit pool page_cnt =
     andthen (bitmap_scan_and_flip (used_map pool) 0 page_cnt False) (\<lambda>(page_idx, bm).
       ret (page_idx, pool\<lparr>used_map := bm\<rparr>))"

definition find_next_fit :: "pool \<Rightarrow> size_t \<Rightarrow> (size_t \<times> pool) res" where
  "find_next_fit pool page_cnt =
     (let bitmap_len = bitmap_size (used_map pool); start_idx = next_fit_start_idx pool in
      andthen (bitmap_scan (used_map pool) start_idx page_cnt False) (\<lambda>page_idx.
      andthen (if page_idx = BITMAP_ERROR then bitmap_scan (used_map pool) 0 page_cnt False
               else ret page_idx) (\<lambda>page_idx.
      if page_idx \<noteq> BITMAP_ERROR then
        andthen (bitmap_set_multiple (used_map pool) page_idx page_cnt True) (\<lambda>bm.
        let next_start = page_idx + page_cnt
        in ret (page_idx, pool\<lparr>used_map := bm,
             next_fit_start_idx := if bitmap_len \<le> next_start then 0 else next_start\<rparr>))
      else ret (page_idx, pool))))"

text \<open>The inner loop of best fit counts the free pages from \<open>free_start\<close> on.\<close>

definition count_free :: "bitmap \<Rightarrow> size_t \<Rightarrow> size_t res" where
  "count_free bm free_start =
     loop (\<lambda>(current_idx, free_cnt).
       if current_idx < bitmap_size bm then
         andthen (bitmap_test bm current_idx) (\<lambda>used.
           if \<not> used then ret (Inl (current_idx + 1, free_cnt + 1)) else ret (Inr free_cnt))
       else ret (Inr free_cnt)) (free_start, 0)"

definition best_fit_scan :: "bitmap \<Rightarrow> size_t \<Rightarrow> size_t res" where
  "best_fit_scan bm page_cnt =
     loop (\<lambda>(idx, best_idx, best_size).
       if idx < bitmap_size bm then
         andthen (bitmap_scan bm idx 1 False) (\<lambda>free_start.
         if free_start = BITMAP_ERROR then ret (Inr best_idx)
         else andthen (count_free bm free_start) (\<lambda>free_cnt.
           if page_cnt \<le> free_cnt \<and> free_cnt < best_size then
             if free_cnt = page_cnt then ret (Inr free_start)
             else ret (Inl (free_start + free_cnt, free_start, free_cnt))
           else ret (Inl (free_start + free_cnt, best_idx, best_size))))
       else ret (Inr best_idx)) (0, BITMAP_ERROR, SIZE_MAX)"

definition find_best_fit :: "pool \<Rightarrow> size_t \<Rightarrow> (size_t \<times> pool) res" where
  "find_best_fit pool page_cnt =
     andthen (best_fit_scan (used_map pool) page_cnt) (\<lambda>best_idx.
       if best_idx \<noteq> BITMAP_ERROR then
         andthen (bitmap_set_multiple (used_map pool) best_idx page_cnt True) (\<lambda>bm.
           ret (best_idx, pool\<lparr>used_map := bm\<rparr>))
       else ret (best_idx, pool))"

section \<open>Getting and freeing pages\<close>

text \<open>The search that \<^verbatim>\<open>palloc_get_multiple\<close> selects by the mode.\<close>

definition find_pages :: "palloc_mode \<Rightarrow> pool \<Rightarrow> size_t \<Rightarrow> (size_t \<times> pool) res" where
  "find_pages mode = (case mode of
       PAL_NEXT_FIT \<Rightarrow> find_next_fit
     | PAL_BEST_FIT \<Rightarrow> find_best_fit
     | PAL_BUDDY \<Rightarrow> find_first_fit
     | PAL_FIRST_FIT \<Rightarrow> find_first_fit)"

definition get_pool :: "bool \<Rightarrow> palloc \<Rightarrow> pool" where
  "get_pool user st = (if user then user_pool st else kernel_pool st)"

definition put_pool :: "bool \<Rightarrow> pool \<Rightarrow> palloc \<Rightarrow> palloc" where
  "put_pool user p st = (if user then st\<lparr>user_pool := p\<rparr> else st\<lparr>kernel_pool := p\<rparr>)"

text \<open>
  The critical section of a pool: taking the lock, running \<open>f\<close> and releasing the lock. When
  another thread holds the lock the caller sleeps.
\<close>

definition with_pool_lock :: "kernel \<Rightarrow> pool \<Rightarrow> (pool \<Rightarrow> ('r \<times> pool) res) \<Rightarrow> ('r \<times> kernel \<times> pool) res" where
  "with_pool_lock k p f =
     andthen (lock_acquire k (pool_lock p)) (\<lambda>w. case w of
        Asleep _ \<Rightarrow> stop Sleeps
      | Done (k, l) \<Rightarrow>
          andthen (f (p\<lparr>pool_lock := l\<rparr>)) (\<lambda>(r, p).
          andthen (lock_release k (pool_lock p)) (\<lambda>(k, l). ret (r, k, p\<lparr>pool_lock := l\<rparr>))))"

definition palloc_get_multiple :: "kernel \<Rightarrow> palloc \<Rightarrow> u32 \<Rightarrow> size_t \<Rightarrow> (addr \<times> kernel \<times> palloc) res" where
  "palloc_get_multiple k st flags page_cnt =
     (let user = (flags AND PAL_USER \<noteq> 0); pool = get_pool user st in
      if page_cnt = 0 then ret (NULL, k, st)
      else andthen (with_pool_lock k pool (\<lambda>pool. find_pages (current_palloc_mode st) pool page_cnt))
        (\<lambda>(page_idx, k, pool).
         let st = put_pool user pool st;
             pages = (if page_idx \<noteq> BITMAP_ERROR then base pool + PGSIZE * page_idx else NULL)
         in if pages \<noteq> NULL then
              if flags AND PAL_ZERO \<noteq> 0 then
                andthen (memset (memory st) pages 0 (PGSIZE * page_cnt)) (\<lambda>(_, m).
                  ret (pages, k, st\<lparr>memory := m\<rparr>))
              else ret (pages, k, st)
            else if flags AND PAL_ASSERT \<noteq> 0 then stop Kernel_panic
            else ret (pages, k, st)))"

definition palloc_get_page :: "kernel \<Rightarrow> palloc \<Rightarrow> u32 \<Rightarrow> (addr \<times> kernel \<times> palloc) res" where
  "palloc_get_page k st flags = palloc_get_multiple k st flags 1"

definition page_from_pool :: "pool \<Rightarrow> addr \<Rightarrow> bool" where
  "page_from_pool pool page =
     (let page_no = pg_no page; start_page = pg_no (base pool);
          end_page = start_page + bitmap_size (used_map pool)
      in start_page \<le> page_no \<and> page_no < end_page)"

definition palloc_free_multiple :: "kernel \<Rightarrow> palloc \<Rightarrow> addr \<Rightarrow> size_t \<Rightarrow> (kernel \<times> palloc) res" where
  "palloc_free_multiple k st pages page_cnt =
     ASSERT (pg_ofs pages = 0)
       (if pages = NULL \<or> page_cnt = 0 then ret (k, st)
        else
          andthen (if page_from_pool (kernel_pool st) pages then ret False
                   else if page_from_pool (user_pool st) pages then ret True
                   else stop Unreachable) (\<lambda>user.
          let pool = get_pool user st; page_idx = pg_no pages - pg_no (base pool) in
          andthen (memset (memory st) pages 0xcc (PGSIZE * page_cnt)) (\<lambda>(_, m).
          let st = st\<lparr>memory := m\<rparr> in
          andthen (with_pool_lock k pool (\<lambda>pool.
              andthen (bitmap_all (used_map pool) page_idx page_cnt) (\<lambda>all. ASSERT all
                (andthen (bitmap_set_multiple (used_map pool) page_idx page_cnt False) (\<lambda>bm.
                   ret ((), pool\<lparr>used_map := bm\<rparr>))))))
            (\<lambda>(_, k, pool). ret (k, put_pool user pool st)))))"

definition palloc_free_page :: "kernel \<Rightarrow> palloc \<Rightarrow> addr \<Rightarrow> (kernel \<times> palloc) res" where
  "palloc_free_page k st page = palloc_free_multiple k st page 1"

text \<open>The loop of \<open>buddy_system_free\<close> guesses the size of the block from the bitmap.\<close>

definition count_used :: "bitmap \<Rightarrow> size_t \<Rightarrow> size_t res" where
  "count_used bm page_idx =
     loop (\<lambda>page_cnt.
       if page_idx + page_cnt < bitmap_size bm then
         andthen (bitmap_test bm (page_idx + page_cnt)) (\<lambda>used.
           if used then ret (Inl (page_cnt + 1)) else ret (Inr page_cnt))
       else ret (Inr page_cnt)) 1"

definition buddy_system_free :: "kernel \<Rightarrow> pool \<Rightarrow> addr \<Rightarrow> (kernel \<times> pool) res" where
  "buddy_system_free k pool pages =
     (if pages = NULL then ret (k, pool)
      else let page_idx = pg_no pages - pg_no (base pool) in
        andthen (with_pool_lock k pool (\<lambda>pool.
            andthen (count_used (used_map pool) page_idx) (\<lambda>page_cnt.
            andthen (bitmap_all (used_map pool) page_idx page_cnt) (\<lambda>all. ASSERT all
              (andthen (bitmap_set_multiple (used_map pool) page_idx page_cnt False) (\<lambda>bm.
                 ret ((), pool\<lparr>used_map := bm\<rparr>)))))))
          (\<lambda>(_, k, pool). ret (k, pool)))"

definition palloc_get_page_index :: "palloc \<Rightarrow> addr \<Rightarrow> size_t" where
  "palloc_get_page_index st page =
     (if page_from_pool (kernel_pool st) page then pg_no page - pg_no (base (kernel_pool st))
      else if page_from_pool (user_pool st) page then pg_no page - pg_no (base (user_pool st))
      else 0)"

section \<open>Start-up\<close>

text \<open>The 32-bit words of a block of memory, little-endian.\<close>

definition load32 :: "mem \<Rightarrow> addr \<Rightarrow> u32" where
  "load32 m a = ucast (m a) OR push_bit 8 (ucast (m (a + 1))) OR
     push_bit 16 (ucast (m (a + 2))) OR push_bit 24 (ucast (m (a + 3)))"

definition block_words :: "mem \<Rightarrow> addr \<Rightarrow> size_t \<Rightarrow> u32 list" where
  "block_words m a n = map (\<lambda>i. load32 m (a + 4 * of_nat i)) [0..<unat n div 4]"

definition init_pool :: "mem \<Rightarrow> addr \<Rightarrow> size_t \<Rightarrow> pool res" where
  "init_pool m start page_cnt =
     (let bm_pages = DIV_ROUND_UP (bitmap_buf_size page_cnt) PGSIZE in
      if page_cnt < bm_pages then stop Kernel_panic
      else let page_cnt = page_cnt - bm_pages in
        andthen (bitmap_create_in_buf page_cnt (block_words m start (bm_pages * PGSIZE)) (bm_pages * PGSIZE))
          (\<lambda>bm. ret \<lparr>pool_lock = lock_init, used_map = bm, base = start + bm_pages * PGSIZE,
             next_fit_start_idx = 0\<rparr>))"

text \<open>
  The difference of the two pointers is a signed number, and so is its division by
  \<open>PGSIZE\<close>.
\<close>

definition palloc_init :: "u32 \<Rightarrow> palloc \<Rightarrow> size_t \<Rightarrow> palloc res" where
  "palloc_init init_ram_pages st user_page_limit =
     andthen (ptov (1024 * 1024)) (\<lambda>free_start.
     andthen (ptov (init_ram_pages * PGSIZE)) (\<lambda>free_end.
     let free_pages = word_of_int (sint (free_end - free_start) sdiv 4096) :: size_t;
         user_pages = free_pages div 2;
         user_pages = (if user_page_limit < user_pages then user_page_limit else user_pages);
         kernel_pages = free_pages - user_pages
     in andthen (init_pool (memory st) free_start kernel_pages) (\<lambda>kp.
        andthen (init_pool (memory st) (free_start + kernel_pages * PGSIZE) user_pages) (\<lambda>up.
          ret (st\<lparr>kernel_pool := kp, user_pool := up\<rparr>)))))"

section \<open>The pool invariant\<close>

definition wf_pool :: "pool \<Rightarrow> bool list \<Rightarrow> bool" where
  "wf_pool p xs \<longleftrightarrow> holds_bits (used_map p) xs \<and> unat (next_fit_start_idx p) \<le> length xs \<and>
     pg_ofs (base p) = 0 \<and> base p \<noteq> NULL \<and> unat (base p) + 4096 * length xs \<le> 4294967296"

lemma wf_pool_holds: "wf_pool p xs \<Longrightarrow> holds_bits (used_map p) xs"
  and wf_pool_cursor: "wf_pool p xs \<Longrightarrow> unat (next_fit_start_idx p) \<le> length xs"
  and wf_pool_room: "wf_pool p xs \<Longrightarrow> unat (base p) + 4096 * length xs \<le> 4294967296"
  and wf_pool_base: "wf_pool p xs \<Longrightarrow> base p \<noteq> NULL"
  and wf_pool_aligned: "wf_pool p xs \<Longrightarrow> pg_ofs (base p) = 0"
  by (simp_all add: wf_pool_def)

lemma wf_pool_length: "wf_pool p xs \<Longrightarrow> length xs \<le> 1048576"
  using wf_pool_room [of p xs] by simp

lemma wf_pool_size: "wf_pool p xs \<Longrightarrow> unat (bit_cnt (used_map p)) = length xs"
  using holds_bits_length [OF wf_pool_holds] by simp

lemma wf_pool_lock [simp]: "wf_pool (p\<lparr>pool_lock := l\<rparr>) xs = wf_pool p xs"
  by (simp add: wf_pool_def)

text \<open>
  What every search promises. A run of free pages is found whenever there is one; the run, and
  nothing else, becomes used; lock and base stay.
\<close>

definition fit_post :: "pool \<Rightarrow> bool list \<Rightarrow> size_t \<Rightarrow> size_t \<times> pool \<Rightarrow> bool" where
  "fit_post p xs cnt = (\<lambda>(r, p').
     if r = BITMAP_ERROR then p' = p \<and> (\<forall>i. \<not> run_at False (unat cnt) xs i)
     else run_at False (unat cnt) xs (unat r) \<and> wf_pool p' (set_range (unat r) (unat cnt) True xs) \<and>
       pool_lock p' = pool_lock p \<and> base p' = base p)"

locale contiguous_allocator =
  fixes find :: "pool \<Rightarrow> size_t \<Rightarrow> (size_t \<times> pool) res"
  assumes find_fit: "wf_pool p xs \<Longrightarrow> 0 < cnt \<Longrightarrow> returns (find p cnt) (fit_post p xs cnt)"
begin

lemma find_locked:
  assumes "runs k" and "pool_lock p = lock_init" and "wf_pool p xs" and "0 < cnt"
  shows "returns (with_pool_lock k p (\<lambda>p. find p cnt))
    (\<lambda>(r, k', p'). k' = k \<and> pool_lock p' = lock_init \<and> fit_post p xs cnt (r, p'))"
proof -
  let ?p = "p\<lparr>pool_lock := lock_held (running k)\<rparr>"
  obtain r q where q: "find ?p cnt = ret (r, q)" and post: "fit_post ?p xs cnt (r, q)"
    using find_fit [of ?p xs cnt] assms(3,4) by (auto elim!: returnsE)
  have l: "pool_lock q = lock_held (running k)"
    using post by (auto simp: fit_post_def split: if_splits)
  have "p\<lparr>pool_lock := lock_init\<rparr> = p"
    using assms(2) by simp
  with post assms(2) have "fit_post p xs cnt (r, q\<lparr>pool_lock := lock_init\<rparr>)"
    by (auto simp: fit_post_def split: if_splits)
  then show ?thesis
    using assms(1,2) q l by (simp add: with_pool_lock_def lock_acquire_free lock_release_held wp)
qed

end

section \<open>The searches keep the contract\<close>

lemma wf_pool_update:
  assumes "wf_pool p xs" and "holds_bits bm ys" and "length ys = length xs"
    and "unat c \<le> length xs"
  shows "wf_pool (p\<lparr>used_map := bm, next_fit_start_idx := c\<rparr>) ys"
  using assms by (simp add: wf_pool_def)

lemma wf_pool_update_map:
  assumes "wf_pool p xs" and "holds_bits bm ys" and "length ys = length xs"
  shows "wf_pool (p\<lparr>used_map := bm\<rparr>) ys"
  using assms by (simp add: wf_pool_def)

lemma run_at_le: "run_at v n xs i \<Longrightarrow> i + n \<le> length xs"
  by (simp add: run_at_def)

subsection \<open>First fit\<close>

lemma find_first_fit_spec:
  assumes p: "wf_pool p xs" and cnt: "0 < cnt"
  shows "returns (find_first_fit p cnt) (\<lambda>(r, p'). fit_post p xs cnt (r, p') \<and>
    (r \<noteq> BITMAP_ERROR \<longrightarrow> is_first_run False (unat cnt) xs 0 (unat r)))"
proof -
  obtain r b where b: "bitmap_scan_and_flip (used_map p) 0 cnt False = ret (r, b)"
    and post: "if r = BITMAP_ERROR then b = used_map p \<and> (\<forall>i \<ge> unat (0 :: size_t). \<not> run_at False (unat cnt) xs i)
      else is_first_run False (unat cnt) xs (unat (0 :: size_t)) (unat r) \<and> bit_cnt b = bit_cnt (used_map p) \<and>
        holds_bits b (set_range (unat r) (unat cnt) (\<not> False) xs)"
    using bitmap_scan_and_flip_holds [OF wf_pool_holds [OF p], of 0 cnt False] cnt
    by (auto elim!: returnsE)
  then show ?thesis
    by (auto simp: find_first_fit_def wp fit_post_def is_first_run_def run_at_le
        intro: wf_pool_update_map [OF p] split: if_splits)
qed

interpretation first_fit: contiguous_allocator find_first_fit
  by unfold_locales (rule returns_mono [OF find_first_fit_spec], auto)

subsection \<open>Next fit\<close>

lemma find_next_fit_spec:
  assumes p: "wf_pool p xs" and cnt: "0 < cnt"
  shows "returns (find_next_fit p cnt) (\<lambda>(r, p'). fit_post p xs cnt (r, p') \<and>
    (r \<noteq> BITMAP_ERROR \<longrightarrow>
      (if \<exists>i \<ge> unat (next_fit_start_idx p). run_at False (unat cnt) xs i
       then is_first_run False (unat cnt) xs (unat (next_fit_start_idx p)) (unat r)
       else is_first_run False (unat cnt) xs 0 (unat r)) \<and>
      unat (next_fit_start_idx p') =
        (if unat r + unat cnt = length xs then 0 else unat r + unat cnt)))"
proof -
  let ?s = "next_fit_start_idx p" and ?map = "used_map p"
  note h = wf_pool_holds [OF p]
  obtain r where r: "bitmap_scan ?map ?s cnt False = ret r"
    "if r = BITMAP_ERROR then \<forall>i \<ge> unat ?s. \<not> run_at False (unat cnt) xs i
     else is_first_run False (unat cnt) xs (unat ?s) (unat r)"
    using bitmap_scan_holds [OF h wf_pool_cursor [OF p] cnt] by (rule returnsE)
  obtain r0 where r0: "bitmap_scan ?map 0 cnt False = ret r0"
    "if r0 = BITMAP_ERROR then \<forall>i \<ge> unat (0 :: size_t). \<not> run_at False (unat cnt) xs i
     else is_first_run False (unat cnt) xs (unat (0 :: size_t)) (unat r0)"
    using bitmap_scan_holds [OF h _ cnt, of 0] by (auto elim: returnsE)
  define r' where "r' = (if r = BITMAP_ERROR then r0 else r)"
  have find: "find_next_fit p cnt = (if r' \<noteq> BITMAP_ERROR then
        andthen (bitmap_set_multiple ?map r' cnt True) (\<lambda>bm.
          ret (r', p\<lparr>used_map := bm,
             next_fit_start_idx := if bitmap_size ?map \<le> r' + cnt then 0 else r' + cnt\<rparr>))
      else ret (r', p))"
    using r(1) r0(1)
    by (cases "r = BITMAP_ERROR") (simp_all add: find_next_fit_def r'_def Let_def cong del: andthen_weak_cong)
  show ?thesis
  proof (cases "r' = BITMAP_ERROR")
    case True
    then show ?thesis
      using r r0 find by (auto simp: r'_def fit_post_def split: if_splits)
  next
    case False
    have run: "run_at False (unat cnt) xs (unat r')"
      and first: "if \<exists>i \<ge> unat ?s. run_at False (unat cnt) xs i
         then is_first_run False (unat cnt) xs (unat ?s) (unat r')
         else is_first_run False (unat cnt) xs 0 (unat r')"
      using False r(2) r0(2) by (auto simp: r'_def is_first_run_def split: if_splits)
    note le = run_at_le [OF run]
    obtain bm where bm: "bitmap_set_multiple ?map r' cnt True = ret bm"
      "holds_bits bm (set_range (unat r') (unat cnt) True xs)"
      using bitmap_set_multiple_holds [OF h le] by (auto elim: returnsE)
    have u: "unat (r' + cnt) = unat r' + unat cnt"
      using le wf_pool_length [OF p] by (intro unat_add_le) linarith
    let ?c = "if bitmap_size ?map \<le> r' + cnt then 0 else r' + cnt"
    have c: "unat ?c = (if unat r' + unat cnt = length xs then 0 else unat r' + unat cnt)"
      using u le wf_pool_size [OF p] by (simp add: bitmap_size_def word_le_nat_alt)
    then have "wf_pool (p\<lparr>used_map := bm, next_fit_start_idx := ?c\<rparr>) (set_range (unat r') (unat cnt) True xs)"
      using le by (intro wf_pool_update [OF p bm(2)]) (simp_all split: if_splits)
    then show ?thesis
      using False run first c unfolding find by (simp add: bm(1) fit_post_def)
  qed
qed

interpretation next_fit: contiguous_allocator find_next_fit
  by unfold_locales (rule returns_mono [OF find_next_fit_spec], auto)

subsection \<open>Best fit\<close>

text \<open>
  \<open>max_run xs i n\<close>: the \<open>n\<close> pages from \<open>i\<close> on are a hole, a run of free pages that cannot
  be extended on either side. \<open>free_len xs i\<close> is the number of free pages from \<open>i\<close> on.
\<close>

definition max_run :: "bool list \<Rightarrow> nat \<Rightarrow> nat \<Rightarrow> bool" where
  "max_run xs i n \<longleftrightarrow> 0 < n \<and> run_at False n xs i \<and> (i = 0 \<or> xs ! (i - 1)) \<and>
     (i + n = length xs \<or> xs ! (i + n))"

definition free_len :: "bool list \<Rightarrow> nat \<Rightarrow> nat" where
  "free_len xs i = length (takeWhile Not (drop i xs))"

lemma free_len_eq:
  assumes "i + n \<le> length xs" and "\<And>j. j < n \<Longrightarrow> \<not> xs ! (i + j)" and "i + n = length xs \<or> xs ! (i + n)"
  shows "free_len xs i = n"
proof -
  have d: "drop i xs = take n (drop i xs) @ drop (i + n) xs"
    by (metis add.commute append_take_drop_id drop_drop)
  have "takeWhile Not (drop (i + n) xs) = []"
    using assms(1,3) by (cases "i + n = length xs") (simp_all add: takeWhile_eq_Nil_iff hd_drop_conv_nth)
  moreover have "\<not> x" if "x \<in> set (take n (drop i xs))" for x
    using that assms(1,2) by (auto simp: in_set_conv_nth)
  ultimately have "takeWhile Not (take n (drop i xs) @ drop (i + n) xs) = take n (drop i xs)"
    by (subst takeWhile_append2) simp_all
  then show ?thesis
    using assms(1) d by (simp add: free_len_def)
qed

lemma free_len_run:
  assumes "i \<le> length xs"
  shows "run_at False (free_len xs i) xs i" and "i + free_len xs i = length xs \<or> xs ! (i + free_len xs i)"
proof -
  let ?t = "takeWhile Not (drop i xs)"
  have le: "i + length ?t \<le> length xs"
    using assms length_takeWhile_le [of Not "drop i xs"] by simp
  have "\<not> xs ! (i + j)" if "j < length ?t" for j
    using that le takeWhile_nth [OF that] nth_mem [OF that] set_takeWhileD [of "?t ! j" Not "drop i xs"] by simp
  with le show "run_at False (free_len xs i) xs i"
    by (simp add: run_at_def free_len_def)
  show "i + free_len xs i = length xs \<or> xs ! (i + free_len xs i)"
  proof (cases "length ?t < length (drop i xs)")
    case True
    then show ?thesis using nth_length_takeWhile [OF True] by (simp add: free_len_def)
  next
    case False
    then have "i + length ?t = length xs" using le assms by simp
    then show ?thesis by (simp add: free_len_def)
  qed
qed

lemma max_run_iff:
  "max_run xs i n \<longleftrightarrow> i < length xs \<and> \<not> xs ! i \<and> (i = 0 \<or> xs ! (i - 1)) \<and> n = free_len xs i" (is "?l \<longleftrightarrow> ?r")
proof
  assume ?l
  then have "free_len xs i = n"
    by (intro free_len_eq) (auto simp: max_run_def run_at_def)
  with \<open>?l\<close> show ?r
    by (auto simp: max_run_def run_at_def)
next
  assume r: ?r
  note f = free_len_run [of i xs]
  have "0 < free_len xs i"
  proof (rule ccontr)
    assume "\<not> 0 < free_len xs i"
    then show False using f(2) r by simp
  qed
  with r f show ?l by (simp add: max_run_def)
qed

lemma run_in_hole:
  assumes "run_at False c xs i" and "0 < c"
  obtains j m where "max_run xs j m" and "j \<le> i" and "i + c \<le> j + m"
proof -
  let ?P = "\<lambda>j. j \<le> i \<and> (\<forall>k. j \<le> k \<and> k \<le> i \<longrightarrow> \<not> xs ! k)"
  define j where "j = (LEAST j. ?P j)"
  have i: "\<not> xs ! i" "i < length xs"
    using assms by (auto simp: run_at_def)
  then have "?P i" by auto
  then have P: "?P j" unfolding j_def by (rule LeastI)
  have left: "j = 0 \<or> xs ! (j - 1)"
  proof (rule ccontr)
    assume n: "\<not> (j = 0 \<or> xs ! (j - 1))"
    have "?P (j - 1)"
      using P n by (metis (no_types, lifting) le_diff_conv le_eq_less_or_eq less_Suc_eq_le Suc_eq_plus1 Suc_pred' diff_le_self gr0I order.trans)
    then have "j \<le> j - 1" unfolding j_def by (rule Least_le)
    moreover have "j \<noteq> 0" using n by simp
    ultimately show False by linarith
  qed
  have j: "max_run xs j (free_len xs j)"
    using P i left by (auto simp: max_run_iff)
  have "i + c \<le> j + free_len xs j"
  proof (rule ccontr)
    assume n: "\<not> i + c \<le> j + free_len xs j"
    let ?e = "j + free_len xs j"
    have e: "?e < length xs" using n run_at_le [OF assms(1)] by simp
    then have "xs ! ?e" using free_len_run(2) [of j xs] P i by auto
    moreover have "\<not> xs ! ?e"
    proof (cases "?e \<le> i")
      case True
      then show ?thesis using P by simp
    next
      case False
      then have "?e = i + (?e - i)" "?e - i < c" using n by simp_all
      then show ?thesis using assms(1) by (metis run_at_def)
    qed
    ultimately show False by simp
  qed
  with j P show thesis using that by blast
qed

lemma count_free_holds:
  assumes b: "holds_bits b xs" and s: "unat s \<le> length xs"
  shows "returns (count_free b s) (\<lambda>n. unat n = free_len xs (unat s))"
  unfolding count_free_def
proof (rule returns_loop [where I = "\<lambda>(c, n). unat s \<le> unat c \<and> unat c \<le> length xs \<and> unat s + unat n = unat c \<and>
      (\<forall>j < unat n. \<not> xs ! (unat s + j))" and m = "\<lambda>(c, n). length xs - unat c"], goal_cases)
  case 1
  show ?case using s by simp
next
  case (2 q)
  then obtain c n where q: "q = (c, n)" "unat s \<le> unat c" "unat c \<le> length xs" "unat s + unat n = unat c"
    "\<forall>j < unat n. \<not> xs ! (unat s + j)" by (cases q) auto
  note len = holds_bits_length [OF b]
  show ?case
  proof (cases "unat c < length xs \<and> \<not> xs ! unat c")
    case True
    have "c < bit_cnt b" using True len by (simp add: word_less_nat_alt)
    then have "unat (c + 1) = Suc (unat c)" by (rule unat_Suc_less)
    moreover have "unat n + 1 < 4294967296"
      using q(4) True len unat_lt_2p32 [of "bit_cnt b"] by linarith
    then have "unat (n + 1) = Suc (unat n)"
      by (subst unat_add_le) simp_all
    ultimately show ?thesis
      using True q len \<open>c < bit_cnt b\<close> bitmap_test_holds [OF b, of c]
      by (auto simp: bitmap_size_def less_Suc_eq)
  next
    case False
    then have "free_len xs (unat s) = unat n"
      using q by (intro free_len_eq) auto
    then show ?thesis
      using False q len bitmap_test_holds [OF b, of c] by (auto simp: bitmap_size_def word_less_nat_alt)
  qed
qed


text \<open>
  \<open>best_so_far\<close> describes the loop variables when the holes that begin below \<open>idx\<close> have been
  seen; \<open>best_fit\<close> is the result: the smallest hole that is large enough, the leftmost of these.
\<close>

definition best_fit :: "bool list \<Rightarrow> nat \<Rightarrow> nat \<Rightarrow> bool" where
  "best_fit xs c r \<longleftrightarrow> (\<exists>n. max_run xs r n \<and> c \<le> n \<and>
     (\<forall>i m. max_run xs i m \<and> c \<le> m \<longrightarrow> n < m \<or> n = m \<and> r \<le> i))"

definition best_so_far :: "bool list \<Rightarrow> nat \<Rightarrow> nat \<Rightarrow> size_t \<Rightarrow> size_t \<Rightarrow> bool" where
  "best_so_far xs c idx best_idx best_size \<longleftrightarrow>
     (if best_idx = BITMAP_ERROR then best_size = SIZE_MAX \<and> (\<forall>i < idx. \<forall>m. max_run xs i m \<longrightarrow> m < c)
      else max_run xs (unat best_idx) (unat best_size) \<and> c < unat best_size \<and> unat best_idx < idx \<and>
        (\<forall>i < idx. \<forall>m. max_run xs i m \<and> c \<le> m \<longrightarrow>
           unat best_size < m \<or> unat best_size = m \<and> unat best_idx \<le> i))"

lemma best_so_far_end:
  assumes "best_so_far xs c idx best_idx best_size" and "\<And>i m. max_run xs i m \<Longrightarrow> i < idx" and "0 < c"
  shows "if best_idx = BITMAP_ERROR then \<forall>i. \<not> run_at False c xs i else best_fit xs c (unat best_idx)"
proof (cases "best_idx = BITMAP_ERROR")
  case True
  have "\<not> run_at False c xs i" for i
  proof
    assume "run_at False c xs i"
    then obtain j m where jm: "max_run xs j m" "j \<le> i" "i + c \<le> j + m" using assms(3) by (rule run_in_hole)
    have "m < c" using True jm(1) assms(1) assms(2) [of j m] by (simp add: best_so_far_def)
    with jm show False by linarith
  qed
  with True show ?thesis by simp
next
  case False
  then show ?thesis
    using assms(1,2) unfolding best_so_far_def best_fit_def by (auto intro!: exI [of _ "unat best_size"])
qed

text \<open>The next hole at or after \<open>idx\<close> is the only one that begins before its own end.\<close>

lemma holes_below_next:
  assumes "idx = 0 \<or> idx = length xs \<or> xs ! idx" and "is_first_run False 1 xs idx f"
  shows "max_run xs f (free_len xs f)"
    and "max_run xs i m \<Longrightarrow> i < f + free_len xs f \<Longrightarrow> i < idx \<or> i = f \<and> m = free_len xs f"
    and "0 < free_len xs f" and "f + free_len xs f \<le> length xs"
    and "f + free_len xs f = length xs \<or> xs ! (f + free_len xs f)"
proof -
  have f: "idx \<le> f" "f < length xs" "\<not> xs ! f" "\<And>j. idx \<le> j \<Longrightarrow> j < f \<Longrightarrow> xs ! j"
    using assms(2) by (auto simp: is_first_run_def run_at_def)
  have "f = 0 \<or> xs ! (f - 1)"
    using f(2-3) f(4) [of "f - 1"] assms(1) f(1) by (cases "f = idx") auto
  then show m: "max_run xs f (free_len xs f)"
    using f by (simp add: max_run_iff)
  then show "0 < free_len xs f" "f + free_len xs f \<le> length xs"
    "f + free_len xs f = length xs \<or> xs ! (f + free_len xs f)"
    by (auto simp: max_run_def run_at_def)
  assume i: "max_run xs i m" "i < f + free_len xs f"
  show "i < idx \<or> i = f \<and> m = free_len xs f"
  proof (rule ccontr)
    assume n: "\<not> (i < idx \<or> i = f \<and> m = free_len xs f)"
    then consider "idx \<le> i" "i < f" | "f < i" using i(1) by (fastforce simp: max_run_iff)
    then show False
    proof cases
      case 1
      then show ?thesis using f(4) [of i] i(1) by (simp add: max_run_iff)
    next
      case 2
      then have "i - 1 = f + (i - 1 - f)" "i - 1 - f < free_len xs f" "i \<noteq> 0" using i(2) by simp_all
      moreover have "run_at False (free_len xs f) xs f" using m by (simp add: max_run_def)
      ultimately have "\<not> xs ! (i - 1)" by (metis run_at_def)
      then show ?thesis using i(1) 2 by (simp add: max_run_iff)
    qed
  qed
qed

lemma best_so_far_step:
  fixes f n bi bs :: size_t
  assumes sofar: "best_so_far xs c idx bi bs"
    and hole: "max_run xs (unat f) (unat n)" and "idx \<le> unat f" and "f \<noteq> BITMAP_ERROR"
    and below: "\<And>i m. max_run xs i m \<Longrightarrow> i < unat f + unat n \<Longrightarrow> i < idx \<or> i = unat f \<and> m = unat n"
    and len: "length xs < 4294967295"
  shows "c \<le> unat n \<Longrightarrow> n < bs \<Longrightarrow> unat n \<noteq> c \<Longrightarrow> best_so_far xs c (unat f + unat n) f n"
    and "\<not> (c \<le> unat n \<and> n < bs) \<Longrightarrow> best_so_far xs c (unat f + unat n) bi bs"
    and "unat n = c \<Longrightarrow> n < bs \<Longrightarrow> best_fit xs c (unat f)"
proof -
  have pos: "0 < unat n" using hole by (simp add: max_run_def)
  show "best_so_far xs c (unat f + unat n) f n" if n: "c \<le> unat n" "n < bs" "unat n \<noteq> c"
  proof -
    have "unat n < m \<or> unat n = m \<and> unat f \<le> i"
      if h: "max_run xs i m" "c \<le> m" "i < unat f + unat n" for i m
      using below [OF h(1,3)] sofar h n by (force simp: best_so_far_def word_less_nat_alt split: if_splits)
    then show ?thesis
      using assms(4) hole n pos by (auto simp: best_so_far_def)
  qed
  show "best_so_far xs c (unat f + unat n) bi bs" if no: "\<not> (c \<le> unat n \<and> n < bs)"
  proof (cases "bi = BITMAP_ERROR")
    case True
    have "unat n < 4294967295" using hole len by (auto simp: max_run_def run_at_def)
    then have "n < SIZE_MAX" by (simp add: word_less_nat_alt unat_SIZE_MAX)
    moreover have bs: "bs = SIZE_MAX" "\<forall>i < idx. \<forall>m. max_run xs i m \<longrightarrow> m < c"
      using True sofar by (simp_all add: best_so_far_def)
    ultimately have "unat n < c" using no by auto
    then have "m < c" if "max_run xs i m" "i < unat f + unat n" for i m
      using below [OF that] bs(2) that(1) by auto
    with True bs(1) show ?thesis by (simp add: best_so_far_def)
  next
    case False
    then have old: "unat bi < idx" "\<And>i m. i < idx \<Longrightarrow> max_run xs i m \<Longrightarrow> c \<le> m \<Longrightarrow>
        unat bs < m \<or> unat bs = m \<and> unat bi \<le> i"
      using sofar by (simp_all add: best_so_far_def)
    have "unat bs < m \<or> unat bs = m \<and> unat bi \<le> i"
      if h: "max_run xs i m" "c \<le> m" "i < unat f + unat n" for i m
    proof (cases "i < idx")
      case True
      then show ?thesis using old(2) h by blast
    next
      case False
      then have "i = unat f" "m = unat n" using below [OF h(1,3)] by auto
      then show ?thesis using no h(2) old(1) assms(3) by (simp add: word_less_nat_alt) linarith
    qed
    with False sofar assms(3) show ?thesis by (auto simp: best_so_far_def)
  qed
  show "best_fit xs c (unat f)" if n: "unat n = c" "n < bs"
  proof -
    have "unat n < m \<or> unat n = m \<and> unat f \<le> i" if h: "max_run xs i m" "c \<le> m" for i m
    proof (cases "i < unat f")
      case True
      then show ?thesis
        using below [OF h(1)] sofar h n by (force simp: best_so_far_def word_less_nat_alt split: if_splits)
    next
      case False
      then show ?thesis using h n by auto
    qed
    with hole n show ?thesis by (auto simp: best_fit_def)
  qed
qed

lemma best_fit_scan_holds:
  assumes b: "holds_bits b xs" and cnt: "0 < cnt" and len: "length xs < 4294967295"
  shows "returns (best_fit_scan b cnt) (\<lambda>r.
    if r = BITMAP_ERROR then \<forall>i. \<not> run_at False (unat cnt) xs i else best_fit xs (unat cnt) (unat r))"
  unfolding best_fit_scan_def
proof (rule returns_loop [where I = "\<lambda>(idx, bi, bs). unat idx \<le> length xs \<and>
      (unat idx = 0 \<or> unat idx = length xs \<or> xs ! unat idx) \<and> best_so_far xs (unat cnt) (unat idx) bi bs"
      and m = "\<lambda>(idx, bi, bs). length xs - unat idx"], goal_cases)
  case 1
  show ?case by (simp add: best_so_far_def)
next
  case (2 q)
  then obtain idx bi bs where q: "q = (idx, bi, bs)" and le: "unat idx \<le> length xs"
    and edge: "unat idx = 0 \<or> unat idx = length xs \<or> xs ! unat idx"
    and sofar: "best_so_far xs (unat cnt) (unat idx) bi bs" by (cases q) auto
  have c: "0 < unat cnt" using cnt by (simp add: word_less_nat_alt)
  have finish: "if bi = BITMAP_ERROR then \<forall>i. \<not> run_at False (unat cnt) xs i else best_fit xs (unat cnt) (unat bi)"
    if "\<And>i m. max_run xs i m \<Longrightarrow> i < unat idx"
    by (rule best_so_far_end [OF sofar that c])
  obtain f where f: "bitmap_scan b idx 1 False = ret f"
    "if f = BITMAP_ERROR then \<forall>i \<ge> unat idx. \<not> run_at False 1 xs i else is_first_run False 1 xs (unat idx) (unat f)"
  proof -
    have "0 < (1 :: size_t)" by simp
    from bitmap_scan_holds [OF b le this, of False, unfolded unsigned_1] that show thesis
      by (rule returnsE)
  qed
  show ?case
  proof (cases "idx < bitmap_size b \<and> f \<noteq> BITMAP_ERROR")
    case False
    have "i < unat idx" if "max_run xs i m" for i m
    proof (rule ccontr)
      assume n: "\<not> i < unat idx"
      have i: "i < length xs" "\<not> xs ! i" using that by (simp_all add: max_run_iff)
      then have "run_at False 1 xs i" by (simp add: run_at_def)
      moreover have "idx < bitmap_size b"
        using i(1) n holds_bits_length [OF b] by (simp add: bitmap_size_def word_less_nat_alt)
      ultimately show False using False f(2) n by simp
    qed
    with finish False q f(1) show ?thesis by auto
  next
    case True
    then have first: "is_first_run False 1 xs (unat idx) (unat f)" using f(2) by simp
    note hole = holes_below_next [OF edge first]
    obtain n where n: "count_free b f = ret n" "unat n = free_len xs (unat f)"
      using count_free_holds [OF b, of f] hole(4) by (auto elim: returnsE)
    have u: "unat (f + n) = unat f + unat n"
      using hole(4) n(2) len by (intro unat_add_le) simp
    have ge: "unat idx \<le> unat f" using first by (simp add: is_first_run_def)
    have step: "c \<le> unat n \<Longrightarrow> n < bs \<Longrightarrow> unat n \<noteq> c \<Longrightarrow> best_so_far xs c (unat f + unat n) f n"
      "\<not> (c \<le> unat n \<and> n < bs) \<Longrightarrow> best_so_far xs c (unat f + unat n) bi bs"
      "unat n = c \<Longrightarrow> n < bs \<Longrightarrow> best_fit xs c (unat f)" if "c = unat cnt" for c
      using best_so_far_step [OF _ _ ge, of xs "unat cnt" bi bs n] sofar hole n(2) True len that by auto
    have "length xs - unat (f + n) < length xs - unat idx" "unat (f + n) \<le> length xs"
      "unat (f + n) = length xs \<or> xs ! unat (f + n)"
      using u n(2) hole(3-5) ge le by auto
    then show ?thesis
      using True q f(1) n(1) step [OF refl] u
      by (auto simp: word_le_nat_alt word_unat_eq_iff)
  qed
qed

lemma best_fit_run:
  assumes "best_fit xs c r"
  shows "run_at False c xs r"
proof -
  obtain n where "run_at False n xs r" "c \<le> n"
    using assms unfolding best_fit_def max_run_def by blast
  then show ?thesis by (simp add: run_at_def)
qed

lemma find_best_fit_spec:
  assumes p: "wf_pool p xs" and cnt: "0 < cnt"
  shows "returns (find_best_fit p cnt) (\<lambda>(r, p'). fit_post p xs cnt (r, p') \<and>
    (r \<noteq> BITMAP_ERROR \<longrightarrow> best_fit xs (unat cnt) (unat r)))"
proof -
  note h = wf_pool_holds [OF p]
  have "length xs < 4294967295" using wf_pool_length [OF p] by simp
  from best_fit_scan_holds [OF h cnt this] obtain r where r: "best_fit_scan (used_map p) cnt = ret r"
    "if r = BITMAP_ERROR then \<forall>i. \<not> run_at False (unat cnt) xs i else best_fit xs (unat cnt) (unat r)"
    by (rule returnsE)
  show ?thesis
  proof (cases "r = BITMAP_ERROR")
    case True
    then show ?thesis using r by (simp add: find_best_fit_def fit_post_def)
  next
    case False
    then have best: "best_fit xs (unat cnt) (unat r)" using r(2) by simp
    note run = best_fit_run [OF best]
    obtain bm where bm: "bitmap_set_multiple (used_map p) r cnt True = ret bm"
      "holds_bits bm (set_range (unat r) (unat cnt) True xs)"
      using bitmap_set_multiple_holds [OF h run_at_le [OF run]] by (auto elim: returnsE)
    have "wf_pool (p\<lparr>used_map := bm\<rparr>) (set_range (unat r) (unat cnt) True xs)"
      using run_at_le [OF run] by (intro wf_pool_update_map [OF p bm(2)]) simp
    then show ?thesis
      using False r(1) best run bm(1) by (simp add: find_best_fit_def fit_post_def)
  qed
qed

interpretation best_fit: contiguous_allocator find_best_fit
  by unfold_locales (rule returns_mono [OF find_best_fit_spec], auto)

interpretation mode_fit: contiguous_allocator "find_pages mode" for mode
  by unfold_locales
    (auto simp: find_pages_def intro: first_fit.find_fit next_fit.find_fit best_fit.find_fit split: palloc_mode.splits)

section \<open>The allocator as a whole\<close>

text \<open>
  \<open>wf_palloc st B\<close>: both pools are well formed, with the pages in use given by \<open>B False\<close> (kernel)
  and \<open>B True\<close> (user), their locks are free, and the kernel pool ends where the user pool
  begins, or before.
\<close>

definition wf_palloc :: "palloc \<Rightarrow> (bool \<Rightarrow> bool list) \<Rightarrow> bool" where
  "wf_palloc st B \<longleftrightarrow> (\<forall>u. wf_pool (get_pool u st) (B u) \<and> pool_lock (get_pool u st) = lock_init) \<and>
     unat (base (kernel_pool st)) + 4096 * length (B False) \<le> unat (base (user_pool st))"

lemma put_get_pool [simp]:
  "put_pool u (get_pool u st) st = st" "get_pool u (put_pool u p st) = p"
  "u \<noteq> v \<Longrightarrow> get_pool v (put_pool u p st) = get_pool v st"
  "memory (put_pool u p st) = memory st" "current_palloc_mode (put_pool u p st) = current_palloc_mode st"
  "get_pool u (st\<lparr>memory := m\<rparr>) = get_pool u st"
  by (auto simp: put_pool_def get_pool_def)

lemma wf_palloc_memory [simp]: "wf_palloc (st\<lparr>memory := m\<rparr>) B = wf_palloc st B"
  by (simp add: wf_palloc_def)

lemma wf_palloc_put:
  assumes "wf_palloc st B" and "wf_pool p xs" and "pool_lock p = lock_init"
    and "base p = base (get_pool u st)" and "length xs = length (B u)"
  shows "wf_palloc (put_pool u p st) (B(u := xs))"
proof -
  have "wf_pool (get_pool v (put_pool u p st)) ((B(u := xs)) v) \<and> pool_lock (get_pool v (put_pool u p st)) = lock_init" for v
    using assms by (cases "v = u") (auto simp: wf_palloc_def)
  then show ?thesis
    using assms by (cases u) (auto simp: wf_palloc_def get_pool_def put_pool_def)
qed

text \<open>The address of page \<open>i\<close> of a pool, computed without wrap-around.\<close>

lemma page_address:
  assumes "wf_pool p xs" and "unat i < length xs"
  shows "unat (base p + 4096 * i) = unat (base p) + 4096 * unat i" and "base p + 4096 * i \<noteq> NULL"
    and "pg_ofs (base p + 4096 * i) = 0"
proof -
  have m: "unat (4096 * i) = 4096 * unat i"
    using assms wf_pool_length [OF assms(1)] by (simp add: unat_mult_lem [THEN iffD1])
  then show u: "unat (base p + 4096 * i) = unat (base p) + 4096 * unat i"
    using wf_pool_room [OF assms(1)] assms(2) by (subst unat_add_le) simp_all
  have "0 < unat (base p)" using wf_pool_base [OF assms(1)] by (simp add: unat_eq_zero [symmetric])
  with u show "base p + 4096 * i \<noteq> NULL" by (metis add_is_0 less_numeral_extra(3) unsigned_0)
  have "unat (base p) mod 4096 = 0"
    using wf_pool_aligned [OF assms(1)] unat_pg_ofs [of "base p"] by simp
  then have "unat (pg_ofs (base p + 4096 * i)) = 0" by (simp add: unat_pg_ofs u)
  then show "pg_ofs (base p + 4096 * i) = 0" by (simp add: unat_eq_zero)
qed

text \<open>A run that a search finds is inside the pool, so its index is not \<open>BITMAP_ERROR\<close>.\<close>

lemma found_in_pool:
  assumes "wf_palloc st B" and "0 < cnt" and "run_at False (unat cnt) (B u) (unat r)"
  shows "r \<noteq> BITMAP_ERROR" and "unat (base (get_pool u st) + 4096 * r) = unat (base (get_pool u st)) + 4096 * unat r"
proof -
  have p: "wf_pool (get_pool u st) (B u)" using assms(1) by (simp add: wf_palloc_def)
  have lt: "unat r < length (B u)"
    using run_at_le [OF assms(3)] assms(2) by (simp add: word_less_nat_alt)
  then have "unat r < 4294967295" using wf_pool_length [OF p] by linarith
  then show "r \<noteq> BITMAP_ERROR" using unat_SIZE_MAX by (auto simp: BITMAP_ERROR_def)
  show "unat (base (get_pool u st) + 4096 * r) = unat (base (get_pool u st)) + 4096 * unat r"
    by (rule page_address(1) [OF p lt])
qed

text \<open>What a call of \<open>palloc_get_multiple\<close> with a positive count delivers.\<close>

definition filled :: "mem \<Rightarrow> addr \<Rightarrow> size_t \<Rightarrow> u8 \<Rightarrow> mem" where
  "filled m p n v = (\<lambda>a. if a - p < n then v else m a)"

definition gets_pages :: "palloc \<Rightarrow> (bool \<Rightarrow> bool list) \<Rightarrow> u32 \<Rightarrow> size_t \<Rightarrow> addr \<Rightarrow> palloc \<Rightarrow> bool" where
  "gets_pages st B flags cnt pages st' \<longleftrightarrow> (let u = (flags AND PAL_USER \<noteq> 0) in
     \<exists>i. run_at False (unat cnt) (B u) i \<and>
       unat pages = unat (base (get_pool u st)) + 4096 * i \<and> pg_ofs pages = 0 \<and>
       wf_palloc st' (B(u := set_range i (unat cnt) True (B u))) \<and>
       get_pool (\<not> u) st' = get_pool (\<not> u) st \<and> base (get_pool u st') = base (get_pool u st) \<and>
       current_palloc_mode st' = current_palloc_mode st \<and>
       memory st' = (if flags AND PAL_ZERO \<noteq> 0 then filled (memory st) pages (4096 * cnt) 0 else memory st))"

lemma memset_ok: "dst \<noteq> NULL \<Longrightarrow> memset m dst v n = ret (dst, filled m dst n (ucast v))"
  by (simp add: memset_eq filled_def)

lemma palloc_get_multiple_cases:
  assumes k: "runs k" and st: "wf_palloc st B" and cnt: "0 < cnt"
  obtains (found) r p' where "run_at False (unat cnt) (B (flags AND PAL_USER \<noteq> 0)) (unat r)"
      "find_pages (current_palloc_mode st) (get_pool (flags AND PAL_USER \<noteq> 0) st\<lparr>pool_lock := lock_held (running k)\<rparr>) cnt = ret (r, p')"
      "returns (palloc_get_multiple k st flags cnt) (\<lambda>(pages, k', st'). pages \<noteq> NULL \<and> k' = k \<and>
         pages = base (get_pool (flags AND PAL_USER \<noteq> 0) st) + 4096 * r \<and> gets_pages st B flags cnt pages st' \<and>
         next_fit_start_idx (get_pool (flags AND PAL_USER \<noteq> 0) st') = next_fit_start_idx p')"
  | (none) "\<And>i. \<not> run_at False (unat cnt) (B (flags AND PAL_USER \<noteq> 0)) i"
      "palloc_get_multiple k st flags cnt = (if flags AND PAL_ASSERT \<noteq> 0 then stop Kernel_panic else ret (NULL, k, st))"
proof -
  define u where "u = (flags AND PAL_USER \<noteq> 0)"
  let ?p = "get_pool u st" and ?mode = "current_palloc_mode st"
  let ?h = "?p\<lparr>pool_lock := lock_held (running k)\<rparr>"
  have p: "wf_pool ?p (B u)" "pool_lock ?p = lock_init" "wf_pool ?h (B u)"
    using st by (simp_all add: wf_palloc_def)
  obtain r p' where find: "find_pages ?mode ?h cnt = ret (r, p')" and post: "fit_post ?h (B u) cnt (r, p')"
    using mode_fit.find_fit [OF p(3) cnt, of ?mode] by (auto elim: returnsE)
  have l: "pool_lock p' = lock_held (running k)" "base p' = base ?p"
    using post by (auto simp: fit_post_def split: if_splits)
  let ?q = "p'\<lparr>pool_lock := lock_init\<rparr>"
  have run: "with_pool_lock k ?p (\<lambda>pool. find_pages ?mode pool cnt) = ret (r, k, ?q)"
    using k p(2) find l(1) by (simp add: with_pool_lock_def lock_acquire_free lock_release_held)
  have "cnt \<noteq> 0" using cnt by auto
  then have get: "palloc_get_multiple k st flags cnt =
      (let pages = (if r \<noteq> BITMAP_ERROR then base ?p + 4096 * r else NULL) in
       if pages \<noteq> NULL then
         if flags AND PAL_ZERO \<noteq> 0 then ret (pages, k, (put_pool u ?q st)\<lparr>memory := filled (memory st) pages (4096 * cnt) 0\<rparr>)
         else ret (pages, k, put_pool u ?q st)
       else if flags AND PAL_ASSERT \<noteq> 0 then stop Kernel_panic
       else ret (pages, k, put_pool u ?q st))"
    using run l(2) unfolding palloc_get_multiple_def Let_def u_def [symmetric]
    by (simp add: memset_ok)
  show thesis
  proof (cases "r = BITMAP_ERROR")
    case True
    then have "p' = ?h" "\<And>i. \<not> run_at False (unat cnt) (B u) i"
      using post by (simp_all add: fit_post_def)
    moreover from this(1) have "?q = ?p" using p(2) by simp
    ultimately show thesis
      using get True none by (simp add: u_def)
  next
    case False
    then have f: "run_at False (unat cnt) (B u) (unat r)" "wf_pool ?q (set_range (unat r) (unat cnt) True (B u))"
      using post by (simp_all add: fit_post_def)
    have c: "0 < unat cnt" using cnt by (simp add: word_less_nat_alt)
    then have "unat r < length (B u)" using run_at_le [OF f(1)] by linarith
    note a = page_address [OF p(1) this]
    have wf: "wf_palloc (put_pool u ?q st) (B(u := set_range (unat r) (unat cnt) True (B u)))"
      using run_at_le [OF f(1)] l(2) by (intro wf_palloc_put [OF st f(2)]) simp_all
    let ?pages = "base ?p + 4096 * r"
    have "gets_pages st B flags cnt ?pages (if flags AND PAL_ZERO \<noteq> 0
        then (put_pool u ?q st)\<lparr>memory := filled (memory st) ?pages (4096 * cnt) 0\<rparr> else put_pool u ?q st)"
      using f(1) a wf l(2) unfolding gets_pages_def Let_def u_def [symmetric]
      by (intro exI [of _ "unat r"]) simp
    then show thesis
      using False f(1) a(2) find get found [of r p'] by (simp add: u_def Let_def split: if_splits)
  qed
qed

subsection \<open>Freeing\<close>

lemma page_from_pool_iff:
  assumes "wf_pool p xs"
  shows "page_from_pool p page \<longleftrightarrow>
    unat (base p) div 4096 \<le> unat page div 4096 \<and> unat page div 4096 < unat (base p) div 4096 + length xs"
proof -
  have "unat (pg_no (base p) + bit_cnt (used_map p)) = unat (base p) div 4096 + length xs"
  proof (subst unat_add_le)
    have "unat (base p) div 4096 < 1048576"
      using unat_lt_2p32 [of "base p"] by (intro less_mult_imp_div_less) simp
    then show "unat (pg_no (base p)) + unat (bit_cnt (used_map p)) < 4294967296"
      using wf_pool_length [OF assms] by (simp add: unat_pg_no wf_pool_size [OF assms])
  qed (simp add: unat_pg_no wf_pool_size [OF assms])
  then show ?thesis
    by (simp add: page_from_pool_def bitmap_size_def word_le_nat_alt word_less_nat_alt unat_pg_no)
qed

lemma pool_page:
  assumes "wf_pool p xs" and "unat page = unat (base p) + 4096 * i" and "i < length xs"
  shows "page_from_pool p page" and "unat (pg_no page - pg_no (base p)) = i" and "pg_ofs page = 0" and "page \<noteq> NULL"
proof -
  have b: "unat (base p) mod 4096 = 0" "base p \<noteq> NULL"
    using wf_pool_aligned [OF assms(1)] unat_pg_ofs [of "base p"] wf_pool_base [OF assms(1)] by simp_all
  have d: "unat page div 4096 = unat (base p) div 4096 + i"
    using assms(2) by simp
  then show "page_from_pool p page"
    using assms(3) by (simp add: page_from_pool_iff [OF assms(1)])
  show "unat (pg_no page - pg_no (base p)) = i"
    using d by (subst unat_minus_le) (simp_all add: word_le_nat_alt unat_pg_no)
  have "unat (pg_ofs page) = 0" using assms(2) b by (simp add: unat_pg_ofs)
  then show "pg_ofs page = 0" by (simp add: unat_eq_zero)
  have "0 < unat page" using b assms(2) by (auto simp: unat_gt_0)
  then show "page \<noteq> NULL" by auto
qed

lemma not_in_kernel_pool:
  assumes st: "wf_palloc st B" and "unat page = unat (base (user_pool st)) + 4096 * i"
  shows "\<not> page_from_pool (kernel_pool st) page"
proof -
  have k: "wf_pool (kernel_pool st) (B False)"
    using st unfolding wf_palloc_def get_pool_def by (metis (full_types))
  have "unat (base (kernel_pool st)) div 4096 + length (B False) \<le> unat page div 4096"
    using st assms(2) div_le_mono [of "unat (base (kernel_pool st)) + 4096 * length (B False)" "unat page" 4096]
    by (simp add: wf_palloc_def)
  then show ?thesis by (simp add: page_from_pool_iff [OF k])
qed

definition release_pages :: "size_t \<Rightarrow> size_t \<Rightarrow> pool \<Rightarrow> (unit \<times> pool) res" where
  "release_pages idx cnt pool =
     andthen (bitmap_all (used_map pool) idx cnt) (\<lambda>all. ASSERT all
       (andthen (bitmap_set_multiple (used_map pool) idx cnt False) (\<lambda>bm. ret ((), pool\<lparr>used_map := bm\<rparr>))))"

text \<open>The critical section of freeing: every page must be in use, and then all become free.\<close>

lemma release_pages_locked:
  assumes k: "runs k" and l: "pool_lock p = lock_init" and p: "wf_pool p xs"
  shows "if run_at True (unat cnt) xs (unat idx)
     then returns (with_pool_lock k p (release_pages idx cnt)) (\<lambda>(_, k', p'). k' = k \<and> pool_lock p' = lock_init \<and>
       base p' = base p \<and> next_fit_start_idx p' = next_fit_start_idx p \<and>
       wf_pool p' (set_range (unat idx) (unat cnt) False xs))
     else with_pool_lock k p (release_pages idx cnt) = stop Assert_fail"
proof (cases "run_at True (unat cnt) xs (unat idx)")
  case True
  note h = wf_pool_holds [OF p] and le = run_at_le [OF True]
  obtain bm where bm: "bitmap_set_multiple (used_map p) idx cnt False = ret bm"
    "holds_bits bm (set_range (unat idx) (unat cnt) False xs)"
    using bitmap_set_multiple_holds [OF h le] by (auto elim: returnsE)
  have "wf_pool (p\<lparr>used_map := bm\<rparr>) (set_range (unat idx) (unat cnt) False xs)"
    using le by (intro wf_pool_update_map [OF p bm(2)]) simp
  then show ?thesis
    using True k l bm(1) bitmap_all_holds [OF h le]
    by (simp add: with_pool_lock_def release_pages_def lock_acquire_free lock_release_held wp wf_pool_def)
next
  case False
  have "bitmap_all (used_map p) idx cnt = stop Assert_fail \<or> bitmap_all (used_map p) idx cnt = ret False"
  proof (cases "unat idx + unat cnt \<le> length xs")
    case True
    then show ?thesis using False bitmap_all_holds [OF wf_pool_holds [OF p] True] by simp
  next
    case False
    then show ?thesis using bitmap_all_out [OF wf_pool_holds [OF p]] by simp
  qed
  then show ?thesis
    using False k l by (auto simp: with_pool_lock_def release_pages_def lock_acquire_free)
qed

lemma palloc_free_multiple_in_pool:
  assumes k: "runs k" and st: "wf_palloc st B" and i: "i < length (B u)" and cnt: "cnt \<noteq> 0"
    and pages: "unat pages = unat (base (get_pool u st)) + 4096 * i"
  shows "if run_at True (unat cnt) (B u) i
     then returns (palloc_free_multiple k st pages cnt) (\<lambda>(k', st'). k' = k \<and>
       wf_palloc st' (B(u := set_range i (unat cnt) False (B u))) \<and>
       get_pool (\<not> u) st' = get_pool (\<not> u) st \<and> base (get_pool u st') = base (get_pool u st) \<and>
       current_palloc_mode st' = current_palloc_mode st \<and>
       next_fit_start_idx (get_pool u st') = next_fit_start_idx (get_pool u st) \<and>
       memory st' = filled (memory st) pages (4096 * cnt) 0xcc)
     else palloc_free_multiple k st pages cnt = stop Assert_fail"
proof -
  have p: "wf_pool (get_pool u st) (B u)" "pool_lock (get_pool u st) = lock_init"
    using st by (simp_all add: wf_palloc_def)
  note pg = pool_page [OF p(1) pages i]
  have sel: "(if page_from_pool (kernel_pool st) pages then ret False
      else if page_from_pool (user_pool st) pages then ret True else stop Unreachable) = ret u"
    using pg(1) not_in_kernel_pool [OF st, of pages i] pages by (cases u) (simp_all add: get_pool_def)
  define idx where "idx = pg_no pages - pg_no (base (get_pool u st))"
  have free: "palloc_free_multiple k st pages cnt =
    andthen (with_pool_lock k (get_pool u st) (release_pages idx cnt))
      (\<lambda>(_, k, pool). ret (k, put_pool u pool (st\<lparr>memory := filled (memory st) pages (4096 * cnt) 0xcc\<rparr>)))"
    using pg cnt unfolding palloc_free_multiple_def sel idx_def
    by (simp add: memset_ok release_pages_def [abs_def] Let_def)
  note rel = release_pages_locked [OF k p(2) p(1), of cnt idx]
  show ?thesis
  proof (cases "run_at True (unat cnt) (B u) i")
    case False
    then show ?thesis using rel free pg(2) by (simp add: idx_def)
  next
    case True
    then obtain p' where p': "with_pool_lock k (get_pool u st) (release_pages idx cnt) = ret ((), k, p')"
      "pool_lock p' = lock_init" "base p' = base (get_pool u st)"
      "next_fit_start_idx p' = next_fit_start_idx (get_pool u st)" "wf_pool p' (set_range i (unat cnt) False (B u))"
      using rel pg(2) by (auto simp: idx_def elim!: returnsE)
    let ?st = "st\<lparr>memory := filled (memory st) pages (4096 * cnt) 0xcc\<rparr>"
    have "wf_palloc (put_pool u p' ?st) (B(u := set_range i (unat cnt) False (B u)))"
      using p' st run_at_le [OF True] by (intro wf_palloc_put) simp_all
    then show ?thesis using True free p' by simp
  qed
qed

subsection \<open>Initial pools\<close>

text \<open>The pages at the start of a pool of \<open>n\<close> pages that its bitmap takes.\<close>

definition bitmap_pages :: "nat \<Rightarrow> nat" where
  "bitmap_pages n = (8 + 4 * ((n + 31) div 32) + 4095) div 4096"

lemma bitmap_pages_less:
  assumes "2 \<le> n"
  shows "bitmap_pages n < n"
proof -
  define x where "x = (n + 31) div 32"
  have "x * 32 \<le> n + 31" unfolding x_def by (rule div_times_less_eq_dividend)
  then have "8 + 4 * x + 4095 < n * 4096" using assms by linarith
  then show ?thesis unfolding bitmap_pages_def x_def by (rule less_mult_imp_div_less)
qed

lemma bitmap_pages_room: "8 + 4 * ((n + 31) div 32) \<le> 4096 * bitmap_pages n"
  unfolding bitmap_pages_def
  using div_mult_mod_eq [of "8 + 4 * ((n + 31) div 32) + 4095" 4096]
    mod_less_divisor [of 4096 "8 + 4 * ((n + 31) div 32) + 4095"] by linarith

lemma init_pool_spec:
  assumes aligned: "pg_ofs start = 0" and room: "unat start + 4096 * unat n \<le> 4294967296" and two: "2 \<le> unat n"
  shows "returns (init_pool m start n) (\<lambda>p. pool_lock p = lock_init \<and>
    unat (base p) = unat start + 4096 * bitmap_pages (unat n) \<and>
    wf_pool p (replicate (unat n - bitmap_pages (unat n)) False))"
proof -
  let ?bp = "bitmap_pages (unat n)"
  define bm where "bm = DIV_ROUND_UP (bitmap_buf_size n) PGSIZE"
  have n: "unat n \<le> 1048576" using room by simp
  have bs: "unat (bitmap_buf_size n) = 8 + 4 * ((unat n + 31) div 32)"
    using n by (intro unat_bitmap_buf_size) simp
  have "(unat n + 31) div 32 \<le> 32768" using n by simp
  then have bm: "unat bm = ?bp"
    using unat_DIV_ROUND_UP [of "4096" "bitmap_buf_size n"] bs
    by (simp add: bm_def bitmap_pages_def)
  have le: "bm \<le> n" "unat (n - bm) = unat n - ?bp"
    using bitmap_pages_less [OF two] bm by (simp_all add: word_le_nat_alt unat_minus_le)
  have bb: "unat (bm * 4096) = 4096 * ?bp"
    using bm bitmap_pages_less [OF two] n by (subst unat_mult_lem [THEN iffD1]) simp_all
  have "unat (bitmap_buf_size (n - bm)) \<le> 4096 * ?bp"
  proof -
    have "unat (bitmap_buf_size (n - bm)) = 8 + 4 * ((unat n - ?bp + 31) div 32)"
      using le n by (subst unat_bitmap_buf_size) simp_all
    also have "\<dots> \<le> 8 + 4 * ((unat n + 31) div 32)" by (simp add: div_le_mono)
    also have "\<dots> \<le> 4096 * ?bp" by (rule bitmap_pages_room)
    finally show ?thesis .
  qed
  then have "bitmap_buf_size (n - bm) \<le> bm * 4096" using bb by (simp add: word_le_nat_alt)
  moreover have "unat (n - bm) \<le> 32 * (length (block_words m start (bm * 4096)) - 2)"
    using bitmap_pages_room [of "unat n"] bb le(2) by (simp add: block_words_def)
  ultimately obtain b where b: "bitmap_create_in_buf (n - bm) (block_words m start (bm * 4096)) (bm * 4096) = ret b"
    "holds_bits b (replicate (unat n - ?bp) False)"
    using le(2) by (auto dest!: bitmap_create_in_buf_holds elim!: returnsE)
  let ?p = "\<lparr>pool_lock = lock_init, used_map = b, base = start + bm * 4096, next_fit_start_idx = 0\<rparr>"
  have p: "init_pool m start n = ret ?p"
    using le(1) b(1) unfolding init_pool_def bm_def [symmetric] by (simp add: Let_def not_less)
  have base: "unat (start + bm * 4096) = unat start + 4096 * ?bp"
    using bb room bitmap_pages_less [OF two] by (subst unat_add_le) simp_all
  have "0 < ?bp" using bitmap_pages_room [of "unat n"] by (cases ?bp) simp_all
  then have "start + bm * 4096 \<noteq> NULL" using base by (metis add_gr_0 mult_pos_pos unsigned_0 zero_less_numeral less_irrefl)
  moreover have "unat start mod 4096 = 0" using aligned unat_pg_ofs [of start] by simp
  then have "unat (pg_ofs (start + bm * 4096)) = 0" by (simp add: unat_pg_ofs base)
  then have "pg_ofs (start + bm * 4096) = 0" by (simp add: unat_eq_zero)
  ultimately have "wf_pool ?p (replicate (unat n - ?bp) False)"
    using b(2) base room bitmap_pages_less [OF two] by (simp add: wf_pool_def)
  then show ?thesis using p base by simp
qed

subsection \<open>Buddy release\<close>

lemma count_used_holds:
  assumes b: "holds_bits b xs" and run: "run_at True n xs (unat s)" and n: "0 < n"
  shows "returns (count_used b s) (\<lambda>c. n \<le> unat c \<and> run_at True (unat c) xs (unat s))"
  unfolding count_used_def
proof (rule returns_loop [where I = "\<lambda>c. 0 < unat c \<and> run_at True (unat c) xs (unat s)"
      and m = "\<lambda>c. length xs - unat c"])
  show "0 < unat (1 :: size_t) \<and> run_at True (unat (1 :: size_t)) xs (unat s)"
    using run n by (auto simp: run_at_def dest: spec [of _ 0])
next
  fix c :: size_t assume c: "0 < unat c \<and> run_at True (unat c) xs (unat s)"
  note len = holds_bits_length [OF b]
  have u: "unat (s + c) = unat s + unat c"
    using run_at_le [of True "unat c" xs "unat s"] c len unat_lt_2p32 [of "bit_cnt b"]
    by (intro unat_add_le) linarith
  show "returns (if s + c < bitmap_size b then andthen (bitmap_test b (s + c)) (\<lambda>used.
        if used then ret (Inl (c + 1)) else ret (Inr c)) else ret (Inr c))
      (\<lambda>x. case x of Inl c' \<Rightarrow> (0 < unat c' \<and> run_at True (unat c') xs (unat s)) \<and> length xs - unat c' < length xs - unat c
        | Inr r \<Rightarrow> n \<le> unat r \<and> run_at True (unat r) xs (unat s))"
  proof (cases "unat s + unat c < length xs \<and> xs ! (unat s + unat c)")
    case True
    then have lt: "s + c < bit_cnt b" using u len by (simp add: word_less_nat_alt)
    have "unat c + 1 < 4294967296"
      using True len unat_lt_2p32 [of "bit_cnt b"] by linarith
    then have "unat (c + 1) = Suc (unat c)"
      by (subst unat_add_le) simp_all
    then show ?thesis
      using True lt c u bitmap_test_holds [OF b, of "s + c"]
      by (auto simp: bitmap_size_def run_at_def less_Suc_eq wp)
  next
    case False
    have "n \<le> unat c"
    proof (rule ccontr)
      assume "\<not> n \<le> unat c"
      then have "unat s + unat c < length xs" "xs ! (unat s + unat c)"
        using run by (auto simp: run_at_def)
      with False show False by simp
    qed
    then show ?thesis
      using False c u len bitmap_test_holds [OF b, of "s + c"]
      by (auto simp: bitmap_size_def word_less_nat_alt wp)
  qed
qed

section \<open>Sample states\<close>

text \<open>
  Small states that satisfy the invariant: a kernel running one thread, and two pools of eight
  pages each with some pages in use.
\<close>

definition sample_kernel :: kernel where
  "sample_kernel = \<lparr>
     thr = (\<lambda>_. \<lparr>tid = 1, status = THREAD_RUNNING, name = ''main'', stack = 0xc000efff, priority = 31, magic = THREAD_MAGIC\<rparr>),
     running = 0xc000e000, ready_list = [], all_list = [0xc000e000], idle_thread = NULL, initial_thread = 0xc000e000,
     level = INTR_ON, in_external_intr = False, yield_on_return = False, thread_ticks = 0, idle_ticks = 0,
     kernel_ticks = 0, next_tid = 2, tid_lock = lock_init\<rparr>"

definition sample_palloc :: "palloc_mode \<Rightarrow> palloc" where
  "sample_palloc mode = \<lparr>
     kernel_pool = \<lparr>pool_lock = lock_init, used_map = \<lparr>bit_cnt = 8, bits = [0x29]\<rparr>, base = 0xc0101000, next_fit_start_idx = 2\<rparr>,
     user_pool = \<lparr>pool_lock = lock_init, used_map = \<lparr>bit_cnt = 8, bits = [0]\<rparr>, base = 0xc0201000, next_fit_start_idx = 0\<rparr>,
     current_palloc_mode = mode, memory = (\<lambda>_. 0)\<rparr>"

definition sample_bits :: "bool \<Rightarrow> bool list" where
  "sample_bits u = (if u then [False, False, False, False, False, False, False, False]
     else [True, False, False, True, False, True, False, False])"

lemma sample_runs: "runs sample_kernel"
  by (simp add: sample_kernel_def runs_def intr_context_def is_thread_def)

lemma sample_wf: "wf_palloc (sample_palloc mode) sample_bits"
proof -
  have "[0..<8] = [0, 1, 2, 3, 4, 5, 6, 7 :: nat]" by (simp add: upt_rec)
  then have "bm_abs \<lparr>bit_cnt = 8, bits = [0x29]\<rparr> = sample_bits False" "bm_abs \<lparr>bit_cnt = 8, bits = [0]\<rparr> = sample_bits True"
    by (simp_all add: bm_abs_def bm_bit_def sample_bits_def)
  then show ?thesis
    by (simp add: wf_palloc_def wf_pool_def get_pool_def sample_palloc_def holds_bits_def wf_bitmap_def
        pg_ofs_mod all_bool_eq) (simp add: sample_bits_def)
qed

lemma sample_simps:
  "base (kernel_pool (sample_palloc mode)) = 0xc0101000" "base (user_pool (sample_palloc mode)) = 0xc0201000"
  "next_fit_start_idx (kernel_pool (sample_palloc mode)) = 2" "current_palloc_mode (sample_palloc mode) = mode"
  "length (sample_bits u) = 8" "get_pool False st = kernel_pool st"
  by (simp_all add: sample_palloc_def get_pool_def sample_bits_def)

lemma sample_run: "run_at False 2 (sample_bits False) (Suc 0)"
  by (simp add: run_at_def sample_bits_def less_2_cases_iff)

section \<open>Properties\<close>

text \<open>
  C1: Allocation is safe and complete in every mode. A call of \<^verbatim>\<open>palloc_get_multiple\<close> for a
  positive number of pages always ends. It panics only if \<^verbatim>\<open>PAL_ASSERT\<close> is set and no run of
  free pages is long enough; it returns a null pointer, with nothing changed, only if there is
  no such run and \<^verbatim>\<open>PAL_ASSERT\<close> is clear. Otherwise it returns the page-aligned address of
  pages of the requested pool that were all free: exactly these become used, the other pool,
  the mode and both locks are as before, and the memory changes only if \<^verbatim>\<open>PAL_ZERO\<close> is set,
  and then only in these pages, which are zero.
\<close>

theorem palloc_get_multiple_safe:
  assumes "runs k" and "wf_palloc st B" and "0 < cnt"
  shows "ends (palloc_get_multiple k st flags cnt)
    (\<lambda>e. e = Kernel_panic \<and> flags AND PAL_ASSERT \<noteq> 0 \<and>
      (\<forall>i. \<not> run_at False (unat cnt) (B (flags AND PAL_USER \<noteq> 0)) i))
    (\<lambda>(pages, k', st'). k' = k \<and>
      (if pages = NULL
       then st' = st \<and> flags AND PAL_ASSERT = 0 \<and> (\<forall>i. \<not> run_at False (unat cnt) (B (flags AND PAL_USER \<noteq> 0)) i)
       else gets_pages st B flags cnt pages st'))"
  using assms by (rule palloc_get_multiple_cases [where flags = flags]) (auto elim!: returnsE)

theorem palloc_get_multiple_safe_witness:
  "ends (palloc_get_multiple sample_kernel (sample_palloc PAL_BEST_FIT) PAL_ZERO 2)
    (\<lambda>e. False) (\<lambda>(pages, k', st'). k' = sample_kernel \<and>
      (if pages = NULL then (\<forall>i. \<not> run_at False 2 (sample_bits False) i)
       else gets_pages (sample_palloc PAL_BEST_FIT) sample_bits PAL_ZERO 2 pages st'))"
  using palloc_get_multiple_safe [OF sample_runs sample_wf, of 2 PAL_BEST_FIT PAL_ZERO]
  by (auto simp: ends_def pal_flag_defs split: if_splits)

text \<open>
  C4: First fit takes the lowest run. In the first-fit mode, whenever some run of free pages is
  long enough, the pages returned are the run with the lowest index.
\<close>

theorem palloc_first_fit_lowest:
  assumes "runs k" and "wf_palloc st B" and "0 < cnt" and "current_palloc_mode st = PAL_FIRST_FIT"
    and "run_at False (unat cnt) (B (flags AND PAL_USER \<noteq> 0)) j"
  shows "returns (palloc_get_multiple k st flags cnt) (\<lambda>(pages, _, st'). \<exists>i.
    is_first_run False (unat cnt) (B (flags AND PAL_USER \<noteq> 0)) 0 i \<and>
    unat pages = unat (base (get_pool (flags AND PAL_USER \<noteq> 0) st)) + 4096 * i)"
proof -
  let ?u = "flags AND PAL_USER \<noteq> 0"
  have p: "wf_pool (get_pool ?u st\<lparr>pool_lock := lock_held (running k)\<rparr>) (B ?u)"
    using assms(2) by (simp add: wf_palloc_def)
  show ?thesis
    using assms(1-3)
  proof (cases rule: palloc_get_multiple_cases [where flags = flags])
    case (found r p')
    then have "is_first_run False (unat cnt) (B ?u) 0 (unat r)"
      using find_first_fit_spec [OF p assms(3)] assms(4) found_in_pool(1) [OF assms(2,3) found(1)]
      by (simp add: find_pages_def)
    then show ?thesis
      using found(3) found_in_pool(2) [OF assms(2,3) found(1)] by (auto elim!: returnsE)
  qed (use assms(5) in auto)
qed

theorem palloc_first_fit_lowest_witness:
  "returns (palloc_get_multiple sample_kernel (sample_palloc PAL_FIRST_FIT) 0 2) (\<lambda>(pages, _, st'). \<exists>i.
    is_first_run False 2 (sample_bits False) 0 i \<and> unat pages = 0xc0101000 + 4096 * i)"
  using palloc_first_fit_lowest [OF sample_runs sample_wf, of 2 PAL_FIRST_FIT 0 1]
  by (simp add: sample_run sample_simps)

text \<open>
  C3: Next fit resumes at its cursor. In the next-fit mode, if some long enough run of free
  pages begins at or after the cursor, the first of these is taken; if none does, the first run
  of the whole pool is. The cursor then stands just after the pages returned, or at 0 if these
  end the pool.
\<close>

theorem palloc_next_fit_cursor:
  assumes "runs k" and "wf_palloc st B" and "0 < cnt" and "current_palloc_mode st = PAL_NEXT_FIT"
    and "run_at False (unat cnt) (B (flags AND PAL_USER \<noteq> 0)) j"
  shows "returns (palloc_get_multiple k st flags cnt) (\<lambda>(pages, _, st'). \<exists>i.
    (let u = flags AND PAL_USER \<noteq> 0; cursor = unat (next_fit_start_idx (get_pool u st)) in
     is_first_run False (unat cnt) (B u)
       (if \<exists>i \<ge> cursor. run_at False (unat cnt) (B u) i then cursor else 0) i \<and>
     unat pages = unat (base (get_pool u st)) + 4096 * i \<and>
     unat (next_fit_start_idx (get_pool u st')) =
       (if i + unat cnt = length (B u) then 0 else i + unat cnt)))"
proof -
  define u where "u = (flags AND PAL_USER \<noteq> 0)"
  have p: "wf_pool (get_pool u st\<lparr>pool_lock := lock_held (running k)\<rparr>) (B u)"
    using assms(2) by (simp add: wf_palloc_def)
  show ?thesis
    using assms(1-3)
  proof (cases rule: palloc_get_multiple_cases [where flags = flags])
    case (found r p')
    note found = found [folded u_def]
    have "is_first_run False (unat cnt) (B u)
       (if \<exists>i \<ge> unat (next_fit_start_idx (get_pool u st)). run_at False (unat cnt) (B u) i
        then unat (next_fit_start_idx (get_pool u st)) else 0) (unat r) \<and>
       unat (next_fit_start_idx p') = (if unat r + unat cnt = length (B u) then 0 else unat r + unat cnt)"
      using find_next_fit_spec [OF p assms(3)] assms(4) found(2) found_in_pool(1) [OF assms(2,3) found(1)]
      by (auto simp: find_pages_def split: if_splits)
    moreover obtain st' where "palloc_get_multiple k st flags cnt = ret (base (get_pool u st) + 4096 * r, k, st')"
      "next_fit_start_idx (get_pool u st') = next_fit_start_idx p'"
      using found(3) by (auto elim!: returnsE)
    ultimately show ?thesis
      using found_in_pool(2) [OF assms(2,3) found(1)]
      unfolding u_def [symmetric] Let_def by (auto intro!: exI [of _ "unat r"] simp del: if_split)
  qed (use assms(5) in auto)
qed

theorem palloc_next_fit_cursor_witness:
  "returns (palloc_get_multiple sample_kernel (sample_palloc PAL_NEXT_FIT) 0 2) (\<lambda>(pages, _, st'). \<exists>i.
    is_first_run False 2 (sample_bits False)
      (if \<exists>i \<ge> 2. run_at False 2 (sample_bits False) i then 2 else 0) i \<and>
    unat pages = 0xc0101000 + 4096 * i \<and>
    unat (next_fit_start_idx (kernel_pool st')) = (if i + 2 = 8 then 0 else i + 2))"
  using palloc_next_fit_cursor [OF sample_runs sample_wf, of 2 PAL_NEXT_FIT 0 1]
  by (simp add: sample_run sample_simps Let_def cong: if_cong)

text \<open>
  C2: Best fit takes the smallest hole. In the best-fit mode, whenever some run of free pages is
  long enough, the pages returned begin a hole, a run of free pages bounded by used pages or
  the ends of the pool. No smaller hole is large enough, and no hole of the same size lies
  further left.
\<close>

theorem palloc_best_fit_smallest:
  assumes "runs k" and "wf_palloc st B" and "0 < cnt" and "current_palloc_mode st = PAL_BEST_FIT"
    and "run_at False (unat cnt) (B (flags AND PAL_USER \<noteq> 0)) j"
  shows "returns (palloc_get_multiple k st flags cnt) (\<lambda>(pages, _, st'). \<exists>i.
    best_fit (B (flags AND PAL_USER \<noteq> 0)) (unat cnt) i \<and>
    unat pages = unat (base (get_pool (flags AND PAL_USER \<noteq> 0) st)) + 4096 * i)"
proof -
  let ?u = "flags AND PAL_USER \<noteq> 0"
  have p: "wf_pool (get_pool ?u st\<lparr>pool_lock := lock_held (running k)\<rparr>) (B ?u)"
    using assms(2) by (simp add: wf_palloc_def)
  show ?thesis
    using assms(1-3)
  proof (cases rule: palloc_get_multiple_cases [where flags = flags])
    case (found r p')
    then have "best_fit (B ?u) (unat cnt) (unat r)"
      using find_best_fit_spec [OF p assms(3)] assms(4) found_in_pool(1) [OF assms(2,3) found(1)]
      by (simp add: find_pages_def)
    then show ?thesis
      using found(3) found_in_pool(2) [OF assms(2,3) found(1)] by (auto elim!: returnsE)
  qed (use assms(5) in auto)
qed

theorem palloc_best_fit_smallest_witness:
  "returns (palloc_get_multiple sample_kernel (sample_palloc PAL_BEST_FIT) 0 2) (\<lambda>(pages, _, st'). \<exists>i.
    best_fit (sample_bits False) 2 i \<and> unat pages = 0xc0101000 + 4096 * i)"
  using palloc_best_fit_smallest [OF sample_runs sample_wf, of 2 PAL_BEST_FIT 0 1]
  by (simp add: sample_run sample_simps)

text \<open>
  C10: Getting pages and freeing them restores the pools. Whenever a long enough run of free
  pages exists, getting pages and then freeing the same number of pages at the address
  returned succeeds, in every mode, and leaves the same pages in use as before.
\<close>

theorem palloc_get_free_roundtrip:
  assumes "runs k" and "wf_palloc st B" and "0 < cnt"
    and "run_at False (unat cnt) (B (flags AND PAL_USER \<noteq> 0)) j"
  shows "returns (andthen (palloc_get_multiple k st flags cnt) (\<lambda>(pages, k', st').
      palloc_free_multiple k' st' pages cnt))
    (\<lambda>(k', st'). k' = k \<and> wf_palloc st' B \<and> (\<forall>u. base (get_pool u st') = base (get_pool u st)))"
  using assms(1-3)
proof (cases rule: palloc_get_multiple_cases [where flags = flags])
  case (found r p')
  define u where "u = (flags AND PAL_USER \<noteq> 0)"
  obtain pages st' where get: "palloc_get_multiple k st flags cnt = ret (pages, k, st')"
    and got: "gets_pages st B flags cnt pages st'"
    using found(3) by (auto elim!: returnsE)
  obtain i where i: "run_at False (unat cnt) (B u) i" "unat pages = unat (base (get_pool u st)) + 4096 * i"
    "wf_palloc st' (B(u := set_range i (unat cnt) True (B u)))"
    "get_pool (\<not> u) st' = get_pool (\<not> u) st" "base (get_pool u st') = base (get_pool u st)"
    using got unfolding gets_pages_def Let_def u_def [symmetric] by blast
  let ?B = "B(u := set_range i (unat cnt) True (B u))"
  have c: "0 < unat cnt" "cnt \<noteq> 0" using assms(3) by (auto simp: word_less_nat_alt)
  note le = run_at_le [OF i(1)]
  have "set_range i (unat cnt) False (?B u) = B u"
    using i(1) by (simp add: set_range_undo)
  then have "?B(u := set_range i (unat cnt) False (?B u)) = B" by (simp add: fun_upd_idem)
  then have "returns (palloc_free_multiple k st' pages cnt)
      (\<lambda>(k', st''). k' = k \<and> wf_palloc st'' B \<and> get_pool (\<not> u) st'' = get_pool (\<not> u) st' \<and>
         base (get_pool u st'') = base (get_pool u st'))"
    using palloc_free_multiple_in_pool [OF assms(1) i(3), of i u cnt pages] le c i(2,5) run_at_set_range [OF le, of True]
    by (auto elim!: returnsE)
  then show ?thesis
    using get i(4,5) by (cases u) (auto simp: wp all_bool_eq elim!: returnsE)
qed (use assms(4) in auto)

theorem palloc_get_free_roundtrip_witness:
  "returns (andthen (palloc_get_multiple sample_kernel (sample_palloc PAL_NEXT_FIT) 0 2) (\<lambda>(pages, k', st').
      palloc_free_multiple k' st' pages 2)) (\<lambda>(k', st'). wf_palloc st' sample_bits)"
  using palloc_get_free_roundtrip [OF sample_runs sample_wf, of 2 0 1 PAL_NEXT_FIT]
  by (auto simp: sample_run elim!: returnsE)



text \<open>
  The index of a page inverts its address: \<^verbatim>\<open>palloc_get_page_index\<close> of page \<open>i\<close> of either pool
  is \<open>i\<close>.
\<close>

lemma palloc_get_page_index_inverse:
  assumes "wf_palloc st B" and "i < length (B u)" and "unat page = unat (base (get_pool u st)) + 4096 * i"
  shows "unat (palloc_get_page_index st page) = i"
proof -
  have p: "wf_pool (get_pool u st) (B u)" using assms(1) by (simp add: wf_palloc_def)
  note pg = pool_page [OF p assms(3,2)]
  show ?thesis
    using pg(1,2) not_in_kernel_pool [OF assms(1), of page i] assms(3)
    by (cases u) (simp_all add: palloc_get_page_index_def get_pool_def)
qed

text \<open>
  C40: Releasing through the buddy interface frees foreign blocks. If the \<open>n + m\<close> pages from
  page \<open>i\<close> on are in use, \<open>n\<close> of them as one block and \<open>m\<close> as the next one, then
  \<^verbatim>\<open>buddy_system_free\<close> of the first block succeeds and frees the second one as well.
\<close>

theorem buddy_system_free_frees_neighbour:
  assumes k: "runs k" and l: "pool_lock p = lock_init" and p: "wf_pool p xs"
    and used: "run_at True (n + m) xs i" "0 < n" and pages: "unat pages = unat (base p) + 4096 * i"
  shows "returns (buddy_system_free k p pages) (\<lambda>(k', p'). k' = k \<and>
    (\<exists>ys. wf_pool p' ys \<and> run_at False m ys (i + n)))"
proof -
  have "i < length xs" using used by (simp add: run_at_def)
  note pg = pool_page [OF p pages this]
  define idx where "idx = pg_no pages - pg_no (base p)"
  have idx: "unat idx = i" using pg(2) by (simp add: idx_def)
  obtain c where c: "count_used (used_map p) idx = ret c" "n + m \<le> unat c" "run_at True (unat c) xs i"
    using count_used_holds [OF wf_pool_holds [OF p], of "n + m" idx] used idx by (auto elim: returnsE)
  have "with_pool_lock k p (\<lambda>pool. andthen (count_used (used_map pool) idx) (\<lambda>page_cnt.
            andthen (bitmap_all (used_map pool) idx page_cnt) (\<lambda>all. ASSERT all
              (andthen (bitmap_set_multiple (used_map pool) idx page_cnt False) (\<lambda>bm.
                 ret ((), pool\<lparr>used_map := bm\<rparr>)))))) = with_pool_lock k p (release_pages idx c)"
    using k l c(1) by (simp add: with_pool_lock_def lock_acquire_free release_pages_def)
  then have free: "buddy_system_free k p pages =
      andthen (with_pool_lock k p (release_pages idx c)) (\<lambda>(_, k, pool). ret (k, pool))"
    using pg(4) unfolding buddy_system_free_def idx_def by simp
  obtain p' where p': "with_pool_lock k p (release_pages idx c) = ret ((), k, p')"
    "wf_pool p' (set_range i (unat c) False xs)"
    using release_pages_locked [OF k l p, of c idx] c(3) idx by (auto elim!: returnsE)
  have "run_at False m (set_range i (unat c) False xs) (i + n)"
    using c(2) run_at_le [OF c(3)] by (simp add: run_at_def nth_set_range)
  with free p' show ?thesis by auto
qed

theorem buddy_system_free_frees_neighbour_witness:
  "returns (buddy_system_free sample_kernel
      \<lparr>pool_lock = lock_init, used_map = \<lparr>bit_cnt = 2, bits = [3]\<rparr>, base = 0xc0101000, next_fit_start_idx = 0\<rparr> 0xc0101000)
    (\<lambda>(k', p'). k' = sample_kernel \<and> (\<exists>ys. wf_pool p' ys \<and> run_at False 1 ys 1))"
proof -
  have "[0..<2] = [0, 1 :: nat]" by (simp add: upt_rec)
  then have "holds_bits \<lparr>bit_cnt = 2, bits = [3]\<rparr> [True, True]"
    by (simp add: holds_bits_def wf_bitmap_def bm_abs_def bm_bit_def)
  then show ?thesis
    using buddy_system_free_frees_neighbour [OF sample_runs, of "\<lparr>pool_lock = lock_init,
        used_map = \<lparr>bit_cnt = 2, bits = [3]\<rparr>, base = 0xc0101000, next_fit_start_idx = 0\<rparr>" "[True, True]" 1 1 0 "0xc0101000"]
    by (simp add: wf_pool_def pg_ofs_mod run_at_def less_Suc_eq all_conj_distrib imp_disjL)
qed

text \<open>
  C12: Start-up establishes the invariant. With between 260 and 262144 pages of RAM (1 GB, all
  that the kernel's address range can map) and a user page limit of at least 2, \<^verbatim>\<open>palloc_init\<close> succeeds: the pages
  above the first megabyte are divided between the two pools, the user pool getting half of
  them or the limit, whichever is less; each pool loses its first pages to its bitmap; all
  other pages are free, the pools do not overlap and both locks are free.
\<close>

theorem palloc_init_establishes:
  assumes ram: "260 \<le> unat init_ram_pages" "unat init_ram_pages \<le> 262144" and limit: "2 \<le> unat user_page_limit"
    and user: "user_pages = min (unat user_page_limit) ((unat init_ram_pages - 256) div 2)"
    and kernel: "kernel_pages = unat init_ram_pages - 256 - user_pages"
  shows "returns (palloc_init init_ram_pages st user_page_limit) (\<lambda>st'.
    wf_palloc st' (\<lambda>u. if u then replicate (user_pages - bitmap_pages user_pages) False
                       else replicate (kernel_pages - bitmap_pages kernel_pages) False) \<and>
    unat (base (kernel_pool st')) = 0xc0100000 + 4096 * bitmap_pages kernel_pages \<and>
    unat (base (user_pool st')) = 0xc0100000 + 4096 * (kernel_pages + bitmap_pages user_pages) \<and>
    memory st' = memory st)"
proof -
  let ?r = "unat init_ram_pages"
  have mul: "unat (init_ram_pages * 4096) = 4096 * ?r"
    using ram by (subst unat_mult_lem [THEN iffD1]) simp_all
  then have ptov: "ptov (1024 * 1024) = ret 0xc0100000" "ptov (init_ram_pages * PGSIZE) = ret (init_ram_pages * 4096 + 0xc0000000)"
    using ram by (simp_all add: ptov_def PHYS_BASE_def word_less_nat_alt)
  define d where "d = init_ram_pages * 4096 + 0xc0000000 - (0xc0100000 :: u32)"
  have "d = init_ram_pages * 4096 - 0x100000" by (simp add: d_def)
  then have d: "unat d = 4096 * (?r - 256)"
    using mul ram by (simp add: unat_minus_le word_le_nat_alt)
  have u: "uint d = int (4096 * (?r - 256))" unfolding d [symmetric] by simp
  have "sint d = signed_take_bit 31 (uint d)" by (simp add: sint_uint)
  also have "\<dots> = uint d" using u ram(2) by (intro signed_take_bit_int_eq_self) simp_all
  finally have "sint d = int (4096 * (?r - 256))" using u by simp
  moreover have "int (4096 * x) sdiv 4096 = int x" for x
    by (cases "x = 0") (simp_all add: signed_divide_int_def sgn_mult)
  ultimately have fp: "word_of_int (sint d sdiv 4096) = (of_nat (?r - 256) :: size_t)"
    by (metis of_int_of_nat_eq)
  let ?fp = "of_nat (?r - 256) :: size_t"
  have ufp: "unat ?fp = ?r - 256" using ram by (simp add: unat_minus_le word_le_nat_alt)
  define up where "up = (if user_page_limit < ?fp div 2 then user_page_limit else ?fp div 2)"
  have up: "unat up = user_pages"
    using ufp by (auto simp: up_def user word_less_nat_alt unat_div min_def)
  have uk: "user_pages + kernel_pages = ?r - 256" "2 \<le> user_pages" "2 \<le> kernel_pages"
    using user kernel ram limit by linarith+
  have kp: "unat (?fp - up) = kernel_pages"
    using ufp up uk(1) by (subst unat_minus_le) (simp_all add: word_le_nat_alt)
  have mk: "unat ((?fp - up) * 4096) = 4096 * kernel_pages"
    using kp uk ram by (subst unat_mult_lem [THEN iffD1]) simp_all
  have us: "unat (0xc0100000 + (?fp - up) * 4096) = 0xc0100000 + 4096 * kernel_pages"
    using mk uk ram by (subst unat_add_le) simp_all
  have room: "kernel_pages \<le> 261888" "kernel_pages + user_pages \<le> 261888" using uk(1) ram(2) by linarith+
  obtain k where k: "init_pool (memory st) 0xc0100000 (?fp - up) = ret k" "pool_lock k = lock_init"
    "unat (base k) = 0xc0100000 + 4096 * bitmap_pages kernel_pages"
    "wf_pool k (replicate (kernel_pages - bitmap_pages kernel_pages) False)"
    using init_pool_spec [of "0xc0100000" "?fp - up" "memory st"] kp uk(3) room(1) by (auto simp: pg_ofs_mod elim!: returnsE)
  have al: "pg_ofs (0xc0100000 + (?fp - up) * 4096) = 0"
    using unat_pg_ofs [of "0xc0100000 + (?fp - up) * 4096"] us by (simp add: unat_eq_zero mod_mult_self2)
  obtain q where q: "init_pool (memory st) (0xc0100000 + (?fp - up) * 4096) up = ret q" "pool_lock q = lock_init"
    "unat (base q) = 0xc0100000 + 4096 * kernel_pages + 4096 * bitmap_pages user_pages"
    "wf_pool q (replicate (user_pages - bitmap_pages user_pages) False)"
    using init_pool_spec [OF al, of up "memory st"] up us uk(2) room(2) by (auto elim!: returnsE)
  have init: "palloc_init init_ram_pages st user_page_limit = ret (st\<lparr>kernel_pool := k, user_pool := q\<rparr>)"
    using k(1) q(1) unfolding palloc_init_def ptov andthen_simps Let_def d_def [symmetric] fp
    by (simp add: up_def [symmetric])
  have "bitmap_pages kernel_pages < kernel_pages" using uk(3) by (rule bitmap_pages_less)
  then show ?thesis
    using init k q by (auto simp: wf_palloc_def get_pool_def all_bool_eq)
qed

theorem palloc_init_establishes_witness:
  "returns (palloc_init 1024 (sample_palloc PAL_BUDDY) 0xffffffff) (\<lambda>st'.
    wf_palloc st' (\<lambda>u. replicate 383 False) \<and>
    unat (base (kernel_pool st')) = 0xc0101000 \<and> unat (base (user_pool st')) = 0xc0281000)"
  using palloc_init_establishes [of 1024 "0xffffffff" 384 384 "sample_palloc PAL_BUDDY"]
  by (auto simp: bitmap_pages_def elim!: returnsE)

end
