(* ===== verification/Linked_List.thy ===== *)
theory Linked_List
  imports Prelude
begin

text \<open>
  The doubly linked lists of \<^verbatim>\<open>lib/kernel/list.c\<close> over an explicit heap.

  A \<^verbatim>\<open>struct list_elem\<close> is its address; the heap gives the two links of every address. A
  \<^verbatim>\<open>struct list\<close> at address \<open>l\<close> is its two header elements, the head at \<open>l\<close> and the tail at
  \<open>l + 8\<close>. The heap is total: what the assertions of the code let through is never a null pointer.

  \<open>is_list h l xs\<close> says that the list at \<open>l\<close> holds the elements \<open>xs\<close>, in this order. Each
  operation is shown to act on \<open>xs\<close> as the operation on lists it stands for, and to leave every
  other part of the heap alone. Sorting and searching with a comparison function are in
  \<open>List_Sort\<close>.
\<close>

section \<open>The model\<close>

record lheap =
  prv :: "addr \<Rightarrow> addr"
  nxt :: "addr \<Rightarrow> addr"

definition set_prev :: "addr \<Rightarrow> addr \<Rightarrow> lheap \<Rightarrow> lheap" where
  "set_prev e v h = h\<lparr>prv := (prv h)(e := v)\<rparr>"

definition set_next :: "addr \<Rightarrow> addr \<Rightarrow> lheap \<Rightarrow> lheap" where
  "set_next e v h = h\<lparr>nxt := (nxt h)(e := v)\<rparr>"

definition is_head :: "lheap \<Rightarrow> addr \<Rightarrow> bool" where
  "is_head h elem \<longleftrightarrow> elem \<noteq> NULL \<and> prv h elem = NULL \<and> nxt h elem \<noteq> NULL"

definition is_interior :: "lheap \<Rightarrow> addr \<Rightarrow> bool" where
  "is_interior h elem \<longleftrightarrow> elem \<noteq> NULL \<and> prv h elem \<noteq> NULL \<and> nxt h elem \<noteq> NULL"

definition is_tail :: "lheap \<Rightarrow> addr \<Rightarrow> bool" where
  "is_tail h elem \<longleftrightarrow> elem \<noteq> NULL \<and> prv h elem \<noteq> NULL \<and> nxt h elem = NULL"

text \<open>\<^verbatim>\<open>&list->head\<close> and \<^verbatim>\<open>&list->tail\<close>: an element takes eight bytes.\<close>

definition head_of :: "addr \<Rightarrow> addr" where
  "head_of l = l"

definition tail_of :: "addr \<Rightarrow> addr" where
  "tail_of l = l + 8"

definition list_init :: "lheap \<Rightarrow> addr \<Rightarrow> lheap res" where
  "list_init h l = ASSERT (l \<noteq> NULL)
     (let h = set_prev (head_of l) NULL h; h = set_next (head_of l) (tail_of l) h;
          h = set_prev (tail_of l) (head_of l) h; h = set_next (tail_of l) NULL h in ret h)"

definition list_begin :: "lheap \<Rightarrow> addr \<Rightarrow> addr res" where
  "list_begin h l = ASSERT (l \<noteq> NULL) (ret (nxt h (head_of l)))"

definition list_next :: "lheap \<Rightarrow> addr \<Rightarrow> addr res" where
  "list_next h elem = ASSERT (is_head h elem \<or> is_interior h elem) (ret (nxt h elem))"

definition list_end :: "addr \<Rightarrow> addr res" where
  "list_end l = ASSERT (l \<noteq> NULL) (ret (tail_of l))"

definition list_rbegin :: "lheap \<Rightarrow> addr \<Rightarrow> addr res" where
  "list_rbegin h l = ASSERT (l \<noteq> NULL) (ret (prv h (tail_of l)))"

definition list_prev :: "lheap \<Rightarrow> addr \<Rightarrow> addr res" where
  "list_prev h elem = ASSERT (is_interior h elem \<or> is_tail h elem) (ret (prv h elem))"

definition list_rend :: "addr \<Rightarrow> addr res" where
  "list_rend l = ASSERT (l \<noteq> NULL) (ret (head_of l))"

definition list_head :: "addr \<Rightarrow> addr res" where
  "list_head l = ASSERT (l \<noteq> NULL) (ret (head_of l))"

definition list_tail :: "addr \<Rightarrow> addr res" where
  "list_tail l = ASSERT (l \<noteq> NULL) (ret (tail_of l))"

definition list_insert :: "lheap \<Rightarrow> addr \<Rightarrow> addr \<Rightarrow> lheap res" where
  "list_insert h before elem = ASSERT (is_interior h before \<or> is_tail h before) (ASSERT (elem \<noteq> NULL)
     (let h = set_prev elem (prv h before) h; h = set_next elem before h;
          h = set_next (prv h before) elem h; h = set_prev before elem h in ret h))"

definition list_splice :: "lheap \<Rightarrow> addr \<Rightarrow> addr \<Rightarrow> addr \<Rightarrow> lheap res" where
  "list_splice h before first last1 = ASSERT (is_interior h before \<or> is_tail h before)
     (if first = last1 then ret h
      else andthen (list_prev h last1) (\<lambda>last.
        ASSERT (is_interior h first) (ASSERT (is_interior h last)
          (let h = set_next (prv h first) (nxt h last) h; h = set_prev (nxt h last) (prv h first) h;
               h = set_prev first (prv h before) h; h = set_next last before h;
               h = set_next (prv h before) first h; h = set_prev before last h in ret h))))"

definition list_push_front :: "lheap \<Rightarrow> addr \<Rightarrow> addr \<Rightarrow> lheap res" where
  "list_push_front h l elem = andthen (list_begin h l) (\<lambda>b. list_insert h b elem)"

definition list_push_back :: "lheap \<Rightarrow> addr \<Rightarrow> addr \<Rightarrow> lheap res" where
  "list_push_back h l elem = andthen (list_end l) (\<lambda>e. list_insert h e elem)"

definition list_remove :: "lheap \<Rightarrow> addr \<Rightarrow> (addr \<times> lheap) res" where
  "list_remove h elem = ASSERT (is_interior h elem)
     (let h = set_next (prv h elem) (nxt h elem) h; h = set_prev (nxt h elem) (prv h elem) h
      in ret (nxt h elem, h))"

definition list_empty :: "lheap \<Rightarrow> addr \<Rightarrow> bool res" where
  "list_empty h l = andthen (list_begin h l) (\<lambda>b. andthen (list_end l) (\<lambda>e. ret (b = e)))"

definition list_front :: "lheap \<Rightarrow> addr \<Rightarrow> addr res" where
  "list_front h l = andthen (list_empty h l) (\<lambda>e. ASSERT (\<not> e) (ret (nxt h (head_of l))))"

definition list_back :: "lheap \<Rightarrow> addr \<Rightarrow> addr res" where
  "list_back h l = andthen (list_empty h l) (\<lambda>e. ASSERT (\<not> e) (ret (prv h (tail_of l))))"

definition list_pop_front :: "lheap \<Rightarrow> addr \<Rightarrow> (addr \<times> lheap) res" where
  "list_pop_front h l = andthen (list_front h l) (\<lambda>front. andthen (list_remove h front) (\<lambda>(_, h). ret (front, h)))"

definition list_pop_back :: "lheap \<Rightarrow> addr \<Rightarrow> (addr \<times> lheap) res" where
  "list_pop_back h l = andthen (list_back h l) (\<lambda>back. andthen (list_remove h back) (\<lambda>(_, h). ret (back, h)))"

definition list_size :: "lheap \<Rightarrow> addr \<Rightarrow> size_t res" where
  "list_size h l = andthen (list_begin h l) (\<lambda>e.
     loop (\<lambda>(e, cnt). andthen (list_end l) (\<lambda>t.
       if e \<noteq> t then andthen (list_next h e) (\<lambda>e. ret (Inl (e, cnt + 1))) else ret (Inr cnt))) (e, 0))"

text \<open>\<open>swap\<close> of the two links of one element, and of a \<^verbatim>\<open>next\<close> with a \<^verbatim>\<open>prev\<close> link.\<close>

definition swap_links :: "addr \<Rightarrow> lheap \<Rightarrow> lheap" where
  "swap_links e h = (let t = prv h e in set_next e t (set_prev e (nxt h e) h))"

definition swap_next_prev :: "addr \<Rightarrow> addr \<Rightarrow> lheap \<Rightarrow> lheap" where
  "swap_next_prev a b h = (let t = nxt h a in set_prev b t (set_next a (prv h b) h))"

definition list_reverse :: "lheap \<Rightarrow> addr \<Rightarrow> lheap res" where
  "list_reverse h l = andthen (list_empty h l) (\<lambda>empty.
     if \<not> empty then
       andthen (list_begin h l) (\<lambda>e.
       andthen (loop (\<lambda>(e, h). andthen (list_end l) (\<lambda>t.
           if e \<noteq> t then let h = swap_links e h in ret (Inl (prv h e, h)) else ret (Inr h))) (e, h)) (\<lambda>h.
       let h = swap_next_prev (head_of l) (tail_of l) h;
           h = swap_next_prev (prv h (tail_of l)) (nxt h (head_of l)) h
       in ret h))
     else ret h)"

section \<open>Lists in the heap\<close>

lemma links_simps [simp]:
  "prv (set_prev e v h) = (prv h)(e := v)" "nxt (set_prev e v h) = nxt h"
  "nxt (set_next e v h) = (nxt h)(e := v)" "prv (set_next e v h) = prv h"
  by (simp_all add: set_prev_def set_next_def)

definition linked :: "lheap \<Rightarrow> addr \<Rightarrow> addr \<Rightarrow> bool" where
  "linked h a b \<longleftrightarrow> nxt h a = b \<and> prv h b = a"

definition nodes :: "addr \<Rightarrow> addr list \<Rightarrow> addr list" where
  "nodes l xs = head_of l # xs @ [tail_of l]"

definition is_list :: "lheap \<Rightarrow> addr \<Rightarrow> addr list \<Rightarrow> bool" where
  "is_list h l xs \<longleftrightarrow> successively (linked h) (nodes l xs) \<and> distinct (nodes l xs) \<and> NULL \<notin> set (nodes l xs) \<and>
     prv h (head_of l) = NULL \<and> nxt h (tail_of l) = NULL"

text \<open>The heaps \<open>h\<close> and \<open>h'\<close> have the same links outside \<open>S\<close>.\<close>

definition same_outside :: "addr set \<Rightarrow> lheap \<Rightarrow> lheap \<Rightarrow> bool" where
  "same_outside S h h' \<longleftrightarrow> (\<forall>e. e \<notin> S \<longrightarrow> prv h' e = prv h e \<and> nxt h' e = nxt h e)"

lemma same_outside_refl [simp]: "same_outside S h h"
  by (simp add: same_outside_def)

lemma same_outside_trans: "same_outside S h h' \<Longrightarrow> same_outside S h' h'' \<Longrightarrow> same_outside S h h''"
  by (simp add: same_outside_def)

lemma same_outside_mono: "same_outside S h h' \<Longrightarrow> S \<subseteq> T \<Longrightarrow> same_outside T h h'"
  by (auto simp: same_outside_def)

lemma linked_cong:
  "(\<And>e. e \<in> set (butlast N) \<Longrightarrow> nxt h' e = nxt h e) \<Longrightarrow> (\<And>e. e \<in> set (tl N) \<Longrightarrow> prv h' e = prv h e) \<Longrightarrow>
   successively (linked h') N = successively (linked h) N"
proof (induction N rule: induct_list012)
  case (3 x y zs)
  then show ?case by (auto simp: linked_def)
qed simp_all

lemma linked_cong_left:
  "(\<And>e. e \<in> set A \<Longrightarrow> nxt h' e = nxt h e) \<Longrightarrow> (\<And>e. e \<in> set (A @ [p]) \<Longrightarrow> prv h' e = prv h e) \<Longrightarrow>
   successively (linked h') (A @ [p]) = successively (linked h) (A @ [p])"
  by (rule linked_cong) (auto dest: list.set_sel(2) [rotated] simp: butlast_append)

lemma linked_cong_right:
  "(\<And>e. e \<in> set (n # B) \<Longrightarrow> nxt h' e = nxt h e) \<Longrightarrow> (\<And>e. e \<in> set B \<Longrightarrow> prv h' e = prv h e) \<Longrightarrow>
   successively (linked h') (n # B) = successively (linked h) (n # B)"
  by (rule linked_cong) (auto dest: in_set_butlastD split: if_splits)

lemma is_list_frame:
  assumes "is_list h l xs" and "same_outside S h h'" and "S \<inter> set (nodes l xs) = {}"
  shows "is_list h' l xs"
proof -
  have eq: "prv h' e = prv h e" "nxt h' e = nxt h e" if "e \<in> set (nodes l xs)" for e
    using assms(2,3) that by (auto simp: same_outside_def)
  have "successively (linked h') (nodes l xs) = successively (linked h) (nodes l xs)"
    by (rule linked_cong) (auto intro!: eq dest: in_set_butlastD simp: nodes_def)
  then show ?thesis
    using assms(1) eq by (simp add: is_list_def nodes_def)
qed

text \<open>Splitting the nodes of a list around a point: the last node before it and the first after it.\<close>

lemma nodes_split:
  obtains A p n B where "head_of l # ys = A @ [p]" and "zs @ [tail_of l] = n # B"
    and "nodes l (ys @ zs) = A @ [p, n] @ B" and "p = last (head_of l # ys)" and "n = hd (zs @ [tail_of l])"
proof -
  have "head_of l # ys = butlast (head_of l # ys) @ [last (head_of l # ys)]"
    using append_butlast_last_id [of "head_of l # ys"] by (simp del: append_butlast_last_id)
  moreover have "zs @ [tail_of l] = hd (zs @ [tail_of l]) # tl (zs @ [tail_of l])" by (cases zs) simp_all
  ultimately show thesis
    using that [of "butlast (head_of l # ys)" "last (head_of l # ys)" "hd (zs @ [tail_of l])" "tl (zs @ [tail_of l])"]
    by (simp add: nodes_def)
qed

lemma is_list_point:
  assumes "is_list h l (ys @ zs)"
  shows "nxt h (last (head_of l # ys)) = hd (zs @ [tail_of l])" and "prv h (hd (zs @ [tail_of l])) = last (head_of l # ys)"
    and "last (head_of l # ys) \<noteq> NULL" and "hd (zs @ [tail_of l]) \<noteq> NULL"
proof -
  obtain A p n B where s: "nodes l (ys @ zs) = A @ [p, n] @ B" "p = last (head_of l # ys)" "n = hd (zs @ [tail_of l])"
    by (rule nodes_split [of l ys zs]) blast
  have "linked h p n" "p \<noteq> NULL" "n \<noteq> NULL"
    using assms unfolding is_list_def s(1) by (auto simp: successively_append_iff)
  with s show "nxt h (last (head_of l # ys)) = hd (zs @ [tail_of l])" "prv h (hd (zs @ [tail_of l])) = last (head_of l # ys)"
    "last (head_of l # ys) \<noteq> NULL" "hd (zs @ [tail_of l]) \<noteq> NULL"
    by (simp_all add: linked_def)
qed

lemma is_list_NULL: "is_list h l xs \<Longrightarrow> l \<noteq> NULL"
  by (simp add: is_list_def nodes_def head_of_def)

lemma after_point:
  assumes "is_list h l (ys @ zs)"
  shows "is_interior h (hd (zs @ [tail_of l])) \<or> is_tail h (hd (zs @ [tail_of l]))"
  using is_list_point [OF assms] by (auto simp: is_interior_def is_tail_def)

lemma element_interior:
  assumes "is_list h l (ys @ x # zs)"
  shows "is_interior h x"
  using is_list_point [of h l ys "x # zs"] is_list_point [of h l "ys @ [x]" zs] assms
  by (auto simp: is_interior_def)

lemma member_interior: "is_list h l xs \<Longrightarrow> x \<in> set xs \<Longrightarrow> is_interior h x"
  by (auto simp: in_set_conv_decomp intro: element_interior)

lemma list_begin_spec: "is_list h l xs \<Longrightarrow> list_begin h l = ret (hd (xs @ [tail_of l]))"
  using is_list_point(1) [of h l "[]" xs] by (simp add: list_begin_def is_list_NULL)

lemma list_end_spec: "is_list h l xs \<Longrightarrow> list_end l = ret (tail_of l)"
  by (simp add: list_end_def is_list_NULL)

lemma list_next_spec: "is_list h l (ys @ x # zs) \<Longrightarrow> list_next h x = ret (hd (zs @ [tail_of l]))"
  using element_interior is_list_point(1) [of h l "ys @ [x]" zs] by (simp add: list_next_def)

lemma list_prev_spec: "is_list h l (ys @ zs) \<Longrightarrow> list_prev h (hd (zs @ [tail_of l])) = ret (last (head_of l # ys))"
  using after_point is_list_point(2) by (simp add: list_prev_def)

lemma list_empty_spec: "is_list h l xs \<Longrightarrow> list_empty h l = ret (xs = [])"
proof -
  assume l: "is_list h l xs"
  then have "hd (xs @ [tail_of l]) = tail_of l \<longleftrightarrow> xs = []"
    by (cases xs) (auto simp: is_list_def nodes_def)
  with l show ?thesis by (simp add: list_empty_def list_begin_spec list_end_spec)
qed

section \<open>Operations\<close>

lemma is_listI:
  assumes "nodes l xs = N" and "successively (linked h) N" and "distinct N" and "NULL \<notin> set N"
    and "prv h (head_of l) = NULL" and "nxt h (tail_of l) = NULL"
  shows "is_list h l xs"
  using assms by (simp add: is_list_def)

text \<open>The head has no predecessor and the tail no successor, in lists that share their headers.\<close>

lemma ends_kept:
  assumes "is_list h l xs" and "prv h' (head_of l) = prv h (head_of l)" and "nxt h' (tail_of l) = nxt h (tail_of l)"
  shows "prv h' (head_of l) = NULL" and "nxt h' (tail_of l) = NULL"
  using assms by (simp_all add: is_list_def)

lemma list_init_spec:
  assumes "l \<noteq> NULL" and "tail_of l \<noteq> NULL"
  shows "returns (list_init h l) (\<lambda>h'. is_list h' l [] \<and> same_outside {head_of l, tail_of l} h h')"
proof -
  have "head_of l \<noteq> tail_of l" by (simp add: head_of_def tail_of_def)
  then show ?thesis
    using assms
    by (simp add: list_init_def Let_def is_list_def nodes_def linked_def same_outside_def head_of_def)
qed

lemma list_insert_spec:
  assumes l: "is_list h l (ys @ zs)" and e: "elem \<noteq> NULL" "elem \<notin> set (nodes l (ys @ zs))"
  shows "returns (list_insert h (hd (zs @ [tail_of l])) elem) (\<lambda>h'. is_list h' l (ys @ elem # zs) \<and>
    same_outside (insert elem (set (nodes l (ys @ zs)))) h h')"
proof -
  obtain A p n B where s: "head_of l # ys = A @ [p]" "zs @ [tail_of l] = n # B" "nodes l (ys @ zs) = A @ [p, n] @ B"
    "p = last (head_of l # ys)" "n = hd (zs @ [tail_of l])"
    by (rule nodes_split)
  have old: "successively (linked h) (A @ [p])" "successively (linked h) (n # B)" "distinct (A @ [p, n] @ B)"
    "NULL \<notin> set (A @ [p, n] @ B)" "prv h n = p" "elem \<notin> set (A @ [p, n] @ B)"
    using l e is_list_point(2) [OF l] s(4,5) unfolding is_list_def s(3) by (auto simp: successively_append_iff)
  define h' where "h' = set_prev n elem (set_next p elem (set_next elem n (set_prev elem p h)))"
  have ins: "list_insert h n elem = ret h'"
    using after_point [OF l] e old(4-6) s(5) by (simp add: list_insert_def h'_def)
  have "successively (linked h') (A @ [p]) = successively (linked h) (A @ [p])"
    using old by (intro linked_cong_left) (auto simp: h'_def)
  moreover have "successively (linked h') (n # B) = successively (linked h) (n # B)"
    using old by (intro linked_cong_right) (auto simp: h'_def)
  moreover have "linked h' p elem" "linked h' elem n" using old by (auto simp: h'_def linked_def)
  ultimately have "successively (linked h') (A @ [p, elem, n] @ B)"
    using old(1,2) by (auto simp: successively_append_iff)
  moreover have "nodes l (ys @ elem # zs) = A @ [p, elem, n] @ B"
    using s(1,2) by (simp add: nodes_def)
  moreover have "prv h' (head_of l) = prv h (head_of l)" "nxt h' (tail_of l) = nxt h (tail_of l)"
  proof -
    have "head_of l \<in> set (A @ [p])" "tail_of l \<in> set (n # B)" unfolding s(1,2) [symmetric] by auto
    then show "prv h' (head_of l) = prv h (head_of l)" "nxt h' (tail_of l) = nxt h (tail_of l)"
      using old by (auto simp: h'_def)
  qed
  ultimately have "is_list h' l (ys @ elem # zs)"
    using old e ends_kept [OF l] by (intro is_listI) auto
  moreover have "same_outside (insert elem (set (nodes l (ys @ zs)))) h h'"
    unfolding s(3) by (auto simp: h'_def same_outside_def)
  ultimately show ?thesis using ins s(5) by simp
qed

lemma list_remove_spec:
  assumes l: "is_list h l (ys @ x # zs)"
  shows "returns (list_remove h x) (\<lambda>(r, h'). r = hd (zs @ [tail_of l]) \<and> is_list h' l (ys @ zs) \<and>
    same_outside (set (nodes l (ys @ zs))) h h')"
proof -
  obtain A p n B where s: "head_of l # ys = A @ [p]" "zs @ [tail_of l] = n # B" "nodes l (ys @ zs) = A @ [p, n] @ B"
    "p = last (head_of l # ys)" "n = hd (zs @ [tail_of l])"
    by (rule nodes_split)
  have N: "nodes l (ys @ x # zs) = A @ [p, x, n] @ B" using s(1,2) by (simp add: nodes_def)
  have old: "successively (linked h) (A @ [p])" "successively (linked h) (n # B)" "distinct (A @ [p, x, n] @ B)"
    "NULL \<notin> set (A @ [p, x, n] @ B)" "prv h x = p" "nxt h x = n"
    using l unfolding is_list_def N by (auto simp: successively_append_iff linked_def)
  define h' where "h' = set_prev n p (set_next p n h)"
  have rem: "list_remove h x = ret (n, h')"
    using element_interior [OF l] old by (simp add: list_remove_def Let_def h'_def)
  have "successively (linked h') (A @ [p]) = successively (linked h) (A @ [p])"
    using old by (intro linked_cong_left) (auto simp: h'_def)
  moreover have "successively (linked h') (n # B) = successively (linked h) (n # B)"
    using old by (intro linked_cong_right) (auto simp: h'_def)
  moreover have "linked h' p n" using old by (auto simp: h'_def linked_def)
  ultimately have "successively (linked h') (A @ [p, n] @ B)"
    using old(1,2) by (auto simp: successively_append_iff)
  moreover have "prv h' (head_of l) = prv h (head_of l)" "nxt h' (tail_of l) = nxt h (tail_of l)"
  proof -
    have "head_of l \<in> set (A @ [p])" "tail_of l \<in> set (n # B)" unfolding s(1,2) [symmetric] by auto
    then show "prv h' (head_of l) = prv h (head_of l)" "nxt h' (tail_of l) = nxt h (tail_of l)"
      using old by (auto simp: h'_def)
  qed
  ultimately have "is_list h' l (ys @ zs)"
    using old s(3) ends_kept [OF l] by (intro is_listI) auto
  moreover have "same_outside (set (nodes l (ys @ zs))) h h'"
    unfolding s(3) by (auto simp: h'_def same_outside_def)
  ultimately show ?thesis using rem s(5) by simp
qed

text \<open>
  Splicing changes the links at the ends of the segments only. \<open>spliced\<close> is the heap after
  \<^verbatim>\<open>list_splice\<close>, with the nodes on both sides of the two cuts named.
\<close>

lemma linked_cong_mid:
  assumes "distinct S" and "\<And>e. e \<in> set S \<Longrightarrow> e \<noteq> last S \<Longrightarrow> nxt h' e = nxt h e"
    and "\<And>e. e \<in> set S \<Longrightarrow> e \<noteq> hd S \<Longrightarrow> prv h' e = prv h e"
  shows "successively (linked h') S = successively (linked h) S"
proof (cases "S = []")
  case False
  have "distinct (butlast S @ [last S])" "distinct (hd S # tl S)" using assms(1) False by simp_all
  then have "last S \<notin> set (butlast S)" "hd S \<notin> set (tl S)" by (simp_all only: distinct_append distinct.simps, auto)
  then show ?thesis
    by (intro linked_cong assms(2,3)) (auto dest: in_set_butlastD list.set_sel(2) [OF False])
qed simp

definition spliced :: "addr \<Rightarrow> addr \<Rightarrow> addr \<Rightarrow> addr \<Rightarrow> addr \<Rightarrow> addr \<Rightarrow> lheap \<Rightarrow> lheap" where
  "spliced p m f g q n h =
     set_prev m g (set_next p f (set_next g m (set_prev f p (set_prev n q (set_next q n h)))))"

lemma list_splice_eq:
  assumes "m \<noteq> NULL" "f \<noteq> NULL" "n \<noteq> NULL" "p \<noteq> NULL" "q \<noteq> NULL" "g \<noteq> NULL"
    and "prv h m = p" "prv h f = q" "nxt h g = n" "prv h n = g" "is_interior h f" "is_interior h g"
    and "f \<noteq> n" "m \<noteq> n" "m \<noteq> f" "q \<noteq> g" "p \<noteq> g" "p \<noteq> q" "n \<noteq> f"
  shows "list_splice h m f n = ret (spliced p m f g q n h)"
  using assms
  by (simp add: list_splice_def list_prev_def is_interior_def is_tail_def spliced_def Let_def)

lemma spliced_links:
  "prv (spliced p m f g q n h) e = (if e = m then g else if e = f then p else if e = n then q else prv h e)"
  "nxt (spliced p m f g q n h) e = (if e = p then f else if e = g then m else if e = q then n else nxt h e)"
  by (auto simp: spliced_def)

lemma spliced_segment:
  assumes "distinct S" and "{m, f, n} \<inter> set S \<subseteq> {hd S}" and "{p, g, q} \<inter> set S \<subseteq> {last S}"
  shows "successively (linked (spliced p m f g q n h)) S = successively (linked h) S"
  using assms(1)
proof (rule linked_cong_mid)
  fix e assume e: "e \<in> set S"
  show "nxt (spliced p m f g q n h) e = nxt h e" if "e \<noteq> last S"
    using e that assms(3) by (auto simp: spliced_links)
  show "prv (spliced p m f g q n h) e = prv h e" if "e \<noteq> hd S"
    using e that assms(2) by (auto simp: spliced_links)
qed

text \<open>A segment \<open>F\<close> moves towards the front of its own list.\<close>

lemma splice_segments:
  assumes succ: "successively (linked h) (A @ M @ F @ B)" and dist: "distinct (A @ M @ F @ B)"
    and ne: "A \<noteq> []" "M \<noteq> []" "F \<noteq> []" "B \<noteq> []"
  shows "successively (linked (spliced (last A) (hd M) (hd F) (last F) (last M) (hd B) h)) (A @ F @ M @ B)"
proof -
  define p m f g q n where "p = last A" and "m = hd M" and "f = hd F" and "g = last F" and "q = last M" and "n = hd B"
  note names = p_def m_def f_def g_def q_def n_def
  have mem: "p \<in> set A" "m \<in> set M" "q \<in> set M" "f \<in> set F" "g \<in> set F" "n \<in> set B"
    using ne unfolding names by simp_all
  have disj: "set A \<inter> set M = {}" "set A \<inter> set F = {}" "set A \<inter> set B = {}" "set M \<inter> set F = {}"
    "set M \<inter> set B = {}" "set F \<inter> set B = {}" "distinct A" "distinct M" "distinct F" "distinct B"
    using dist by auto
  let ?h = "spliced p m f g q n h"
  have "successively (linked ?h) S = successively (linked h) S" if "S \<in> {A, M, F, B}" for S
  proof (rule spliced_segment)
    show "distinct S" using that disj by auto
    show "{m, f, n} \<inter> set S \<subseteq> {hd S}" using that mem disj by (auto simp: m_def f_def n_def)
    show "{p, g, q} \<inter> set S \<subseteq> {last S}" using that mem disj by (auto simp: p_def g_def q_def)
  qed
  moreover have "linked ?h p f" "linked ?h g m" "linked ?h q n"
    using mem disj unfolding linked_def spliced_links by (simp_all, blast+)
  ultimately show ?thesis
    using succ ne unfolding names by (auto simp: successively_append_iff)
qed

lemma list_splice_within:
  assumes l: "is_list h l (ys @ ms @ fs @ zs)" and ne: "ms \<noteq> []" "fs \<noteq> []"
  shows "returns (list_splice h (hd ms) (hd fs) (hd (zs @ [tail_of l]))) (\<lambda>h'. is_list h' l (ys @ fs @ ms @ zs) \<and>
    same_outside (set (nodes l (ys @ ms @ fs @ zs))) h h')"
proof -
  define A B where "A = head_of l # ys" and "B = zs @ [tail_of l]"
  have N: "nodes l (ys @ ms @ fs @ zs) = A @ ms @ fs @ B" "nodes l (ys @ fs @ ms @ zs) = A @ fs @ ms @ B"
    by (simp_all add: nodes_def A_def B_def)
  have A: "A \<noteq> []" "B \<noteq> []" "head_of l \<in> set A" "tail_of l \<in> set B" by (simp_all add: A_def B_def)
  define p m f g q n where "p = last A" and "m = hd ms" and "f = hd fs" and "g = last fs" and "q = last ms" and "n = hd B"
  note names = p_def m_def f_def g_def q_def n_def
  have mem: "p \<in> set A" "m \<in> set ms" "q \<in> set ms" "f \<in> set fs" "g \<in> set fs" "n \<in> set B"
    using ne A unfolding names by simp_all
  have succ: "successively (linked h) (A @ ms @ fs @ B)" and dist: "distinct (A @ ms @ fs @ B)"
    and nn: "NULL \<notin> set (A @ ms @ fs @ B)" using l unfolding is_list_def N(1) by blast+
  have disj: "set A \<inter> set ms = {}" "set A \<inter> set fs = {}" "set A \<inter> set B = {}" "set ms \<inter> set fs = {}"
    "set ms \<inter> set B = {}" "set fs \<inter> set B = {}" using dist by auto
  have old: "linked h p m" "linked h q f" "linked h g n"
    using succ ne A unfolding names by (auto simp: successively_append_iff)
  let ?h = "spliced p m f g q n h"
  have neq: "f \<noteq> n" "m \<noteq> n" "m \<noteq> f" "q \<noteq> g" "p \<noteq> g" "p \<noteq> q" "n \<noteq> f"
    using mem disj by blast+
  have null: "m \<noteq> NULL" "f \<noteq> NULL" "n \<noteq> NULL" "p \<noteq> NULL" "q \<noteq> NULL" "g \<noteq> NULL"
    using mem nn by auto
  have int: "is_interior h f" "is_interior h g"
    using mem member_interior [OF l] by simp_all
  have "list_splice h m f n = ret ?h"
    using old int by (intro list_splice_eq null neq) (simp_all add: linked_def)
  moreover have "successively (linked ?h) (A @ fs @ ms @ B)"
    using splice_segments [OF succ dist A(1) ne A(2)] unfolding names .
  then have "is_list ?h l (ys @ fs @ ms @ zs)"
  proof (rule is_listI [OF N(2)])
    show "distinct (A @ fs @ ms @ B)" "NULL \<notin> set (A @ fs @ ms @ B)" using dist nn by auto
    have "head_of l \<noteq> m" "head_of l \<noteq> f" "head_of l \<noteq> n" "tail_of l \<noteq> p" "tail_of l \<noteq> g" "tail_of l \<noteq> q"
      using A(3,4) mem disj by blast+
    then show "prv ?h (head_of l) = NULL" "nxt ?h (tail_of l) = NULL"
      using l by (simp_all add: spliced_links is_list_def)
  qed
  moreover have "same_outside (set (nodes l (ys @ ms @ fs @ zs))) h ?h"
    using mem unfolding same_outside_def N(1) spliced_links by auto
  ultimately show ?thesis by (simp add: names B_def)
qed

section \<open>Ends of a list\<close>

lemma list_push_back_spec:
  assumes "is_list h l xs" and "elem \<noteq> NULL" and "elem \<notin> set (nodes l xs)"
  shows "returns (list_push_back h l elem) (\<lambda>h'. is_list h' l (xs @ [elem]) \<and>
    same_outside (insert elem (set (nodes l xs))) h h')"
  using list_insert_spec [of h l xs "[]" elem] assms by (simp add: list_push_back_def list_end_spec)

lemma list_push_front_spec:
  assumes "is_list h l xs" and "elem \<noteq> NULL" and "elem \<notin> set (nodes l xs)"
  shows "returns (list_push_front h l elem) (\<lambda>h'. is_list h' l (elem # xs) \<and>
    same_outside (insert elem (set (nodes l xs))) h h')"
  using list_insert_spec [of h l "[]" xs elem] assms by (simp add: list_push_front_def list_begin_spec)

lemma list_front_spec: "is_list h l (x # xs) \<Longrightarrow> list_front h l = ret x"
  using is_list_point(1) [of h l "[]" "x # xs"] by (simp add: list_front_def list_empty_spec)

lemma list_back_spec: "is_list h l (xs @ [x]) \<Longrightarrow> list_back h l = ret x"
  using is_list_point(2) [of h l "xs @ [x]" "[]"] by (simp add: list_back_def list_empty_spec)

lemma list_front_empty: "is_list h l [] \<Longrightarrow> list_front h l = stop Assert_fail \<and> list_back h l = stop Assert_fail"
  by (simp add: list_front_def list_back_def list_empty_spec)

lemma list_pop_front_spec:
  assumes "is_list h l (x # xs)"
  shows "returns (list_pop_front h l) (\<lambda>(y, h'). y = x \<and> is_list h' l xs \<and> same_outside (set (nodes l xs)) h h')"
  using list_remove_spec [of h l "[]" x xs] assms
  by (auto simp: list_pop_front_def list_front_spec wp elim!: returnsE)

lemma list_pop_back_spec:
  assumes "is_list h l (xs @ [x])"
  shows "returns (list_pop_back h l) (\<lambda>(y, h'). y = x \<and> is_list h' l xs \<and> same_outside (set (nodes l xs)) h h')"
  using list_remove_spec [of h l xs x "[]"] assms
  by (auto simp: list_pop_back_def list_back_spec wp elim!: returnsE)

text \<open>
  A queue with first-in-first-out order, as the ready list, the waiters of a semaphore and the
  free lists rely on it: what is pushed comes out at the other end, in order.
\<close>

locale fifo_queue =
  fixes holds :: "'s \<Rightarrow> addr list \<Rightarrow> bool"
    and push :: "'s \<Rightarrow> addr \<Rightarrow> 's res"
    and pop :: "'s \<Rightarrow> (addr \<times> 's) res"
    and elem_ok :: "addr \<Rightarrow> bool"
  assumes push_law: "holds s xs \<Longrightarrow> elem_ok x \<Longrightarrow> x \<notin> set xs \<Longrightarrow> returns (push s x) (\<lambda>s'. holds s' (xs @ [x]))"
    and pop_law: "holds s (x # xs) \<Longrightarrow> returns (pop s) (\<lambda>(y, s'). y = x \<and> holds s' xs)"
begin

primrec push_all :: "addr list \<Rightarrow> 's \<Rightarrow> 's res" where
  "push_all [] s = ret s"
| "push_all (x # xs) s = andthen (push s x) (push_all xs)"

primrec pop_many :: "nat \<Rightarrow> 's \<Rightarrow> (addr list \<times> 's) res" where
  "pop_many 0 s = ret ([], s)"
| "pop_many (Suc n) s = andthen (pop s) (\<lambda>(x, s). andthen (pop_many n s) (\<lambda>(xs, s). ret (x # xs, s)))"

lemma push_all_holds:
  "holds s xs \<Longrightarrow> (\<forall>y \<in> set ys. elem_ok y) \<Longrightarrow> distinct (xs @ ys) \<Longrightarrow>
   returns (push_all ys s) (\<lambda>s'. holds s' (xs @ ys))"
proof (induction ys arbitrary: s xs)
  case (Cons y ys)
  obtain s' where "push s y = ret s'" "holds s' (xs @ [y])"
    using push_law [of s xs y] Cons.prems by (auto elim: returnsE)
  with Cons.IH [of s' "xs @ [y]"] Cons.prems show ?case by simp
qed simp

lemma pop_many_holds:
  "holds s (xs @ ys) \<Longrightarrow> returns (pop_many (length xs) s) (\<lambda>(zs, s'). zs = xs \<and> holds s' ys)"
proof (induction xs arbitrary: s)
  case (Cons x xs)
  obtain s' where "pop s = ret (x, s')" "holds s' (xs @ ys)"
    using pop_law [of s x "xs @ ys"] Cons.prems by (auto elim!: returnsE)
  with Cons.IH [of s'] show ?case by (auto elim!: returnsE)
qed simp

end

interpretation list_queue: fifo_queue "\<lambda>h. is_list h l" "\<lambda>h. list_push_back h l" "\<lambda>h. list_pop_front h l"
    "\<lambda>x. x \<noteq> NULL \<and> x \<noteq> head_of l \<and> x \<noteq> tail_of l" for l
proof unfold_locales
  fix s xs x
  assume "is_list s l xs" "x \<noteq> NULL \<and> x \<noteq> head_of l \<and> x \<noteq> tail_of l" "x \<notin> set xs"
  then show "returns (list_push_back s l x) (\<lambda>s'. is_list s' l (xs @ [x]))"
    by (intro returns_mono [OF list_push_back_spec]) (auto simp: nodes_def)
next
  fix s x xs
  assume "is_list s l (x # xs)"
  then show "returns (list_pop_front s l) (\<lambda>(y, s'). y = x \<and> is_list s' l xs)"
    by (rule returns_mono [OF list_pop_front_spec]) auto
qed

lemma list_size_spec:
  assumes l: "is_list h l xs"
  shows "list_size h l = ret (of_nat (length xs))"
proof -
  have "loop (\<lambda>(e, cnt). andthen (list_end l) (\<lambda>t.
       if e \<noteq> t then andthen (list_next h e) (\<lambda>e. ret (Inl (e, cnt + 1))) else ret (Inr cnt)))
      (hd (zs @ [tail_of l]), c) = ret (c + of_nat (length zs) :: size_t)" if "xs = ys @ zs" for ys zs c
    using that
  proof (induction zs arbitrary: ys c)
    case Nil
    show ?case by (subst loop.simps) (simp add: list_end_spec [OF l])
  next
    case (Cons z zs)
    have "z \<noteq> tail_of l" using l Cons.prems by (auto simp: is_list_def nodes_def)
    then show ?case
      using Cons.IH [of "ys @ [z]" "c + 1"] Cons.prems list_next_spec [of h l ys z zs] l
      by (subst loop.simps) (simp add: list_end_spec [OF l] add.assoc)
  qed
  from this [of "[]" xs 0] show ?thesis
    by (simp add: list_size_def list_begin_spec [OF l])
qed

text \<open>A list has fewer elements than there are addresses, so counters of elements do not wrap.\<close>

lemma is_list_length: "is_list h l xs \<Longrightarrow> length xs < 4294967296"
proof -
  assume l: "is_list h l xs"
  then have "distinct (map unat (nodes l xs))" by (simp add: is_list_def distinct_map inj_on_def word_unat_eq_iff)
  then have "length (nodes l xs) = card (set (map unat (nodes l xs)))" by (metis distinct_card length_map)
  also have "\<dots> \<le> card {..<4294967296 :: nat}" by (rule card_mono) (auto simp: image_subset_iff)
  finally show ?thesis by (simp add: nodes_def)
qed

section \<open>Reversal\<close>

text \<open>The heap with both links of every element of \<open>S\<close> exchanged.\<close>

definition swapped :: "addr set \<Rightarrow> lheap \<Rightarrow> lheap" where
  "swapped S h = h\<lparr>prv := (\<lambda>e. if e \<in> S then nxt h e else prv h e), nxt := (\<lambda>e. if e \<in> S then prv h e else nxt h e)\<rparr>"

lemma swap_links_swapped: "e \<notin> S \<Longrightarrow> swap_links e (swapped S h) = swapped (insert e S) h"
  by (auto simp: swap_links_def swapped_def set_prev_def set_next_def Let_def fun_eq_iff intro!: lheap.equality)

lemma list_reverse_loop:
  assumes l: "is_list h l (ys @ zs)"
  shows "loop (\<lambda>(e, h). andthen (list_end l) (\<lambda>t.
      if e \<noteq> t then let h = swap_links e h in ret (Inl (prv h e, h)) else ret (Inr h)))
    (hd (zs @ [tail_of l]), swapped (set ys) h) = ret (swapped (set (ys @ zs)) h)"
  using l
proof (induction zs arbitrary: ys)
  case Nil
  then show ?case by (subst loop.simps) (simp add: list_end_spec [OF Nil])
next
  case (Cons z zs)
  have z: "z \<noteq> tail_of l" "z \<notin> set ys" using Cons.prems by (auto simp: is_list_def nodes_def)
  have "nxt h z = hd (zs @ [tail_of l])" using is_list_point(1) [of h l "ys @ [z]" zs] Cons.prems by simp
  then have "prv (swapped (insert z (set ys)) h) z = hd (zs @ [tail_of l])" by (simp add: swapped_def)
  then show ?case
    using Cons.IH [of "ys @ [z]"] Cons.prems z
    by (subst loop.simps) (simp add: list_end_spec [OF Cons.prems] swap_links_swapped)
qed

lemma list_reverse_spec:
  assumes l: "is_list h l xs"
  shows "returns (list_reverse h l) (\<lambda>h'. is_list h' l (rev xs) \<and> same_outside (set (nodes l xs)) h h')"
proof (cases "xs = []")
  case True
  then show ?thesis using l list_empty_spec [OF l] by (simp add: list_reverse_def)
next
  case False
  define f g t where "f = hd xs" and "g = last xs" and "t = tail_of l"
  let ?l = "head_of l" and ?h1 = "swapped (set xs) h"
  have mem: "f \<in> set xs" "g \<in> set xs" using False by (simp_all add: f_def g_def)
  have d: "?l \<noteq> t" "?l \<notin> set xs" "t \<notin> set xs" "distinct xs" "NULL \<notin> set xs" "?l \<noteq> NULL" "t \<noteq> NULL"
    using l by (auto simp: is_list_def nodes_def t_def)
  have s: "successively (linked h) xs" "linked h ?l f" "linked h g t" "prv h ?l = NULL" "nxt h t = NULL"
    using l False by (auto simp: is_list_def nodes_def successively_append_iff successively_Cons f_def g_def t_def)
  have h1: "prv ?h1 e = (if e \<in> set xs then nxt h e else prv h e)" "nxt ?h1 e = (if e \<in> set xs then prv h e else nxt h e)" for e
    by (simp_all add: swapped_def)
  define h' where "h' = set_prev g ?l (set_next f t (set_prev t f (set_next ?l g ?h1)))"
  have h2: "swap_next_prev ?l t ?h1 = set_prev t f (set_next ?l g ?h1)"
    using s(2,3) d by (simp add: swap_next_prev_def h1 linked_def)
  have h3: "swap_next_prev f g (set_prev t f (set_next ?l g ?h1)) = h'"
  proof -
    have "f \<noteq> ?l" "g \<noteq> t" using mem d by auto
    then show ?thesis using s(2,3) mem by (auto simp: swap_next_prev_def h1 linked_def h'_def Let_def)
  qed
  have rev: "list_reverse h l = ret h'"
    using list_reverse_loop [of h l "[]" xs] l False d(1) h2 h3
    by (simp add: list_reverse_def list_empty_spec [OF l] list_begin_spec [OF l] swapped_def [of "{}"] Let_def t_def [symmetric])
  have "successively (\<lambda>a b. linked ?h1 b a) xs"
    by (rule successively_mono [OF s(1)]) (auto simp: linked_def h1)
  then have "successively (linked ?h1) (rev xs)" by (simp add: successively_rev)
  moreover have "successively (linked h') (rev xs) = successively (linked ?h1) (rev xs)"
    using d by (intro linked_cong_mid) (auto simp: h'_def hd_rev last_rev f_def g_def)
  moreover have "linked h' ?l g" "linked h' f t"
    using mem d by (auto simp: linked_def h'_def)
  ultimately have "successively (linked h') (nodes l (rev xs))"
    using False by (simp add: nodes_def successively_append_iff successively_Cons hd_rev last_rev f_def g_def t_def)
  moreover have "prv h' ?l = NULL" "nxt h' t = NULL"
    using s(4,5) mem d by (auto simp: h'_def h1)
  ultimately have "is_list h' l (rev xs)"
    using l by (auto simp: is_list_def nodes_def t_def)
  moreover have "same_outside (set (nodes l xs)) h h'"
    using mem by (auto simp: same_outside_def h'_def h1 nodes_def t_def)
  ultimately show ?thesis using rev by simp
qed

section \<open>Splicing between lists\<close>

lemma disjoint_elem: "A \<inter> B = {} \<Longrightarrow> x \<in> A \<Longrightarrow> y \<in> B \<Longrightarrow> x \<noteq> y"
  by blast

lemma list_splice_between:
  assumes l: "is_list h l (ys @ zs)" and m: "is_list h m (us @ fs @ vs)" and ne: "fs \<noteq> []"
    and disj: "set (nodes l (ys @ zs)) \<inter> set (nodes m (us @ fs @ vs)) = {}"
  shows "returns (list_splice h (hd (zs @ [tail_of l])) (hd fs) (hd (vs @ [tail_of m])))
    (\<lambda>h'. is_list h' l (ys @ fs @ zs) \<and> is_list h' m (us @ vs))"
proof -
  define A B C D where "A = head_of l # ys" and "B = zs @ [tail_of l]" and "C = head_of m # us" and "D = vs @ [tail_of m]"
  have N: "nodes l (ys @ zs) = A @ B" "nodes m (us @ fs @ vs) = C @ fs @ D"
    "nodes l (ys @ fs @ zs) = A @ fs @ B" "nodes m (us @ vs) = C @ D"
    by (simp_all add: nodes_def A_def B_def C_def D_def)
  have nonempty: "A \<noteq> []" "B \<noteq> []" "C \<noteq> []" "D \<noteq> []" "head_of l \<in> set A" "tail_of l \<in> set B"
    "head_of m \<in> set C" "tail_of m \<in> set D" by (simp_all add: A_def B_def C_def D_def)
  define p n f g q e where "p = last A" and "n = hd B" and "f = hd fs" and "g = last fs" and "q = last C" and "e = hd D"
  note names = p_def n_def f_def g_def q_def e_def
  have mem: "p \<in> set A" "n \<in> set B" "f \<in> set fs" "g \<in> set fs" "q \<in> set C" "e \<in> set D"
    using ne nonempty unfolding names by simp_all
  have succ: "successively (linked h) (A @ B)" "successively (linked h) (C @ fs @ D)"
    and dist: "distinct (A @ B)" "distinct (C @ fs @ D)" and nn: "NULL \<notin> set (A @ B)" "NULL \<notin> set (C @ fs @ D)"
    using l m unfolding is_list_def N by blast+
  have dj: "set A \<inter> set B = {}" "set A \<inter> set C = {}" "set A \<inter> set fs = {}" "set A \<inter> set D = {}"
    "set B \<inter> set C = {}" "set B \<inter> set fs = {}" "set B \<inter> set D = {}" "set C \<inter> set fs = {}" "set C \<inter> set D = {}"
    "set fs \<inter> set D = {}" "distinct A" "distinct B" "distinct C" "distinct D" "distinct fs"
    using dist disj unfolding N set_append distinct_append by blast+
  have old: "linked h p n" "linked h q f" "linked h g e"
    using succ ne nonempty unfolding names by (auto simp: successively_append_iff)
  let ?h = "spliced p n f g q e h"
  have neq: "f \<noteq> e" "n \<noteq> e" "n \<noteq> f" "q \<noteq> g" "p \<noteq> g" "p \<noteq> q" "e \<noteq> f"
    using disjoint_elem [OF dj(10) mem(3,6)] disjoint_elem [OF dj(7) mem(2,6)] disjoint_elem [OF dj(6) mem(2,3)]
      disjoint_elem [OF dj(8) mem(5,4)] disjoint_elem [OF dj(3) mem(1,4)] disjoint_elem [OF dj(2) mem(1,5)] by auto
  have null: "n \<noteq> NULL" "f \<noteq> NULL" "e \<noteq> NULL" "p \<noteq> NULL" "q \<noteq> NULL" "g \<noteq> NULL"
    using mem nn by auto
  have "list_splice h n f e = ret ?h"
    using old mem member_interior [OF m] by (intro list_splice_eq null neq) (simp_all add: linked_def)
  moreover have seg: "successively (linked ?h) S = successively (linked h) S" if "S \<in> {A, B, C, D, fs}" for S
  proof (rule spliced_segment)
    show "distinct S" using that dj(11-15) by auto
    have "n \<notin> set A" "f \<notin> set A" "e \<notin> set A" "f \<notin> set B" "e \<notin> set B" "n \<notin> set C" "f \<notin> set C" "e \<notin> set C"
      "n \<notin> set D" "f \<notin> set D" "n \<notin> set fs" "e \<notin> set fs"
      using mem(2,3,6) dj(1-10) unfolding disjoint_iff by auto
    then show "{n, f, e} \<inter> set S \<subseteq> {hd S}" using that by (auto simp: n_def f_def e_def)
    have "g \<notin> set A" "q \<notin> set A" "p \<notin> set B" "g \<notin> set B" "q \<notin> set B" "p \<notin> set C" "g \<notin> set C"
      "p \<notin> set D" "g \<notin> set D" "q \<notin> set D" "p \<notin> set fs" "q \<notin> set fs"
      using mem(1,4,5) dj(1-10) unfolding disjoint_iff by auto
    then show "{p, g, q} \<inter> set S \<subseteq> {last S}" using that by (auto simp: p_def g_def q_def)
  qed
  have link: "linked ?h p f" "linked ?h g n" "linked ?h q e"
    unfolding linked_def spliced_links using neq neq [symmetric] by simp_all
  have hl: "head_of l \<notin> {n, f, e}" "tail_of l \<notin> {p, g, q}" "head_of m \<notin> {n, f, e}" "tail_of m \<notin> {p, g, q}"
    using nonempty(5) [THEN disjoint_elem [OF dj(1)], OF mem(2)] nonempty(5) [THEN disjoint_elem [OF dj(3)], OF mem(3)]
      nonempty(5) [THEN disjoint_elem [OF dj(4)], OF mem(6)] disjoint_elem [OF dj(1) mem(1) nonempty(6)]
      nonempty(6) [THEN disjoint_elem [OF dj(6)], OF mem(4)] nonempty(6) [THEN disjoint_elem [OF dj(5)], OF mem(5)]
      disjoint_elem [OF dj(5) mem(2) nonempty(7)] nonempty(7) [THEN disjoint_elem [OF dj(8)], OF mem(3)]
      nonempty(7) [THEN disjoint_elem [OF dj(9)], OF mem(6)] disjoint_elem [OF dj(4) mem(1) nonempty(8)]
      disjoint_elem [OF dj(10) mem(4) nonempty(8)] disjoint_elem [OF dj(9) mem(5) nonempty(8)] by auto
  have "is_list ?h l (ys @ fs @ zs)"
  proof (rule is_listI [OF N(3)])
    show "successively (linked ?h) (A @ fs @ B)"
      using succ seg link nonempty ne unfolding names by (auto simp: successively_append_iff)
    show "distinct (A @ fs @ B)" "NULL \<notin> set (A @ fs @ B)" using dj nn by auto
    show "prv ?h (head_of l) = NULL" "nxt ?h (tail_of l) = NULL"
      using l hl by (auto simp: spliced_links is_list_def)
  qed
  moreover have "is_list ?h m (us @ vs)"
  proof (rule is_listI [OF N(4)])
    show "successively (linked ?h) (C @ D)"
      using succ seg link nonempty ne unfolding names by (auto simp: successively_append_iff)
    show "distinct (C @ D)" "NULL \<notin> set (C @ D)" using dj nn by auto
    show "prv ?h (head_of m) = NULL" "nxt ?h (tail_of m) = NULL"
      using m hl by (auto simp: spliced_links is_list_def)
  qed
  ultimately show ?thesis by (simp add: names B_def D_def)
qed

section \<open>Properties\<close>

text \<open>An empty list at address 16 and a list of three elements at address 64.\<close>

definition sample_heap :: lheap where
  "sample_heap = \<lparr>prv = (\<lambda>_. NULL)(24 := 16, 100 := 64, 104 := 100, 108 := 104, 72 := 108),
     nxt = (\<lambda>_. NULL)(16 := 24, 64 := 100, 100 := 104, 104 := 108, 108 := 72)\<rparr>"

lemma sample_empty: "is_list sample_heap 16 []"
  and sample_three: "is_list sample_heap 64 [100, 104, 108]"
  by (simp_all add: is_list_def nodes_def head_of_def tail_of_def linked_def sample_heap_def)

text \<open>
  C17: Lists are first-in-first-out queues. Pushing any number of distinct elements at the back
  of a list and then popping as many from the front succeeds and gives the elements that were
  in the list before, then the pushed ones in the order of pushing; the rest stays.
\<close>

theorem list_fifo_order:
  assumes "is_list h l xs" and "\<forall>y \<in> set ys. y \<noteq> NULL \<and> y \<noteq> head_of l \<and> y \<noteq> tail_of l" and "distinct (xs @ ys)"
    and "n \<le> length (xs @ ys)"
  shows "returns (andthen (list_queue.push_all l ys h) (list_queue.pop_many l n))
    (\<lambda>(zs, h'). zs = take n (xs @ ys) \<and> is_list h' l (drop n (xs @ ys)))"
proof -
  obtain h1 where h1: "list_queue.push_all l ys h = ret h1" "is_list h1 l (xs @ ys)"
    using list_queue.push_all_holds [of h l xs ys] assms(1-3) by (auto elim: returnsE)
  have "is_list h1 l (take n (xs @ ys) @ drop n (xs @ ys))" using h1(2) by (simp only: append_take_drop_id)
  moreover have "length (take n (xs @ ys)) = n" using assms(4) by (simp only: length_take min_absorb2)
  ultimately show ?thesis
    using list_queue.pop_many_holds [of h1 l "take n (xs @ ys)" "drop n (xs @ ys)"] h1(1) by (simp only: andthen_simps)
qed

theorem list_fifo_order_witness:
  "returns (andthen (list_queue.push_all 16 [100, 200] sample_heap) (list_queue.pop_many 16 1))
    (\<lambda>(zs, h'). zs = [100] \<and> is_list h' 16 [200])"
  using list_fifo_order [OF sample_empty, of "[100, 200]" 1] by (simp add: head_of_def tail_of_def)

text \<open>
  C18: Insertion and removal are inverse. An element that is in no list can be inserted before
  any element or at the end of a list; it then stands at exactly this point, and removing it
  gives back the list as it was and returns the element before which it stood. Links of
  other elements of memory are never touched.
\<close>

theorem list_insert_remove:
  assumes "is_list h l (ys @ zs)" and "elem \<noteq> NULL" and "elem \<notin> set (nodes l (ys @ zs))"
  shows "returns (list_insert h (hd (zs @ [tail_of l])) elem) (\<lambda>h1. is_list h1 l (ys @ elem # zs) \<and>
    returns (list_remove h1 elem) (\<lambda>(e, h2). e = hd (zs @ [tail_of l]) \<and> is_list h2 l (ys @ zs) \<and>
      same_outside (insert elem (set (nodes l (ys @ zs)))) h h2))"
proof -
  obtain h1 where h1: "list_insert h (hd (zs @ [tail_of l])) elem = ret h1" "is_list h1 l (ys @ elem # zs)"
    "same_outside (insert elem (set (nodes l (ys @ zs)))) h h1"
    using list_insert_spec [OF assms] by (auto elim: returnsE)
  have "same_outside (insert elem (set (nodes l (ys @ zs)))) h h2"
    if "same_outside (set (nodes l (ys @ zs))) h1 h2" for h2
    using same_outside_trans [OF h1(3) same_outside_mono [OF that]] by blast
  then show ?thesis
    using h1 list_remove_spec [OF h1(2)] by (auto elim!: returnsE)
qed

theorem list_insert_remove_witness:
  "returns (list_insert sample_heap 104 200) (\<lambda>h1. is_list h1 64 [100, 200, 104, 108] \<and>
    returns (list_remove h1 200) (\<lambda>(e, h2). e = 104 \<and> is_list h2 64 [100, 104, 108]))"
  using list_insert_remove [of sample_heap 64 "[100]" "[104, 108]" 200] sample_three
  by (auto simp: nodes_def head_of_def tail_of_def elim!: returnsE)

text \<open>
  \<^verbatim>\<open>list_splice\<close> moves a segment between two lists: if the two lists share no nodes, the
  elements from \<^verbatim>\<open>first\<close> up to \<^verbatim>\<open>last\<close> (exclusive) leave their list and stand, in the same
  order, just before \<^verbatim>\<open>before\<close> in the other one.
\<close>

lemma list_splice_moves:
  assumes "is_list h l (ys @ zs)" and "is_list h m (us @ fs @ vs)" and "fs \<noteq> []"
    and "set (nodes l (ys @ zs)) \<inter> set (nodes m (us @ fs @ vs)) = {}"
  shows "returns (list_splice h (hd (zs @ [tail_of l])) (hd fs) (hd (vs @ [tail_of m])))
    (\<lambda>h'. is_list h' l (ys @ fs @ zs) \<and> is_list h' m (us @ vs))"
  using assms by (rule list_splice_between)

text \<open>
  \<^verbatim>\<open>list_reverse\<close> terminates and reverses the order of the elements, in place: it touches
  no link outside the list, and reversing twice restores the order.
\<close>

lemma list_reverse_reverses:
  assumes "is_list h l xs"
  shows "returns (list_reverse h l) (\<lambda>h1. is_list h1 l (rev xs) \<and> same_outside (set (nodes l xs)) h h1 \<and>
    returns (list_reverse h1 l) (\<lambda>h2. is_list h2 l xs))"
proof -
  obtain h1 where h1: "list_reverse h l = ret h1" "is_list h1 l (rev xs)" "same_outside (set (nodes l xs)) h h1"
    using list_reverse_spec [OF assms] by (auto elim: returnsE)
  then show ?thesis using list_reverse_spec [OF h1(2)] by (auto elim!: returnsE)
qed

text \<open>
  Ends, size and emptiness. \<^verbatim>\<open>list_size\<close> of a list terminates and is its length, which
  never wraps around; \<^verbatim>\<open>list_empty\<close> tells whether there is an element; the front and the back
  are the first and the last element, and on an empty list asking for either fails an
  assertion.
\<close>

lemma list_ends_exact:
  assumes "is_list h l xs"
  shows "returns (list_size h l) (\<lambda>n. unat n = length xs) \<and> list_empty h l = ret (xs = []) \<and>
    list_front h l = (if xs = [] then stop Assert_fail else ret (hd xs)) \<and>
    list_back h l = (if xs = [] then stop Assert_fail else ret (last xs)) \<and>
    list_rbegin h l = ret (last (head_of l # xs))"
proof -
  have "unat (of_nat (length xs) :: size_t) = length xs"
    using is_list_length [OF assms] by (simp add: unat_of_nat)
  moreover have "list_front h l = ret (hd xs)" "list_back h l = ret (last xs)" if "xs \<noteq> []"
    using list_front_spec [of h l "hd xs" "tl xs"] list_back_spec [of h l "butlast xs" "last xs"] assms that by simp_all
  moreover have "list_rbegin h l = ret (last (head_of l # xs))"
    using is_list_point(2) [of h l xs "[]"] assms is_list_NULL [OF assms] by (simp add: list_rbegin_def)
  ultimately show ?thesis
    using assms list_front_empty [of h l] by (auto simp: list_size_spec list_empty_spec)
qed

end
