(* ===== verification/List_Sort.thy ===== *)
theory List_Sort
  imports Linked_List "HOL-Library.Multiset"
begin

text \<open>
  The second half of \<^verbatim>\<open>lib/kernel/list.c\<close>: sorting, ordered insertion, removal of duplicates,
  minimum and maximum, with a comparison function \<open>lt\<close> that has its auxiliary data supplied.

  The natural merge sort is refined in two steps: its loops over the heap compute the functions
  \<open>run_rest\<close>, \<open>merge\<close> and \<open>pass\<close> on lists of elements, and these sort. For a strict weak order
  (locale \<open>weak_order\<close>) the sort terminates, since every pass with more than one run leaves
  fewer descents, and its result is the stable sort of the elements.
\<close>

section \<open>Sorting\<close>

definition is_sorted :: "(addr \<Rightarrow> addr \<Rightarrow> bool) \<Rightarrow> lheap \<Rightarrow> addr \<Rightarrow> addr \<Rightarrow> bool res" where
  "is_sorted lt h a b =
     (if a \<noteq> b then
        loop (\<lambda>a. andthen (list_next h a) (\<lambda>a.
          if a \<noteq> b then andthen (list_prev h a) (\<lambda>p. if lt a p then ret (Inr False) else ret (Inl a))
          else ret (Inr True))) a
      else ret True)"

definition find_end_of_run :: "(addr \<Rightarrow> addr \<Rightarrow> bool) \<Rightarrow> lheap \<Rightarrow> addr \<Rightarrow> addr \<Rightarrow> addr res" where
  "find_end_of_run lt h a b =
     ASSERT (a \<noteq> NULL) (ASSERT (b \<noteq> NULL) (ASSERT (a \<noteq> b)
       (loop (\<lambda>a. andthen (list_next h a) (\<lambda>a.
          if a \<noteq> b then andthen (list_prev h a) (\<lambda>p. if \<not> lt a p then ret (Inl a) else ret (Inr a))
          else ret (Inr a))) a)))"

definition inplace_merge :: "(addr \<Rightarrow> addr \<Rightarrow> bool) \<Rightarrow> lheap \<Rightarrow> addr \<Rightarrow> addr \<Rightarrow> addr \<Rightarrow> lheap res" where
  "inplace_merge lt h a0 a1b0 b1 =
     ASSERT (a0 \<noteq> NULL) (ASSERT (a1b0 \<noteq> NULL) (ASSERT (b1 \<noteq> NULL)
       (andthen (is_sorted lt h a0 a1b0) (\<lambda>s1. ASSERT s1
         (andthen (is_sorted lt h a1b0 b1) (\<lambda>s2. ASSERT s2
           (loop (\<lambda>(a0, a1b0, h).
              if a0 \<noteq> a1b0 \<and> a1b0 \<noteq> b1 then
                if \<not> lt a1b0 a0 then andthen (list_next h a0) (\<lambda>a0. ret (Inl (a0, a1b0, h)))
                else andthen (list_next h a1b0) (\<lambda>a1b0.
                  andthen (list_prev h a1b0) (\<lambda>p.
                  andthen (list_splice h a0 p a1b0) (\<lambda>h. ret (Inl (a0, a1b0, h)))))
              else ret (Inr h)) (a0, a1b0, h))))))))"

text \<open>One pass of \<^verbatim>\<open>list_sort\<close>: the body of its \<^verbatim>\<open>do\<close> loop.\<close>

definition list_sort_pass :: "(addr \<Rightarrow> addr \<Rightarrow> bool) \<Rightarrow> addr \<Rightarrow> lheap \<Rightarrow> (size_t \<times> lheap) res" where
  "list_sort_pass lt l h = andthen (list_begin h l) (\<lambda>a0.
     loop (\<lambda>(a0, output_run_cnt, h). andthen (list_end l) (\<lambda>t.
       if a0 \<noteq> t then
         let output_run_cnt = output_run_cnt + 1 in
         andthen (find_end_of_run lt h a0 t) (\<lambda>a1b0.
         if a1b0 = t then ret (Inr (output_run_cnt, h))
         else andthen (find_end_of_run lt h a1b0 t) (\<lambda>b1.
           andthen (inplace_merge lt h a0 a1b0 b1) (\<lambda>h. ret (Inl (b1, output_run_cnt, h)))))
       else ret (Inr (output_run_cnt, h)))) (a0, 0, h))"

definition list_sort :: "(addr \<Rightarrow> addr \<Rightarrow> bool) \<Rightarrow> lheap \<Rightarrow> addr \<Rightarrow> lheap res" where
  "list_sort lt h l = ASSERT (l \<noteq> NULL)
     (andthen (loop (\<lambda>h. andthen (list_sort_pass lt l h) (\<lambda>(output_run_cnt, h).
          if 1 < output_run_cnt then ret (Inl h) else ret (Inr h))) h) (\<lambda>h.
      andthen (list_begin h l) (\<lambda>b. andthen (list_end l) (\<lambda>e.
      andthen (is_sorted lt h b e) (\<lambda>s. ASSERT s (ret h))))))"

definition list_insert_ordered :: "(addr \<Rightarrow> addr \<Rightarrow> bool) \<Rightarrow> lheap \<Rightarrow> addr \<Rightarrow> addr \<Rightarrow> lheap res" where
  "list_insert_ordered lt h l elem = ASSERT (l \<noteq> NULL) (ASSERT (elem \<noteq> NULL)
     (andthen (list_begin h l) (\<lambda>e.
      andthen (loop (\<lambda>e. andthen (list_end l) (\<lambda>t.
        if e \<noteq> t then if lt elem e then ret (Inr e) else andthen (list_next h e) (\<lambda>e. ret (Inl e))
        else ret (Inr e))) e) (\<lambda>e. list_insert h e elem))))"

text \<open>\<^verbatim>\<open>duplicates\<close> may be a null pointer.\<close>

definition list_unique :: "(addr \<Rightarrow> addr \<Rightarrow> bool) \<Rightarrow> lheap \<Rightarrow> addr \<Rightarrow> addr \<Rightarrow> lheap res" where
  "list_unique lt h l duplicates = ASSERT (l \<noteq> NULL)
     (andthen (list_empty h l) (\<lambda>empty. if empty then ret h else
        andthen (list_begin h l) (\<lambda>elem.
        loop (\<lambda>(elem, h). andthen (list_next h elem) (\<lambda>next. andthen (list_end l) (\<lambda>t.
          if next \<noteq> t then
            if \<not> lt elem next \<and> \<not> lt next elem then
              andthen (list_remove h next) (\<lambda>(_, h).
              if duplicates \<noteq> NULL
              then andthen (list_push_back h duplicates next) (\<lambda>h. ret (Inl (elem, h)))
              else ret (Inl (elem, h)))
            else ret (Inl (next, h))
          else ret (Inr h)))) (elem, h))))"

definition list_max :: "(addr \<Rightarrow> addr \<Rightarrow> bool) \<Rightarrow> lheap \<Rightarrow> addr \<Rightarrow> addr res" where
  "list_max lt h l = andthen (list_begin h l) (\<lambda>max. andthen (list_end l) (\<lambda>t.
     if max \<noteq> t then
       andthen (list_next h max) (\<lambda>e.
       loop (\<lambda>(e, max). andthen (list_end l) (\<lambda>t.
         if e \<noteq> t then andthen (list_next h e) (\<lambda>e'. ret (Inl (e', if lt max e then e else max)))
         else ret (Inr max))) (e, max))
     else ret max))"

definition list_min :: "(addr \<Rightarrow> addr \<Rightarrow> bool) \<Rightarrow> lheap \<Rightarrow> addr \<Rightarrow> addr res" where
  "list_min lt h l = andthen (list_begin h l) (\<lambda>min. andthen (list_end l) (\<lambda>t.
     if min \<noteq> t then
       andthen (list_next h min) (\<lambda>e.
       loop (\<lambda>(e, min). andthen (list_end l) (\<lambda>t.
         if e \<noteq> t then andthen (list_next h e) (\<lambda>e'. ret (Inl (e', if lt e min then e else min)))
         else ret (Inr min))) (e, min))
     else ret min))"

section \<open>The merge sort on lists of elements\<close>

text \<open>
  What the loops of the sort compute, as functions on lists. A run is a maximal segment without
  a descent, an element that is less than the one before it.
\<close>

abbreviation asc :: "(addr \<Rightarrow> addr \<Rightarrow> bool) \<Rightarrow> addr list \<Rightarrow> bool" where
  "asc lt xs \<equiv> successively (\<lambda>a b. \<not> lt b a) xs"

fun run_tail :: "(addr \<Rightarrow> addr \<Rightarrow> bool) \<Rightarrow> addr \<Rightarrow> addr list \<Rightarrow> addr list" where
  "run_tail lt x [] = []"
| "run_tail lt x (y # ys) = (if lt y x then [] else y # run_tail lt y ys)"

fun run_rest :: "(addr \<Rightarrow> addr \<Rightarrow> bool) \<Rightarrow> addr \<Rightarrow> addr list \<Rightarrow> addr list" where
  "run_rest lt x [] = []"
| "run_rest lt x (y # ys) = (if lt y x then y # ys else run_rest lt y ys)"

fun merge :: "(addr \<Rightarrow> addr \<Rightarrow> bool) \<Rightarrow> addr list \<Rightarrow> addr list \<Rightarrow> addr list" where
  "merge lt [] bs = bs"
| "merge lt as [] = as"
| "merge lt (a # as) (b # bs) = (if \<not> lt b a then a # merge lt as (b # bs) else b # merge lt (a # as) bs)"

lemma run_append: "run_tail lt x xs @ run_rest lt x xs = xs"
  by (induction lt x xs rule: run_tail.induct) simp_all

lemma length_run_rest: "length (run_rest lt x xs) \<le> length xs"
  by (induction lt x xs rule: run_rest.induct) (auto intro: le_SucI)

function (sequential) pass :: "(addr \<Rightarrow> addr \<Rightarrow> bool) \<Rightarrow> addr list \<Rightarrow> nat \<times> addr list" where
  "pass lt [] = (0, [])"
| "pass lt (x # xs) = (case run_rest lt x xs of
     [] \<Rightarrow> (1, x # xs)
   | y # ys \<Rightarrow> (case pass lt (run_rest lt y ys) of (n, out) \<Rightarrow>
       (Suc n, merge lt (x # run_tail lt x xs) (y # run_tail lt y ys) @ out)))"
  by pat_completeness auto
termination
proof (relation "measure (\<lambda>(lt, xs). length xs)")
  fix lt x xs y ys assume "run_rest lt x xs = y # ys"
  then have "length ys < length xs" using length_run_rest [of lt x xs] by simp
  then show "((lt, run_rest lt y ys), lt, x # xs) \<in> measure (\<lambda>(lt, xs). length xs)"
    using length_run_rest [of lt y ys] by simp
qed simp

fun descents :: "(addr \<Rightarrow> addr \<Rightarrow> bool) \<Rightarrow> addr list \<Rightarrow> nat" where
  "descents lt [] = 0"
| "descents lt [x] = 0"
| "descents lt (x # y # zs) = (if lt y x then 1 else 0) + descents lt (y # zs)"

lemma descents_asc: "descents lt xs = 0 \<longleftrightarrow> asc lt xs"
  by (induction lt xs rule: descents.induct) simp_all

lemma descents_append: "descents lt (xs @ ys) \<le> descents lt xs + descents lt ys + (if xs = [] \<or> ys = [] then 0 else 1)"
proof (induction lt xs rule: descents.induct)
  case (2 lt x)
  then show ?case by (cases ys) simp_all
qed simp_all

lemma asc_run: "asc lt (x # run_tail lt x xs)"
  by (induction lt x xs rule: run_tail.induct) simp_all

lemma run_rest_descents:
  "descents lt (x # xs) = (case run_rest lt x xs of [] \<Rightarrow> 0 | y # ys \<Rightarrow> Suc (descents lt (y # ys)))"
  by (induction lt x xs rule: run_rest.induct) (simp_all split: list.splits)

lemma pass_count: "xs \<noteq> [] \<Longrightarrow> fst (pass lt xs) = (descents lt xs + 2) div 2"
proof (induction lt xs rule: pass.induct)
  case (2 lt x xs)
  show ?case
  proof (cases "run_rest lt x xs")
    case Nil
    then show ?thesis using run_rest_descents [of lt x xs] by simp
  next
    case (Cons y ys)
    have IH: "run_rest lt y ys \<noteq> [] \<Longrightarrow> fst (pass lt (run_rest lt y ys)) = (descents lt (run_rest lt y ys) + 2) div 2"
      using "2.IH" [OF Cons] by simp
    obtain n out where r: "pass lt (run_rest lt y ys) = (n, out)" by fastforce
    then have n: "fst (pass lt (x # xs)) = Suc n" using Cons by simp
    have d: "descents lt (x # xs) = Suc (descents lt (y # ys))"
      using Cons run_rest_descents [of lt x xs] by simp
    show ?thesis
    proof (cases "run_rest lt y ys")
      case Nil
      then show ?thesis using n r d run_rest_descents [of lt y ys] by simp
    next
      case (Cons z zs)
      then show ?thesis using n r d IH run_rest_descents [of lt y ys] by (simp del: pass.simps)
    qed
  qed
qed simp

lemma mset_merge: "mset (merge lt as bs) = mset as + mset bs"
  by (induction lt as bs rule: merge.induct) simp_all

lemma mset_pass: "mset (snd (pass lt xs)) = mset xs"
proof (induction lt xs rule: pass.induct)
  case (2 lt x xs)
  show ?case
  proof (cases "run_rest lt x xs")
    case (Cons y ys)
    have "mset xs = mset (run_tail lt x xs) + mset (y # ys)"
      using arg_cong [OF run_append [of lt x xs], of mset] Cons by simp
    moreover have "mset ys = mset (run_tail lt y ys) + mset (run_rest lt y ys)"
      using arg_cong [OF run_append [of lt y ys], of mset] by simp
    ultimately show ?thesis
      using Cons "2.IH" [OF Cons] by (auto simp: mset_merge split: prod.splits)
  qed simp
qed simp

lemma set_merge: "set (merge lt as bs) = set as \<union> set bs"
  using arg_cong [OF mset_merge [of lt as bs], of set_mset] by simp

lemma descents_le: "descents lt (x # xs) \<le> length xs"
  by (induction xs arbitrary: x) (auto intro: le_SucI)

lemma pass_count_le: "fst (pass lt xs) \<le> length xs"
proof (cases xs)
  case (Cons x ys)
  then show ?thesis using pass_count [of xs lt] descents_le [of lt x ys] by simp
qed simp

section \<open>The loops of the sort\<close>

lemma pos_eq:
  assumes "is_list h l (ys @ zs @ ws)"
  shows "hd (zs @ ws @ [tail_of l]) = hd (ws @ [tail_of l]) \<longleftrightarrow> zs = []"
  using assms by (cases zs; cases ws) (auto simp: is_list_def nodes_def)

lemma not_tail: "is_list h l (ys @ x # zs) \<Longrightarrow> x \<noteq> tail_of l"
  by (auto simp: is_list_def nodes_def)

lemma tail_not_NULL: "is_list h l xs \<Longrightarrow> tail_of l \<noteq> NULL"
  by (auto simp: is_list_def nodes_def)

lemma elem_not_NULL: "is_list h l (ys @ x # zs) \<Longrightarrow> x \<noteq> NULL"
  by (auto simp: is_list_def nodes_def)

lemma list_prev_elem: "is_list h l (ys @ x # y # zs) \<Longrightarrow> list_prev h y = ret x"
  using list_prev_spec [of h l "ys @ [x]" "y # zs"] by simp

lemma find_end_of_run_spec:
  assumes "is_list h l (ys @ x # xs)"
  shows "find_end_of_run lt h x (tail_of l) = ret (hd (run_rest lt x xs @ [tail_of l]))"
proof -
  have "loop (\<lambda>a. andthen (list_next h a) (\<lambda>a. if a \<noteq> tail_of l then andthen (list_prev h a) (\<lambda>p.
        if \<not> lt a p then ret (Inl a) else ret (Inr a)) else ret (Inr a))) x =
      ret (hd (run_rest lt x xs @ [tail_of l]))"
    using assms
  proof (induction xs arbitrary: ys x)
    case Nil
    then show ?case using list_next_spec [of h l ys x "[]"] by (subst loop.simps) simp
  next
    case (Cons y xs)
    then show ?case
      using Cons.IH [of "ys @ [x]" y] list_next_spec [of h l ys x "y # xs"] list_prev_elem [of h l ys x y xs]
        not_tail [of h l "ys @ [x]" y xs]
      by (subst loop.simps) simp
  qed
  then show ?thesis
    using assms not_tail [OF assms] tail_not_NULL [OF assms] elem_not_NULL [OF assms]
    by (simp add: find_end_of_run_def)
qed

lemma is_sorted_spec:
  assumes "is_list h l (ys @ zs @ ws)"
  shows "is_sorted lt h (hd (zs @ ws @ [tail_of l])) (hd (ws @ [tail_of l])) = ret (asc lt zs)"
proof (cases zs)
  case Nil
  then show ?thesis by (simp add: is_sorted_def)
next
  case (Cons z zs')
  let ?b = "hd (ws @ [tail_of l])"
  have "loop (\<lambda>a. andthen (list_next h a) (\<lambda>a. if a \<noteq> ?b then andthen (list_prev h a) (\<lambda>p.
        if lt a p then ret (Inr False) else ret (Inl a)) else ret (Inr True))) x = ret (asc lt (x # xs))"
    if "is_list h l (us @ x # xs @ ws)" for us x xs
    using that
  proof (induction xs arbitrary: us x)
    case Nil
    then show ?case using list_next_spec [of h l us x ws] by (subst loop.simps) simp
  next
    case (Cons y xs)
    have "y \<noteq> ?b" using pos_eq [of h l "us @ [x]" "y # xs" ws] Cons.prems by simp
    then show ?case
      using Cons.IH [of "us @ [x]" y] Cons.prems list_next_spec [of h l us x "y # xs @ ws"]
        list_prev_elem [of h l us x y "xs @ ws"]
      by (subst loop.simps) simp
  qed
  moreover have "z \<noteq> ?b" using pos_eq [OF assms] Cons by simp
  ultimately show ?thesis using assms Cons by (simp add: is_sorted_def)
qed

lemma set_nodes_mid: "mset xs = mset xs' \<Longrightarrow> set (nodes l (ys @ xs @ zs)) = set (nodes l (ys @ xs' @ zs))"
  by (drule mset_eq_setD) (simp add: nodes_def)

lemma inplace_merge_spec:
  assumes l: "is_list h l (ys @ as @ bs @ zs)" and ne: "as \<noteq> []" "bs \<noteq> []" and asc: "asc lt as" "asc lt bs"
  shows "returns (inplace_merge lt h (hd as) (hd bs) (hd (zs @ [tail_of l])))
    (\<lambda>h'. is_list h' l (ys @ merge lt as bs @ zs) \<and> same_outside (set (nodes l (ys @ as @ bs @ zs))) h h')"
proof -
  let ?t = "tail_of l" and ?b1 = "hd (zs @ [tail_of l])" and ?S = "set (nodes l (ys @ as @ bs @ zs))"
  let ?body = "\<lambda>(a0, a1b0, h).
              if a0 \<noteq> a1b0 \<and> a1b0 \<noteq> ?b1 then
                if \<not> lt a1b0 a0 then andthen (list_next h a0) (\<lambda>a0. ret (Inl (a0, a1b0, h)))
                else andthen (list_next h a1b0) (\<lambda>a1b0.
                  andthen (list_prev h a1b0) (\<lambda>p.
                  andthen (list_splice h a0 p a1b0) (\<lambda>h. ret (Inl (a0, a1b0, h)))))
              else ret (Inr h)"
  have "returns (loop ?body (hd (as' @ bs' @ zs @ [?t]), hd (bs' @ zs @ [?t]), h'))
      (\<lambda>h''. is_list h'' l (ys @ ds @ merge lt as' bs' @ zs) \<and> same_outside ?S h h'')"
    if "is_list h' l (ys @ ds @ as' @ bs' @ zs)" "mset (ds @ as' @ bs') = mset (as @ bs)" "same_outside ?S h h'"
    for ds as' bs' h'
    using that
  proof (induction lt as' bs' arbitrary: ds h' rule: merge.induct)
    case (1 lt bs')
    then show ?case by (subst loop.simps) simp
  next
    case (2 lt a as')
    then show ?case by (subst loop.simps) simp
  next
    case (3 lt a as' b bs')
    have l': "is_list h' l ((ys @ ds) @ (a # as') @ b # bs' @ zs)" "is_list h' l ((ys @ ds @ a # as') @ (b # bs') @ zs)"
      using "3.prems"(1) by simp_all
    have ne: "a \<noteq> b" "b \<noteq> ?b1"
      using pos_eq [OF l'(1)] pos_eq [OF l'(2)] by simp_all
    show ?case
    proof (cases "lt b a")
      case False
      have "is_list h' l (ys @ (ds @ [a]) @ as' @ (b # bs') @ zs)" using "3.prems"(1) by simp
      from "3.IH"(1) [OF False this] "3.prems"(2,3) False ne list_next_spec [of h' l "ys @ ds" a "as' @ b # bs' @ zs"] "3.prems"(1)
      show ?thesis by (subst loop.simps) simp
    next
      case True
      let ?n = "hd (bs' @ zs @ [?t])"
      have next1: "list_next h' b = ret ?n"
        using list_next_spec [of h' l "ys @ ds @ a # as'" b "bs' @ zs"] "3.prems"(1) by simp
      have prev1: "list_prev h' ?n = ret b"
        using list_prev_spec [of h' l "ys @ ds @ a # as' @ [b]" "bs' @ zs"] "3.prems"(1) by simp
      obtain h2 where h2: "list_splice h' a b ?n = ret h2" "is_list h2 l (ys @ ds @ [b] @ (a # as') @ bs' @ zs)"
        "same_outside (set (nodes l (ys @ ds @ (a # as') @ [b] @ bs' @ zs))) h' h2"
        using list_splice_within [of h' l "ys @ ds" "a # as'" "[b]" "bs' @ zs"] "3.prems"(1) by (auto elim!: returnsE)
      have "mset (ds @ (a # as') @ [b] @ bs') = mset (as @ bs)"
        using "3.prems"(2) by (simp only: append_Cons append_Nil)
      from set_nodes_mid [OF this, of l ys zs] have "set (nodes l (ys @ ds @ (a # as') @ [b] @ bs' @ zs)) = ?S"
        by (simp only: append_assoc append_Cons append_Nil)
      with h2(3) have "same_outside ?S h' h2" by (simp only:)
      with "3.prems"(3) have "same_outside ?S h h2" by (rule same_outside_trans)
      moreover have "mset ((ds @ [b]) @ (a # as') @ bs') = mset (as @ bs)" using "3.prems"(2) by (simp add: add_mset_commute)
      ultimately show ?thesis
        using "3.IH"(2) [of h2 "ds @ [b]"] True ne next1 prev1 h2(1,2) by (subst loop.simps) simp
    qed
  qed
  from this [of h "[]" as bs] have "returns (loop ?body (hd as, hd bs, h))
      (\<lambda>h'. is_list h' l (ys @ merge lt as bs @ zs) \<and> same_outside ?S h h')"
    using l ne by simp
  moreover have "is_sorted lt h (hd as) (hd bs) = ret True" "is_sorted lt h (hd bs) ?b1 = ret True"
    using is_sorted_spec [of h l ys as "bs @ zs" lt] is_sorted_spec [of h l "ys @ as" bs zs lt] l ne asc by simp_all
  moreover have "hd as \<noteq> NULL" "hd bs \<noteq> NULL" "?b1 \<noteq> NULL"
    using is_list_point(4) [of h l ys "as @ bs @ zs"] is_list_point(4) [of h l "ys @ as" "bs @ zs"]
      is_list_point(4) [of h l "ys @ as @ bs" zs] l ne by simp_all
  ultimately show ?thesis by (simp add: inplace_merge_def)
qed

lemma list_sort_pass_spec:
  assumes l: "is_list h l xs"
  shows "returns (list_sort_pass lt l h) (\<lambda>(c, h'). c = of_nat (fst (pass lt xs)) \<and> is_list h' l (snd (pass lt xs)) \<and>
    same_outside (set (nodes l xs)) h h')"
proof -
  define f where "f = (\<lambda>lt (a0, output_run_cnt :: size_t, h). andthen (list_end l) (\<lambda>t.
       if a0 \<noteq> t then
         let output_run_cnt = output_run_cnt + 1 in
         andthen (find_end_of_run lt h a0 t) (\<lambda>a1b0.
         if a1b0 = t then ret (Inr (output_run_cnt, h))
         else andthen (find_end_of_run lt h a1b0 t) (\<lambda>b1.
           andthen (inplace_merge lt h a0 a1b0 b1) (\<lambda>h. ret (Inl (b1, output_run_cnt, h)))))
       else ret (Inr (output_run_cnt, h))))"
  have "returns (loop (f lt) (hd (zs @ [tail_of l]), c, h'))
      (\<lambda>(c', h''). c' = c + of_nat (fst (pass lt zs)) \<and> is_list h'' l (ys @ snd (pass lt zs)) \<and>
         same_outside (set (nodes l (ys @ zs))) h' h'')"
    if "is_list h' l (ys @ zs)" for zs ys c h'
    using that
  proof (induction lt zs arbitrary: ys c h' rule: pass.induct)
    case (1 lt)
    then have "f lt (tail_of l, c, h') = ret (Inr (c, h'))" by (simp add: f_def list_end_spec [OF "1.prems"])
    then show ?case using "1.prems" by (subst loop.simps) simp
  next
    case (2 lt x xs)
    note l = "2.prems"
    have nt: "x \<noteq> tail_of l" by (rule not_tail [OF l])
    note fe = find_end_of_run_spec [OF l, of lt] and le = list_end_spec [OF l]
    show ?case
    proof (cases "run_rest lt x xs")
      case Nil
      then have "f lt (x, c, h') = ret (Inr (c + 1, h'))" using nt fe le by (simp add: f_def Let_def)
      then show ?thesis using Nil l by (subst loop.simps) simp
    next
      case (Cons y zs)
      define as bs rest where "as = x # run_tail lt x xs" and "bs = y # run_tail lt y zs" and "rest = run_rest lt y zs"
      have xs: "x # xs = as @ bs @ rest"
        using run_append [of lt x xs] run_append [of lt y zs] Cons by (simp add: as_def bs_def rest_def)
      have zs: "bs @ rest = y # zs" using run_append [of lt y zs] by (simp add: bs_def rest_def)
      have l2: "is_list h' l (ys @ as @ bs @ rest)" "is_list h' l ((ys @ as) @ y # zs)"
        using l xs zs by simp_all
      have "y \<noteq> tail_of l" by (rule not_tail [OF l2(2)])
      moreover have "find_end_of_run lt h' y (tail_of l) = ret (hd (rest @ [tail_of l]))"
        using find_end_of_run_spec [OF l2(2), of lt] by (simp add: rest_def)
      moreover obtain h2 where h2: "inplace_merge lt h' x y (hd (rest @ [tail_of l])) = ret h2"
        "is_list h2 l ((ys @ merge lt as bs) @ rest)" "same_outside (set (nodes l (ys @ x # xs))) h' h2"
        using inplace_merge_spec [OF l2(1), of lt] asc_run [of lt x xs] asc_run [of lt y zs] unfolding xs
        by (auto simp: as_def bs_def elim!: returnsE)
      ultimately have "f lt (x, c, h') = ret (Inl (hd (rest @ [tail_of l]), c + 1, h2))"
        using nt fe le Cons by (simp add: f_def Let_def)
      then have step: "loop (f lt) (hd ((x # xs) @ [tail_of l]), c, h') = loop (f lt) (hd (rest @ [tail_of l]), c + 1, h2)"
        by (subst loop.simps) simp
      have pass: "pass lt (x # xs) = (Suc (fst (pass lt rest)), merge lt as bs @ snd (pass lt rest))"
        using Cons by (simp add: as_def bs_def rest_def split: prod.splits)
      have "mset (as @ bs) = mset (merge lt as bs)" by (simp add: mset_merge)
      from set_nodes_mid [OF this, of l ys rest] have S: "set (nodes l (ys @ x # xs)) = set (nodes l ((ys @ merge lt as bs) @ rest))"
        unfolding xs by simp
      have "returns (loop (f lt) (hd (rest @ [tail_of l]), c + 1, h2))
        (\<lambda>(c', h''). c' = c + 1 + of_nat (fst (pass lt rest)) \<and> is_list h'' l ((ys @ merge lt as bs) @ snd (pass lt rest)) \<and>
           same_outside (set (nodes l ((ys @ merge lt as bs) @ rest))) h2 h'')"
        using "2.IH" [OF Cons, folded rest_def, OF h2(2)] .
      then show ?thesis
        unfolding step pass S using h2(3) by (auto simp: S intro: same_outside_trans elim!: returnsE)
    qed
  qed
  from this [of h "[]" xs 0] l show ?thesis
    by (simp add: list_sort_pass_def list_begin_spec [OF l] f_def)
qed

section \<open>Correctness of the sort\<close>

abbreviation srt :: "(addr \<Rightarrow> addr \<Rightarrow> bool) \<Rightarrow> addr list \<Rightarrow> bool" where
  "srt lt xs \<equiv> sorted_wrt (\<lambda>a b. \<not> lt b a) xs"

text \<open>Neither element is less than the other: they compare equal.\<close>

definition eqv :: "(addr \<Rightarrow> addr \<Rightarrow> bool) \<Rightarrow> addr \<Rightarrow> addr \<Rightarrow> bool" where
  "eqv lt a b \<longleftrightarrow> \<not> lt a b \<and> \<not> lt b a"

definition weak_lt :: "(addr \<Rightarrow> addr \<Rightarrow> bool) \<Rightarrow> bool" where
  "weak_lt lt \<longleftrightarrow> (\<forall>a b. lt a b \<longrightarrow> \<not> lt b a) \<and> (\<forall>a b c. \<not> lt a b \<longrightarrow> \<not> lt b c \<longrightarrow> \<not> lt a c)"

lemma weak_lt_trans: "weak_lt lt \<Longrightarrow> \<not> lt a b \<Longrightarrow> \<not> lt b c \<Longrightarrow> \<not> lt a c"
  and weak_lt_asym: "weak_lt lt \<Longrightarrow> lt a b \<Longrightarrow> \<not> lt b a"
  unfolding weak_lt_def by blast+

lemma srt_merge: "weak_lt lt \<Longrightarrow> srt lt as \<Longrightarrow> srt lt bs \<Longrightarrow> srt lt (merge lt as bs)"
proof (induction lt as bs rule: merge.induct)
  case (3 lt a as b bs)
  show ?case
  proof (cases "lt b a")
    case True
    have "\<not> lt x b" if "x \<in> set (a # as) \<union> set bs" for x
      using that "3.prems" weak_lt_asym [OF "3.prems"(1) True] weak_lt_trans [OF "3.prems"(1), of x a b] by auto
    with True "3.IH"(2) "3.prems" show ?thesis by (auto simp: set_merge)
  next
    case False
    have "\<not> lt x a" if "x \<in> set as \<union> set (b # bs)" for x
      using that "3.prems" False weak_lt_trans [OF "3.prems"(1), of x b a] by auto
    with False "3.IH"(1) "3.prems" show ?thesis by (auto simp: set_merge)
  qed
qed simp_all

lemma filter_merge:
  "weak_lt lt \<Longrightarrow> srt lt as \<Longrightarrow> filter (eqv lt x) (merge lt as bs) = filter (eqv lt x) as @ filter (eqv lt x) bs"
proof (induction lt as bs rule: merge.induct)
  case (3 lt a as b bs)
  show ?case
  proof (cases "lt b a")
    case True
    have "\<not> (eqv lt x b \<and> eqv lt x y)" if y: "y \<in> set (a # as)" for y
    proof
      assume e: "eqv lt x b \<and> eqv lt x y"
      then have "\<not> lt b y" using weak_lt_trans [OF "3.prems"(1), of b x y] by (auto simp: eqv_def)
      moreover have "\<not> lt y a" using y "3.prems"(2) weak_lt_asym [OF "3.prems"(1), of a a] by auto
      ultimately show False using True weak_lt_trans [OF "3.prems"(1), of b y a] by blast
    qed
    then have "eqv lt x b \<Longrightarrow> filter (eqv lt x) (a # as) = []" by (auto simp: filter_empty_conv)
    with True "3.IH"(2) "3.prems" show ?thesis by (cases "eqv lt x b") auto
  next
    case False
    with "3.IH"(1) "3.prems" show ?thesis by simp
  qed
qed simp_all

text \<open>
  A comparison function that is a strict weak order, as the library requires of it: every pass
  keeps the elements and the order among equal ones, and leaves fewer descents than it made
  runs.
\<close>

locale weak_order =
  fixes lt :: "addr \<Rightarrow> addr \<Rightarrow> bool"
  assumes asym: "lt a b \<Longrightarrow> \<not> lt b a"
    and neg_trans: "\<not> lt a b \<Longrightarrow> \<not> lt b c \<Longrightarrow> \<not> lt a c"
begin

lemma weak: "weak_lt lt"
  using asym neg_trans unfolding weak_lt_def by blast

lemma asc_srt: "asc lt xs \<longleftrightarrow> srt lt xs"
  by (rule successively_conv_sorted_wrt) (auto intro!: transpI dest: neg_trans)

lemma pass_cases:
  obtains (nil) "xs = []" "pass lt xs = (0, [])"
  | (one) "xs \<noteq> []" "srt lt xs" "pass lt xs = (1, xs)"
  | (two) as bs rest where "xs = as @ bs @ rest" "as \<noteq> []" "bs \<noteq> []" "srt lt as" "srt lt bs"
      "pass lt xs = (Suc (fst (pass lt rest)), merge lt as bs @ snd (pass lt rest))"
proof (cases xs)
  case (Cons x ys)
  show thesis
  proof (cases "run_rest lt x ys")
    case Nil
    then have "srt lt xs" using asc_run [of lt x ys] run_append [of lt x ys] Cons by (simp add: asc_srt)
    then show thesis using one Nil Cons by simp
  next
    case (Cons y zs)
    show thesis
      using two [of "x # run_tail lt x ys" "y # run_tail lt y zs" "run_rest lt y zs"]
        run_append [of lt x ys] run_append [of lt y zs] asc_run [of lt x ys] asc_run [of lt y zs]
        Cons \<open>xs = x # ys\<close>
      by (simp add: asc_srt [symmetric] split: prod.splits)
  qed
qed (use nil in simp)

lemma pass_descents: "descents lt (snd (pass lt xs)) \<le> fst (pass lt xs) - 1"
proof (induction xs rule: length_induct)
  case (1 xs)
  show ?case
  proof (cases rule: pass_cases [of xs])
    case one
    then show ?thesis using descents_asc [of lt xs] by (simp add: asc_srt)
  next
    case (two as bs rest)
    have "asc lt (merge lt as bs)" using two srt_merge [OF weak] by (simp add: asc_srt)
    then have m: "descents lt (merge lt as bs) = 0" by (simp add: descents_asc)
    have IH: "descents lt (snd (pass lt rest)) \<le> fst (pass lt rest) - 1" using "1.IH" two(1,2) by simp
    show ?thesis
    proof (cases "rest = []")
      case True
      then show ?thesis using two(6) m by simp
    next
      case False
      then have "0 < fst (pass lt rest)" by (simp add: pass_count)
      then show ?thesis
        using two(6) m IH descents_append [of lt "merge lt as bs" "snd (pass lt rest)"] by (auto split: if_splits)
    qed
  qed simp
qed

lemma filter_pass: "filter (eqv lt x) (snd (pass lt xs)) = filter (eqv lt x) xs"
proof (induction xs rule: length_induct)
  case (1 xs)
  show ?case
  proof (cases rule: pass_cases [of xs])
    case (two as bs rest)
    have "filter (eqv lt x) (snd (pass lt rest)) = filter (eqv lt x) rest" using "1.IH" two(1,2) by simp
    then show ?thesis using two filter_merge [OF weak] by simp
  qed simp_all
qed

end

context weak_order
begin

lemma list_sort_loop:
  "is_list h l xs \<Longrightarrow>
   returns (loop (\<lambda>h. andthen (list_sort_pass lt l h) (\<lambda>(output_run_cnt, h).
        if 1 < output_run_cnt then ret (Inl h) else ret (Inr h))) h)
     (\<lambda>h'. \<exists>ys. is_list h' l ys \<and> srt lt ys \<and> mset ys = mset xs \<and>
        (\<forall>x. filter (eqv lt x) ys = filter (eqv lt x) xs) \<and> same_outside (set (nodes l xs)) h h')"
proof (induction "descents lt xs" arbitrary: xs h rule: less_induct)
  case less
  let ?ys = "snd (pass lt xs)" and ?n = "fst (pass lt xs)"
  obtain h' where h': "list_sort_pass lt l h = ret (of_nat ?n, h')" "is_list h' l ?ys"
    "same_outside (set (nodes l xs)) h h'"
    using list_sort_pass_spec [OF less.prems, of lt] by (auto elim!: returnsE)
  have "?n < 4294967296" using pass_count_le [of lt xs] is_list_length [OF less.prems] by linarith
  then have cmp: "1 < (of_nat ?n :: size_t) \<longleftrightarrow> 1 < ?n" by (simp add: word_less_nat_alt unat_of_nat)
  have S: "set (nodes l ?ys) = set (nodes l xs)"
    using set_nodes_mid [of ?ys xs l "[]" "[]"] by (simp add: mset_pass)
  show ?case
  proof (cases "1 < ?n")
    case False
    then have "srt lt ?ys" using pass_descents [of xs] by (simp add: descents_asc asc_srt [symmetric])
    with False h' cmp show ?thesis
      by (subst loop.simps) (auto simp: mset_pass filter_pass intro!: exI [of _ ?ys])
  next
    case True
    then have "xs \<noteq> []" by auto
    then have "descents lt ?ys < descents lt xs"
      using True pass_descents [of xs] pass_count [of xs lt] by simp
    from less.hyps [OF this h'(2)] show ?thesis
      using True h'(1) cmp S same_outside_trans [OF h'(3)]
      by (subst loop.simps) (fastforce simp: mset_pass filter_pass elim!: returnsE)
  qed
qed

lemma list_sort_spec:
  assumes "is_list h l xs"
  shows "returns (list_sort lt h l) (\<lambda>h'. \<exists>ys. is_list h' l ys \<and> srt lt ys \<and> mset ys = mset xs \<and>
     (\<forall>x. filter (eqv lt x) ys = filter (eqv lt x) xs) \<and> same_outside (set (nodes l xs)) h h')"
proof -
  from list_sort_loop [OF assms] obtain h' ys where ys: "is_list h' l ys" "srt lt ys" "mset ys = mset xs"
    "\<forall>x. filter (eqv lt x) ys = filter (eqv lt x) xs" "same_outside (set (nodes l xs)) h h'"
    and run: "loop (\<lambda>h. andthen (list_sort_pass lt l h) (\<lambda>(output_run_cnt, h).
        if 1 < output_run_cnt then ret (Inl h) else ret (Inr h))) h = ret h'"
    by (auto elim!: returnsE)
  have "is_sorted lt h' (hd (ys @ [tail_of l])) (tail_of l) = ret True"
    using is_sorted_spec [of h' l "[]" ys "[]" lt] ys(1,2) by (simp add: asc_srt)
  then show ?thesis
    using run ys is_list_NULL [OF assms]
    by (auto simp: list_sort_def list_begin_spec [OF ys(1)] list_end_spec [OF ys(1)])
qed

end

section \<open>Ordered insertion\<close>

lemma list_insert_ordered_spec:
  assumes l: "is_list h l xs" and e: "elem \<noteq> NULL" "elem \<notin> set (nodes l xs)"
  shows "returns (list_insert_ordered lt h l elem) (\<lambda>h'.
    is_list h' l (takeWhile (\<lambda>x. \<not> lt elem x) xs @ elem # dropWhile (\<lambda>x. \<not> lt elem x) xs) \<and>
    same_outside (insert elem (set (nodes l xs))) h h')"
proof -
  have "loop (\<lambda>e. andthen (list_end l) (\<lambda>t.
        if e \<noteq> t then if lt elem e then ret (Inr e) else andthen (list_next h e) (\<lambda>e. ret (Inl e))
        else ret (Inr e))) (hd (zs @ [tail_of l])) = ret (hd (dropWhile (\<lambda>x. \<not> lt elem x) zs @ [tail_of l]))"
    if "is_list h l (ys @ zs)" for ys zs
    using that
  proof (induction zs arbitrary: ys)
    case Nil
    then show ?case by (subst loop.simps) (simp add: list_end_spec [OF l])
  next
    case (Cons z zs)
    then show ?case
      using Cons.IH [of "ys @ [z]"] list_next_spec [of h l ys z zs] not_tail [of h l ys z zs]
      by (subst loop.simps) (simp add: list_end_spec [OF l])
  qed
  from this [of "[]" xs] l have "list_insert_ordered lt h l elem =
      list_insert h (hd (dropWhile (\<lambda>x. \<not> lt elem x) xs @ [tail_of l])) elem"
    using e(1) is_list_NULL [OF l] by (simp add: list_insert_ordered_def list_begin_spec [OF l])
  then show ?thesis
    using list_insert_spec [of h l "takeWhile (\<lambda>x. \<not> lt elem x) xs" "dropWhile (\<lambda>x. \<not> lt elem x) xs" elem] l e
    by simp
qed

section \<open>Minimum and maximum\<close>

definition better :: "(addr \<Rightarrow> addr \<Rightarrow> bool) \<Rightarrow> addr \<Rightarrow> addr \<Rightarrow> addr" where
  "better b m e = (if b m e then e else m)"

lemma best_fold:
  assumes w: "weak_lt b"
  shows "\<exists>ys zs. m # xs = ys @ foldl (better b) m xs # zs \<and> (\<forall>y \<in> set ys. b y (foldl (better b) m xs)) \<and>
    (\<forall>z \<in> set zs. \<not> b (foldl (better b) m xs) z)"
proof (induction xs arbitrary: m)
  case (Cons e xs)
  define r where "r = foldl (better b) (better b m e) xs"
  obtain ys zs where s: "better b m e # xs = ys @ r # zs" "\<forall>y \<in> set ys. b y r" "\<forall>z \<in> set zs. \<not> b r z"
    using Cons.IH [of "better b m e"] unfolding r_def by blast
  have "\<exists>ys zs. m # e # xs = ys @ r # zs \<and> (\<forall>y \<in> set ys. b y r) \<and> (\<forall>z \<in> set zs. \<not> b r z)"
  proof (cases "b m e")
    case True
    have "b m r"
    proof (cases ys)
      case Nil
      then show ?thesis using s(1) True by (simp add: better_def)
    next
      case (Cons y ys')
      then have "b e r" using s(1,2) True by (simp add: better_def)
      then show ?thesis using True weak_lt_asym [OF w] weak_lt_trans [OF w, of m r e] by blast
    qed
    then show ?thesis
      using s True by (intro exI [of _ "m # ys"] exI [of _ zs]) (simp add: better_def)
  next
    case False
    show ?thesis
    proof (cases ys)
      case Nil
      then show ?thesis
        using s False by (intro exI [of _ "[]"] exI [of _ "e # xs"]) (auto simp: better_def)
    next
      case (Cons y ys')
      then have "b m r" using s False by (simp add: better_def)
      then have "b e r" using False weak_lt_trans [OF w, of m e r] by blast
      then show ?thesis
        using s False Cons by (intro exI [of _ "m # e # ys'"] exI [of _ zs]) (auto simp: better_def)
    qed
  qed
  then show ?case by (simp add: r_def)
qed (simp add: exI [of _ "[]"])

lemma best_loop:
  assumes l: "is_list h l (ys @ zs)"
  shows "loop (\<lambda>(e, m). andthen (list_end l) (\<lambda>t.
      if e \<noteq> t then andthen (list_next h e) (\<lambda>e'. ret (Inl (e', if b m e then e else m))) else ret (Inr m)))
    (hd (zs @ [tail_of l]), m) = ret (foldl (better b) m zs)"
  using l
proof (induction zs arbitrary: ys m)
  case Nil
  then show ?case by (subst loop.simps) (simp add: list_end_spec [OF l])
next
  case (Cons z zs)
  then show ?case
    using Cons.IH [of "ys @ [z]" "better b m z"] list_next_spec [of h l ys z zs] not_tail [of h l ys z zs]
    by (subst loop.simps) (simp add: list_end_spec [OF l] flip: better_def)
qed

lemma list_max_eq: "is_list h l (x # xs) \<Longrightarrow> list_max lt h l = ret (foldl (better lt) x xs)"
  using best_loop [of h l "[x]" xs lt x] list_next_spec [of h l "[]" x xs] not_tail [of h l "[]" x xs]
  by (simp add: list_max_def list_begin_spec list_end_spec)

lemma list_min_eq: "is_list h l (x # xs) \<Longrightarrow> list_min lt h l = ret (foldl (better (\<lambda>m e. lt e m)) x xs)"
  using best_loop [of h l "[x]" xs "\<lambda>m e. lt e m" x] list_next_spec [of h l "[]" x xs] not_tail [of h l "[]" x xs]
  by (simp add: list_min_def list_begin_spec list_end_spec)

section \<open>Removing duplicates\<close>

text \<open>The elements that stay and those that are taken out.\<close>

fun uniq :: "(addr \<Rightarrow> addr \<Rightarrow> bool) \<Rightarrow> addr list \<Rightarrow> addr list" where
  "uniq lt [] = []"
| "uniq lt [x] = [x]"
| "uniq lt (x # y # zs) = (if eqv lt x y then uniq lt (x # zs) else x # uniq lt (y # zs))"

fun dups :: "(addr \<Rightarrow> addr \<Rightarrow> bool) \<Rightarrow> addr list \<Rightarrow> addr list" where
  "dups lt [] = []"
| "dups lt [x] = []"
| "dups lt (x # y # zs) = (if eqv lt x y then y # dups lt (x # zs) else dups lt (y # zs))"

lemma mset_uniq_dups: "mset (uniq lt xs) + mset (dups lt xs) = mset xs"
  by (induction lt xs rule: uniq.induct) auto

lemma uniq_nonempty: "uniq lt (x # xs) \<noteq> [] \<and> hd (uniq lt (x # xs)) = x"
proof (induction xs arbitrary: x)
  case (Cons y ys)
  then show ?case by simp
qed simp

lemma uniq_no_equal: "successively (\<lambda>a b. \<not> eqv lt a b) (uniq lt xs)"
proof (induction lt xs rule: uniq.induct)
  case (3 lt x y zs)
  then show ?case using uniq_nonempty [of lt y zs] by (cases "uniq lt (y # zs)") auto
qed simp_all

text \<open>The list of duplicates, if there is one: a list of its own, apart from the other.\<close>

definition dup_list :: "lheap \<Rightarrow> addr \<Rightarrow> addr list \<Rightarrow> addr \<Rightarrow> addr list \<Rightarrow> bool" where
  "dup_list h l xs d ds \<longleftrightarrow> d = NULL \<or> is_list h d ds \<and> set (nodes l xs) \<inter> set (nodes d ds) = {}"

lemma unique_step:
  assumes l: "is_list h l (us @ x # y # zs)" and d: "dup_list h l (us @ x # y # zs) d ds"
  obtains h' where "andthen (list_remove h y) (\<lambda>(_, h).
      if d \<noteq> NULL then andthen (list_push_back h d y) (\<lambda>h. ret (Inl (x, h))) else ret (Inl (x, h))) = ret (Inl (x, h'))"
    and "is_list h' l (us @ x # zs)" and "dup_list h' l (us @ x # zs) d (ds @ [y])"
proof -
  obtain r h2 where h2: "list_remove h y = ret (r, h2)" "is_list h2 l (us @ x # zs)"
    "same_outside (set (nodes l (us @ x # zs))) h h2"
    using list_remove_spec [of h l "us @ [x]" y zs] l by (auto elim!: returnsE)
  have y: "y \<noteq> NULL" "y \<notin> set (nodes l (us @ x # zs))" "y \<in> set (nodes l (us @ x # y # zs))"
    and sub: "set (nodes l (us @ x # zs)) \<subseteq> set (nodes l (us @ x # y # zs))"
    using l by (auto simp: is_list_def nodes_def)
  show thesis
  proof (cases "d = NULL")
    case True
    then show thesis using that [of h2] h2 by (simp add: dup_list_def)
  next
    case False
    then have dl: "is_list h d ds" "set (nodes l (us @ x # y # zs)) \<inter> set (nodes d ds) = {}"
      using d by (simp_all add: dup_list_def)
    have "is_list h2 d ds" using is_list_frame [OF dl(1) h2(3)] dl(2) sub by blast
    moreover have "y \<notin> set (nodes d ds)" using y(3) dl(2) by blast
    ultimately obtain h3 where h3: "list_push_back h2 d y = ret h3" "is_list h3 d (ds @ [y])"
      "same_outside (insert y (set (nodes d ds))) h2 h3"
      using list_push_back_spec [of h2 d ds y] y(1) by (auto elim!: returnsE)
    have "insert y (set (nodes d ds)) \<inter> set (nodes l (us @ x # zs)) = {}" using y(2) dl(2) sub by blast
    then have "is_list h3 l (us @ x # zs)" by (rule is_list_frame [OF h2(2) h3(3)])
    moreover have "dup_list h3 l (us @ x # zs) d (ds @ [y])"
      using h3(2) y(2) dl(2) sub by (auto simp: dup_list_def nodes_def)
    ultimately show thesis using that [of h3] h2(1) h3(1) False by simp
  qed
qed

lemma list_unique_spec:
  assumes l: "is_list h l xs" and d: "dup_list h l xs d ds"
  shows "returns (list_unique lt h l d) (\<lambda>h'. is_list h' l (uniq lt xs) \<and> dup_list h' l (uniq lt xs) d (ds @ dups lt xs))"
proof -
  define f where "f = (\<lambda>lt (elem, h). andthen (list_next h elem) (\<lambda>next. andthen (list_end l) (\<lambda>t.
          if next \<noteq> t then
            if \<not> lt elem next \<and> \<not> lt next elem then
              andthen (list_remove h next) (\<lambda>(_, h).
              if d \<noteq> NULL
              then andthen (list_push_back h d next) (\<lambda>h. ret (Inl (elem, h)))
              else ret (Inl (elem, h)))
            else ret (Inl (next, h))
          else ret (Inr h))))"
  have loop: "returns (loop (f lt) (hd zs, h)) (\<lambda>h'. is_list h' l (us @ uniq lt zs) \<and>
      dup_list h' l (us @ uniq lt zs) d (ds @ dups lt zs))"
    if "is_list h l (us @ zs)" "dup_list h l (us @ zs) d ds" "zs \<noteq> []" for us zs h ds
    using that
  proof (induction lt zs arbitrary: us h ds rule: uniq.induct)
    case (3 lt x y zs)
    have n: "list_next h x = ret y" "y \<noteq> tail_of l"
      using list_next_spec [of h l us x "y # zs"] not_tail [of h l "us @ [x]" y zs] "3.prems"(1) by simp_all
    show ?case
    proof (cases "eqv lt x y")
      case True
      obtain h' where h': "andthen (list_remove h y) (\<lambda>(_, h).
          if d \<noteq> NULL then andthen (list_push_back h d y) (\<lambda>h. ret (Inl (x, h))) else ret (Inl (x, h))) = (ret (Inl (x, h')) :: ((addr \<times> lheap) + lheap) res)"
        "is_list h' l (us @ x # zs)" "dup_list h' l (us @ x # zs) d (ds @ [y])"
        using unique_step [of h l us x y zs d ds] "3.prems"(1,2) by auto
      have "f lt (x, h) = ret (Inl (x, h'))"
        using h'(1) n True list_end_spec [OF "3.prems"(1)] by (simp add: f_def eqv_def)
      then show ?thesis
        using "3.IH"(1) [OF True h'(2,3)] True by (subst loop.simps) simp
    next
      case False
      have "f lt (x, h) = ret (Inl (y, h))"
        using n False list_end_spec [OF "3.prems"(1)] by (auto simp: f_def eqv_def)
      then show ?thesis
        using "3.IH"(2) [OF False, of h "us @ [x]" ds] "3.prems" False by (subst loop.simps) simp
    qed
  next
    case (2 lt x)
    have "f lt (x, h) = ret (Inr h)"
      using list_next_spec [of h l us x "[]"] list_end_spec [OF "2.prems"(1)] "2.prems"(1) by (simp add: f_def)
    then show ?case using "2.prems" by (subst loop.simps) simp
  qed simp
  show ?thesis
  proof (cases xs)
    case Nil
    then show ?thesis using l d is_list_NULL [OF l] by (simp add: list_unique_def list_empty_spec [OF l])
  next
    case (Cons x ys)
    then show ?thesis
      using loop [of h "[]" xs ds] l d is_list_NULL [OF l]
      by (simp add: list_unique_def list_empty_spec [OF l] list_begin_spec [OF l] f_def)
  qed
qed

text \<open>The comparison of \<^verbatim>\<open>tests/internal/list.c\<close>, by a value kept in each element.\<close>

definition value_less :: "(addr \<Rightarrow> int) \<Rightarrow> addr \<Rightarrow> addr \<Rightarrow> bool" where
  "value_less val a b \<longleftrightarrow> val a < val b"

interpretation by_value: weak_order "value_less val" for val
  by unfold_locales (auto simp: value_less_def)

section \<open>Properties\<close>

text \<open>
  C9: \<^verbatim>\<open>list_sort\<close> terminates and is a stable sort. For a comparison function that is a strict
  weak order, sorting any list succeeds, its final assertion holds, and the list then holds the same
  elements, none of them less than one before it, with equal elements in their old order;
  no link outside the list is touched.
\<close>

theorem list_sort_stable:
  assumes "weak_order lt" and "is_list h l xs"
  shows "returns (list_sort lt h l) (\<lambda>h'. \<exists>ys. is_list h' l ys \<and> mset ys = mset xs \<and>
    sorted_wrt (\<lambda>a b. \<not> lt b a) ys \<and>
    (\<forall>x. filter (eqv lt x) ys = filter (eqv lt x) xs) \<and> same_outside (set (nodes l xs)) h h')"
  using weak_order.list_sort_spec [OF assms] by (auto elim!: returnsE)

theorem list_sort_stable_witness:
  "returns (list_sort (value_less (\<lambda>a. - uint a)) sample_heap 64) (\<lambda>h'. \<exists>ys. is_list h' 64 ys \<and>
    mset ys = mset [100, 104, 108] \<and> sorted_wrt (\<lambda>a b. \<not> value_less (\<lambda>a. - uint a) b a) ys)"
  using list_sort_stable [OF by_value.weak_order_axioms sample_three, of "\<lambda>a. - uint a"] by (auto elim!: returnsE)

text \<open>
  C19: \<^verbatim>\<open>list_insert_ordered\<close> keeps a sorted list sorted: the new element goes after every
  element that is not greater, so the list stays sorted and the order of insertion is kept
  among equal elements.
\<close>

theorem list_insert_ordered_sorted:
  assumes "weak_order lt" and "is_list h l xs" and "sorted_wrt (\<lambda>a b. \<not> lt b a) xs"
    and "elem \<noteq> NULL" and "elem \<notin> set (nodes l xs)"
  shows "returns (list_insert_ordered lt h l elem) (\<lambda>h'. \<exists>ys zs. xs = ys @ zs \<and>
    is_list h' l (ys @ elem # zs) \<and> sorted_wrt (\<lambda>a b. \<not> lt b a) (ys @ elem # zs) \<and>
    (\<forall>y \<in> set ys. \<not> lt elem y) \<and> (\<forall>z \<in> set zs. lt elem z))"
proof -
  define ys zs where "ys = takeWhile (\<lambda>x. \<not> lt elem x) xs" and "zs = dropWhile (\<lambda>x. \<not> lt elem x) xs"
  note w = weak_order.weak [OF assms(1)]
  have xs: "xs = ys @ zs" by (simp add: ys_def zs_def)
  have s: "srt lt ys" "srt lt zs" "\<forall>y \<in> set ys. \<forall>z \<in> set zs. \<not> lt z y"
    using assms(3) unfolding xs sorted_wrt_append by blast+
  have ys: "\<forall>y \<in> set ys. \<not> lt elem y" by (auto simp: ys_def dest: set_takeWhileD)
  have zs: "\<forall>z \<in> set zs. lt elem z"
  proof (cases zs)
    case (Cons z zs')
    then have "lt elem z" using hd_dropWhile [of "\<lambda>x. \<not> lt elem x" xs] unfolding zs_def by auto
    moreover have "\<not> lt z' z" if "z' \<in> set zs'" for z' using s(2) Cons that by auto
    ultimately show ?thesis using Cons weak_lt_trans [OF w, of elem _ z] by auto
  qed simp
  have "srt lt (ys @ elem # zs)"
    using s ys zs weak_lt_asym [OF w] by (simp add: sorted_wrt_append)
  moreover obtain h' where "list_insert_ordered lt h l elem = ret h'" "is_list h' l (ys @ elem # zs)"
    using list_insert_ordered_spec [OF assms(2,4,5), of lt] unfolding ys_def zs_def by (auto elim: returnsE)
  ultimately show ?thesis
    using ys zs xs by auto
qed

theorem list_insert_ordered_sorted_witness:
  "returns (list_insert_ordered (value_less uint) sample_heap 64 102) (\<lambda>h'. \<exists>ys zs. [100, 104, 108] = ys @ zs \<and>
    is_list h' 64 (ys @ 102 # zs) \<and> sorted_wrt (\<lambda>a b. \<not> value_less uint b a) (ys @ 102 # zs))"
  using list_insert_ordered_sorted [OF by_value.weak_order_axioms sample_three, of uint 102]
  by (fastforce simp: value_less_def nodes_def head_of_def tail_of_def elim!: returnsE)

text \<open>
  \<^verbatim>\<open>list_max\<close> and \<^verbatim>\<open>list_min\<close> return an element with no greater (no smaller) one, and
  among several such the one that comes first: every element before it is strictly worse. On
  an empty list both return its tail.
\<close>

lemma list_max_min_first:
  assumes "weak_order lt" and "is_list h l xs"
  shows "if xs = [] then list_max lt h l = ret (tail_of l) \<and> list_min lt h l = ret (tail_of l)
    else (\<exists>ys m zs. xs = ys @ m # zs \<and> list_max lt h l = ret m \<and> (\<forall>y \<in> set ys. lt y m) \<and> (\<forall>z \<in> set zs. \<not> lt m z)) \<and>
      (\<exists>ys m zs. xs = ys @ m # zs \<and> list_min lt h l = ret m \<and> (\<forall>y \<in> set ys. lt m y) \<and> (\<forall>z \<in> set zs. \<not> lt z m))"
proof (cases xs)
  case Nil
  then show ?thesis
    using assms(2) by (simp add: list_max_def list_min_def list_begin_spec [OF assms(2)] list_end_spec [OF assms(2)])
next
  case (Cons x ys)
  have "weak_lt (\<lambda>m e. lt e m)"
    using weak_order.weak [OF assms(1)] unfolding weak_lt_def by blast
  moreover define M N where "M = foldl (better lt) x ys" and "N = foldl (better (\<lambda>m e. lt e m)) x ys"
  ultimately have "\<exists>us vs. xs = us @ M # vs \<and> (\<forall>y \<in> set us. lt y M) \<and> (\<forall>z \<in> set vs. \<not> lt M z)"
    "\<exists>us vs. xs = us @ N # vs \<and> (\<forall>y \<in> set us. lt N y) \<and> (\<forall>z \<in> set vs. \<not> lt z N)"
    using best_fold [OF weak_order.weak [OF assms(1)], of x ys] best_fold [of "\<lambda>m e. lt e m" x ys] Cons by blast+
  moreover have "list_max lt h l = ret M" "list_min lt h l = ret N"
    using list_max_eq [of h l x ys lt] list_min_eq [of h l x ys lt] assms(2) Cons by (simp_all add: M_def N_def)
  moreover have "xs \<noteq> []" using Cons by simp
  ultimately show ?thesis by auto
qed

text \<open>
  \<^verbatim>\<open>list_unique\<close> terminates and removes exactly the duplicates: no two neighbours of the
  list compare equal afterwards, the elements taken out stand at the end of the list of
  duplicates, if there is one, and no element is lost.
\<close>

lemma list_unique_splits:
  assumes "is_list h l xs" and "d \<noteq> NULL \<Longrightarrow> is_list h d ds" and "d \<noteq> NULL \<Longrightarrow> set (nodes l xs) \<inter> set (nodes d ds) = {}"
  shows "returns (list_unique lt h l d) (\<lambda>h'. \<exists>us vs. is_list h' l us \<and> (d \<noteq> NULL \<longrightarrow> is_list h' d (ds @ vs)) \<and>
    mset us + mset vs = mset xs \<and> successively (\<lambda>a b. \<not> eqv lt a b) us)"
proof -
  have "dup_list h l xs d ds" using assms(2,3) by (auto simp: dup_list_def)
  from list_unique_spec [OF assms(1) this, of lt] obtain h' where "list_unique lt h l d = ret h'"
    "is_list h' l (uniq lt xs)" "d \<noteq> NULL \<longrightarrow> is_list h' d (ds @ dups lt xs)"
    by (auto simp: dup_list_def elim!: returnsE)
  then show ?thesis
    using mset_uniq_dups [of lt xs] uniq_no_equal [of lt xs] by (intro returnsI) blast+
qed

end
