(* ===== verification/CString.thy ===== *)
theory CString
  imports Memory "HOL-Library.Sublist" "HOL-Library.List_Lexorder"
begin

text \<open>
  The \<^verbatim>\<open>str*\<close> functions of \<^verbatim>\<open>lib/string.c\<close> over the flat byte memory.

  \<open>cstr m p cs\<close> says that the string \<open>cs\<close>, without its terminator, is at address \<open>p\<close>; what each
  function computes is then stated on the lists of characters. The functions that write,
  \<^verbatim>\<open>strlcpy\<close>, \<^verbatim>\<open>strlcat\<close> and \<^verbatim>\<open>strtok_r\<close>, are also shown to write nothing else.
\<close>

section \<open>The model\<close>

definition strcmp :: "mem \<Rightarrow> addr \<Rightarrow> addr \<Rightarrow> int res" where
  "strcmp m a b = ASSERT (a \<noteq> NULL) (ASSERT (b \<noteq> NULL)
     (andthen (loop (\<lambda>(a, b). if m a \<noteq> 0 \<and> m a = m b then ret (Inl (a + 1, b + 1)) else ret (Inr (a, b))) (a, b))
       (\<lambda>(a, b). ret (if m a < m b then - 1 else if m b < m a then 1 else 0))))"

definition strchr :: "mem \<Rightarrow> addr \<Rightarrow> u8 \<Rightarrow> addr res" where
  "strchr m string c = ASSERT (string \<noteq> NULL)
     (loop (\<lambda>string. if m string = c then ret (Inr string)
                      else if m string = 0 then ret (Inr NULL) else ret (Inl (string + 1))) string)"

definition strcspn :: "mem \<Rightarrow> addr \<Rightarrow> addr \<Rightarrow> size_t res" where
  "strcspn m string stopset =
     loop (\<lambda>len. if m (string + len) \<noteq> 0 then
         andthen (strchr m stopset (m (string + len))) (\<lambda>p. if p \<noteq> NULL then ret (Inr len) else ret (Inl (len + 1)))
       else ret (Inr len)) 0"

definition strpbrk :: "mem \<Rightarrow> addr \<Rightarrow> addr \<Rightarrow> addr res" where
  "strpbrk m string stopset =
     loop (\<lambda>string. if m string \<noteq> 0 then
         andthen (strchr m stopset (m string)) (\<lambda>p. if p \<noteq> NULL then ret (Inr string) else ret (Inl (string + 1)))
       else ret (Inr NULL)) string"

definition strrchr :: "mem \<Rightarrow> addr \<Rightarrow> u8 \<Rightarrow> addr res" where
  "strrchr m string c =
     loop (\<lambda>(string, p). if m string \<noteq> 0 then ret (Inl (string + 1, if m string = c then string else p))
                           else ret (Inr p)) (string, NULL)"

definition strspn :: "mem \<Rightarrow> addr \<Rightarrow> addr \<Rightarrow> size_t res" where
  "strspn m string skip =
     loop (\<lambda>len. if m (string + len) \<noteq> 0 then
         andthen (strchr m skip (m (string + len))) (\<lambda>p. if p = NULL then ret (Inr len) else ret (Inl (len + 1)))
       else ret (Inr len)) 0"

definition strlen :: "mem \<Rightarrow> addr \<Rightarrow> size_t res" where
  "strlen m string = ASSERT (string \<noteq> NULL)
     (andthen (loop (\<lambda>p. if m p \<noteq> 0 then ret (Inl (p + 1)) else ret (Inr p)) string) (\<lambda>p. ret (p - string)))"

definition strnlen :: "mem \<Rightarrow> addr \<Rightarrow> size_t \<Rightarrow> size_t res" where
  "strnlen m string maxlen =
     loop (\<lambda>len. if m (string + len) \<noteq> 0 \<and> len < maxlen then ret (Inl (len + 1)) else ret (Inr len)) 0"

definition strstr :: "mem \<Rightarrow> addr \<Rightarrow> addr \<Rightarrow> addr res" where
  "strstr m haystack needle =
     andthen (strlen m haystack) (\<lambda>haystack_len.
     andthen (strlen m needle) (\<lambda>needle_len.
     if needle_len \<le> haystack_len then
       loop (\<lambda>i. if i \<le> haystack_len - needle_len then
           andthen (memcmp m (haystack + i) needle needle_len) (\<lambda>c.
             if c = 0 then ret (Inr (haystack + i)) else ret (Inl (i + 1)))
         else ret (Inr NULL)) 0
     else ret NULL))"

text \<open>
  \<open>strtok_r\<close> takes the variable that \<^verbatim>\<open>save_ptr\<close> points to, \<open>None\<close> if \<^verbatim>\<open>save_ptr\<close> is null,
  and returns the token, the new value of the variable and the memory.
\<close>

definition strtok_r :: "mem \<Rightarrow> addr \<Rightarrow> addr \<Rightarrow> addr option \<Rightarrow> (addr \<times> addr \<times> mem) res" where
  "strtok_r m s delimiters save_ptr = ASSERT (delimiters \<noteq> NULL) (ASSERT (save_ptr \<noteq> None)
     (let s = (if s = NULL then the save_ptr else s) in ASSERT (s \<noteq> NULL)
       (andthen (loop (\<lambda>s. andthen (strchr m delimiters (m s)) (\<lambda>p.
            if p \<noteq> NULL then if m s = 0 then ret (Inr (s, False)) else ret (Inl (s + 1)) else ret (Inr (s, True)))) s)
         (\<lambda>(s, found).
          if \<not> found then ret (NULL, s, m)
          else let token = s in
            andthen (loop (\<lambda>s. andthen (strchr m delimiters (m s)) (\<lambda>p.
                if p = NULL then ret (Inl (s + 1)) else ret (Inr s))) s) (\<lambda>s.
            if m s \<noteq> 0 then ret (token, s + 1, m(s := 0)) else ret (token, s, m))))))"



section \<open>Strings in memory\<close>

fun str_at :: "mem \<Rightarrow> addr \<Rightarrow> u8 list \<Rightarrow> bool" where
  "str_at m p [] \<longleftrightarrow> m p = 0"
| "str_at m p (c # cs) \<longleftrightarrow> m p = c \<and> c \<noteq> 0 \<and> str_at m (p + 1) cs"

definition cstr :: "mem \<Rightarrow> addr \<Rightarrow> u8 list \<Rightarrow> bool" where
  "cstr m p cs \<longleftrightarrow> str_at m p cs \<and> p \<noteq> NULL \<and> unat p + length cs < 4294967296"

lemma cstr_NULL: "cstr m p cs \<Longrightarrow> p \<noteq> NULL"
  by (simp add: cstr_def)

lemma cstr_Nil: "cstr m p [] \<Longrightarrow> m p = 0"
  by (simp add: cstr_def)

lemma cstr_Cons:
  assumes "cstr m p (c # cs)"
  shows "m p = c" and "c \<noteq> 0" and "cstr m (p + 1) cs" and "unat (p + 1) = Suc (unat p)"
proof -
  have u: "unat (p + 1) = Suc (unat p)"
    using assms by (subst unat_add_le) (simp_all add: cstr_def)
  then have "p + 1 \<noteq> NULL" by (metis nat.distinct(1) unsigned_0)
  with u assms show "m p = c" "c \<noteq> 0" "cstr m (p + 1) cs" "unat (p + 1) = Suc (unat p)"
    by (auto simp: cstr_def)
qed

lemma str_at_append: "str_at m p (xs @ ys) \<longleftrightarrow> (\<forall>j < length xs. m (p + of_nat j) = xs ! j \<and> xs ! j \<noteq> 0) \<and> str_at m (p + of_nat (length xs)) ys"
proof (induction xs arbitrary: p)
  case (Cons x xs)
  have "(\<forall>j < Suc (length xs). m (p + of_nat j) = (x # xs) ! j \<and> (x # xs) ! j \<noteq> 0) \<longleftrightarrow>
      m p = x \<and> x \<noteq> 0 \<and> (\<forall>j < length xs. m (p + 1 + of_nat j) = xs ! j \<and> xs ! j \<noteq> 0)"
    by (subst All_less_Suc2) (auto simp: add.assoc)
  then show ?case using Cons.IH [of "p + 1"] by (simp add: add.assoc)
qed simp

lemma cstr_append:
  assumes "cstr m p (xs @ ys)"
  shows "cstr m (p + of_nat (length xs)) ys" and "unat (p + of_nat (length xs)) = unat p + length xs"
    and "j < length xs \<Longrightarrow> m (p + of_nat j) = xs ! j" and "0 \<notin> set xs"
proof -
  have s: "\<forall>j < length xs. m (p + of_nat j) = xs ! j \<and> xs ! j \<noteq> 0" "str_at m (p + of_nat (length xs)) ys"
    and le: "unat p + length xs + length ys < 4294967296" and p: "p \<noteq> NULL"
    using assms by (auto simp: cstr_def str_at_append)
  show u: "unat (p + of_nat (length xs)) = unat p + length xs"
    using le by (subst unat_add_le) (simp_all add: unat_of_nat)
  have "0 < unat p" using p by (simp add: unat_gt_0)
  then have "p + of_nat (length xs) \<noteq> NULL" using u by (metis add_gr_0 less_irrefl unsigned_0)
  then show "cstr m (p + of_nat (length xs)) ys" using s(2) u le by (simp add: cstr_def)
  show "j < length xs \<Longrightarrow> m (p + of_nat j) = xs ! j" using s(1) by blast
  show "0 \<notin> set xs" using s(1) by (auto simp: in_set_conv_nth)
qed

lemma cstr_pos: "cstr m p cs \<Longrightarrow> k \<le> length cs \<Longrightarrow> p + of_nat k \<noteq> NULL"
  using cstr_append(1) [of m p "take k cs" "drop k cs"] cstr_NULL by fastforce

section \<open>What the loops compute\<close>

lemma strlen_cstr:
  assumes "cstr m p cs"
  shows "strlen m p = ret (of_nat (length cs))"
proof -
  have "loop (\<lambda>p. if m p \<noteq> 0 then ret (Inl (p + 1)) else ret (Inr p)) p = ret (p + of_nat (length cs))"
    using assms
  proof (induction cs arbitrary: p)
    case Nil
    then show ?case by (subst loop.simps) (simp add: cstr_Nil)
  next
    case (Cons c cs)
    then show ?case using Cons.IH [of "p + 1"] cstr_Cons [OF Cons.prems] by (subst loop.simps) (simp add: add.assoc)
  qed
  then show ?thesis using cstr_NULL [OF assms] by (simp add: strlen_def)
qed

lemma strnlen_cstr:
  assumes "cstr m p cs"
  shows "strnlen m p n = ret (if unat n \<le> length cs then n else of_nat (length cs))"
proof -
  have "loop (\<lambda>len. if m (p + len) \<noteq> 0 \<and> len < n then ret (Inl (len + 1)) else ret (Inr len)) len =
      ret (if unat n \<le> unat len + length zs then n else len + of_nat (length zs))"
    if "cstr m (p + len) zs" "len \<le> n" "unat len + length zs < 4294967296" for len zs
    using that
  proof (induction zs arbitrary: len)
    case Nil
    then show ?case by (subst loop.simps) (auto simp: cstr_Nil word_le_nat_alt intro: word_unat_eq_iff [THEN iffD2])
  next
    case (Cons z zs)
    note c = cstr_Cons [OF Cons.prems(1)]
    have u: "unat (len + 1) = Suc (unat len)" using Cons.prems(3) by (subst unat_add_le) simp_all
    show ?case
    proof (cases "len < n")
      case True
      then have "len + 1 \<le> n" by (rule add_one_le)
      then show ?thesis
        using True Cons.IH [of "len + 1"] Cons.prems c u by (subst loop.simps) (simp add: add.assoc)
    next
      case False
      then have "len = n" using Cons.prems(2) by simp
      then show ?thesis by (subst loop.simps) simp
    qed
  qed
  from this [of 0 cs] assms show ?thesis by (auto simp: strnlen_def cstr_def)
qed

lemma strchr_cstr:
  assumes "cstr m p cs"
  shows "strchr m p c = ret (if c = 0 \<or> c \<in> set cs then p + of_nat (length (takeWhile (\<lambda>x. x \<noteq> c) cs)) else NULL)"
proof -
  have "loop (\<lambda>string. if m string = c then ret (Inr string)
      else if m string = 0 then ret (Inr NULL) else ret (Inl (string + 1))) p =
    ret (if c = 0 \<or> c \<in> set cs then p + of_nat (length (takeWhile (\<lambda>x. x \<noteq> c) cs)) else NULL)"
    using assms
  proof (induction cs arbitrary: p)
    case Nil
    then show ?case by (subst loop.simps) (auto simp: cstr_Nil)
  next
    case (Cons x cs)
    then show ?case using Cons.IH [of "p + 1"] cstr_Cons [OF Cons.prems] by (subst loop.simps) (auto simp: add.assoc)
  qed
  then show ?thesis using cstr_NULL [OF assms] by (simp add: strchr_def)
qed

lemma strchr_found:
  assumes "cstr m q ds"
  obtains r where "strchr m q c = ret r" and "r \<noteq> NULL \<longleftrightarrow> c = 0 \<or> c \<in> set ds"
  using strchr_cstr [OF assms, of c] cstr_pos [OF assms length_takeWhile_le, of "\<lambda>x. x \<noteq> c"] that
  by (cases "c = 0 \<or> c \<in> set ds") auto

lemma strcspn_cstr:
  assumes "cstr m p cs" and q: "cstr m q ds"
  shows "strcspn m p q = ret (of_nat (length (takeWhile (\<lambda>c. c \<notin> set ds) cs)))"
proof -
  have "loop (\<lambda>len. if m (p + len) \<noteq> 0 then
         andthen (strchr m q (m (p + len))) (\<lambda>r. if r \<noteq> NULL then ret (Inr len) else ret (Inl (len + 1)))
       else ret (Inr len)) len = ret (len + of_nat (length (takeWhile (\<lambda>c. c \<notin> set ds) zs)))"
    if "cstr m (p + len) zs" for len zs
    using that
  proof (induction zs arbitrary: len)
    case Nil
    then show ?case by (subst loop.simps) (simp add: cstr_Nil)
  next
    case (Cons z zs)
    note c = cstr_Cons [OF Cons.prems]
    obtain r where r: "strchr m q z = ret r" "r \<noteq> NULL \<longleftrightarrow> z \<in> set ds" using strchr_found [OF q, of z] c(2) by blast
    then show ?case using Cons.IH [of "len + 1"] c by (subst loop.simps) (simp add: add.assoc)
  qed
  from this [of 0 cs] assms(1) show ?thesis by (simp add: strcspn_def)
qed

lemma strspn_cstr:
  assumes "cstr m p cs" and q: "cstr m q ds"
  shows "strspn m p q = ret (of_nat (length (takeWhile (\<lambda>c. c \<in> set ds) cs)))"
proof -
  have "loop (\<lambda>len. if m (p + len) \<noteq> 0 then
         andthen (strchr m q (m (p + len))) (\<lambda>r. if r = NULL then ret (Inr len) else ret (Inl (len + 1)))
       else ret (Inr len)) len = ret (len + of_nat (length (takeWhile (\<lambda>c. c \<in> set ds) zs)))"
    if "cstr m (p + len) zs" for len zs
    using that
  proof (induction zs arbitrary: len)
    case Nil
    then show ?case by (subst loop.simps) (simp add: cstr_Nil)
  next
    case (Cons z zs)
    note c = cstr_Cons [OF Cons.prems]
    obtain r where r: "strchr m q z = ret r" "r \<noteq> NULL \<longleftrightarrow> z \<in> set ds" using strchr_found [OF q, of z] c(2) by blast
    then show ?case using Cons.IH [of "len + 1"] c by (subst loop.simps) (auto simp: add.assoc)
  qed
  from this [of 0 cs] assms(1) show ?thesis by (simp add: strspn_def)
qed

lemma strpbrk_cstr:
  assumes "cstr m p cs" and q: "cstr m q ds"
  shows "strpbrk m p q = ret (if set cs \<inter> set ds = {} then NULL
    else p + of_nat (length (takeWhile (\<lambda>c. c \<notin> set ds) cs)))"
  unfolding strpbrk_def using assms(1)
proof (induction cs arbitrary: p)
  case Nil
  then show ?case by (subst loop.simps) (simp add: cstr_Nil)
next
  case (Cons z zs)
  note c = cstr_Cons [OF Cons.prems]
  obtain r where r: "strchr m q z = ret r" "r \<noteq> NULL \<longleftrightarrow> z \<in> set ds" using strchr_found [OF q, of z] c(2) by blast
  then show ?case using Cons.IH [of "p + 1"] c by (subst loop.simps) (auto simp: add.assoc)
qed

lemma strrchr_none:
  assumes "cstr m p cs" and "c \<notin> set cs"
  shows "loop (\<lambda>(string, p). if m string \<noteq> 0 then ret (Inl (string + 1, if m string = c then string else p))
                           else ret (Inr p)) (p, q) = ret q"
  using assms
proof (induction cs arbitrary: p)
  case Nil
  then show ?case by (subst loop.simps) (simp add: cstr_Nil)
next
  case (Cons x cs)
  then show ?case using Cons.IH [of "p + 1"] cstr_Cons [OF Cons.prems(1)] by (subst loop.simps) auto
qed

lemma strrchr_some:
  assumes "cstr m p (xs @ c # ys)" and "c \<notin> set ys"
  shows "loop (\<lambda>(string, p). if m string \<noteq> 0 then ret (Inl (string + 1, if m string = c then string else p))
                           else ret (Inr p)) (p, q) = ret (p + of_nat (length xs))"
  using assms
proof (induction xs arbitrary: p q)
  case Nil
  then have *: "m p = c" "c \<noteq> 0" "cstr m (p + 1) ys" using cstr_Cons [of m p c ys] by auto
  show ?case using * strrchr_none [OF *(3) Nil(2), of p] by (subst loop.simps) simp
next
  case (Cons x xs)
  then have *: "m p = x" "x \<noteq> 0" "cstr m (p + 1) (xs @ c # ys)" using cstr_Cons [of m p x "xs @ c # ys"] by auto
  show ?case using * Cons.IH [OF *(3) Cons.prems(2)] by (subst loop.simps) (simp add: add.assoc)
qed

lemma strcmp_cstr:
  assumes "cstr m a as" and "cstr m b bs"
  shows "strcmp m a b = ret (if as < bs then - 1 else if bs < as then 1 else 0)"
proof -
  define f :: "addr \<times> addr \<Rightarrow> (addr \<times> addr + addr \<times> addr) res"
    where "f = (\<lambda>(a, b). if m a \<noteq> 0 \<and> m a = m b then ret (Inl (a + 1, b + 1)) else ret (Inr (a, b)))"
  have "andthen (loop f (a, b)) (\<lambda>(a, b). ret (if m a < m b then - 1 else if m b < m a then 1 else 0 :: int)) =
      ret (if as < bs then - 1 else if bs < as then 1 else 0)"
    using assms
  proof (induction as arbitrary: a b bs)
    case Nil
    then have a: "m a = 0" by (simp add: cstr_Nil)
    then have "loop f (a, b) = ret (a, b)" by (subst loop.simps) (simp add: f_def)
    then show ?case using a Nil(2) cstr_Cons [of m b] by (cases bs) (auto simp: cstr_Nil word_gt_0)
  next
    case (Cons x as)
    note x = cstr_Cons [OF Cons.prems(1)]
    show ?case
    proof (cases bs)
      case Nil
      then have b: "m b = 0" using Cons.prems by (simp add: cstr_Nil)
      then have "loop f (a, b) = ret (a, b)" using x by (subst loop.simps) (simp add: f_def)
      then show ?thesis using x b Nil by (auto simp: word_gt_0)
    next
      case (Cons y bs')
      note y = cstr_Cons [OF Cons.prems(2) [unfolded Cons]]
      show ?thesis
      proof (cases "x = y")
        case True
        then have "loop f (a, b) = loop f (a + 1, b + 1)" using x y by (subst loop.simps) (simp add: f_def)
        then show ?thesis using Cons.IH [OF x(3) y(3)] True Cons by simp
      next
        case False
        then have "loop f (a, b) = ret (a, b)" using x y by (subst loop.simps) (simp add: f_def)
        then show ?thesis using x y False Cons by (auto simp: not_less)
      qed
    qed
  qed
  then show ?thesis using cstr_NULL [OF assms(1)] cstr_NULL [OF assms(2)] by (simp add: strcmp_def f_def)
qed

lemma cstr_nth: "cstr m p cs \<Longrightarrow> j < length cs \<Longrightarrow> m (p + of_nat j) = cs ! j"
  using cstr_append(3) [of m p cs "[]" j] by simp

lemma cstr_length: "cstr m p cs \<Longrightarrow> unat (of_nat (length cs) :: u32) = length cs"
  by (simp add: cstr_def unat_of_nat)

lemma prefix_drop_iff:
  assumes "i + length ns \<le> length hs"
  shows "prefix ns (drop i hs) \<longleftrightarrow> (\<forall>j < length ns. hs ! (i + j) = ns ! j)"
proof -
  have "prefix ns (drop i hs) \<longleftrightarrow> take (length ns) (drop i hs) = ns"
    by (metis append_eq_conv_conj prefix_def take_is_prefix)
  also have "\<dots> \<longleftrightarrow> (\<forall>j < length ns. hs ! (i + j) = ns ! j)"
    using assms by (auto simp: list_eq_iff_nth_eq)
  finally show ?thesis .
qed

lemma strstr_memcmp:
  assumes h: "cstr m h hs" and n: "cstr m n ns" and i: "i + length ns \<le> length hs"
  shows "returns (memcmp m (h + of_nat i) n (of_nat (length ns))) (\<lambda>c. c = 0 \<longleftrightarrow> prefix ns (drop i hs))"
proof -
  have "h + of_nat i \<noteq> NULL" using i by (intro cstr_pos [OF h]) simp
  then show ?thesis
  proof (rule returns_mono [OF memcmp_zero [OF _ cstr_NULL [OF n]]])
    fix c :: int
    have "m (h + of_nat i + of_nat j) = hs ! (i + j)" if "j < length ns" for j
      using cstr_nth [OF h, of "i + j"] that i by (simp add: add.assoc)
    then show "c = 0 \<longleftrightarrow> prefix ns (drop i hs)"
      if "c = 0 \<longleftrightarrow> (\<forall>j < unat (of_nat (length ns) :: u32). m (h + of_nat i + of_nat j) = m (n + of_nat j))"
      using that cstr_nth [OF n] i by (simp add: cstr_length [OF n] prefix_drop_iff)
  qed
qed

lemma strstr_cstr:
  assumes h: "cstr m h hs" and n: "cstr m n ns"
  shows "returns (strstr m h n) (\<lambda>r.
    (\<exists>i \<le> length hs. r = h + of_nat i \<and> prefix ns (drop i hs) \<and> (\<forall>j < i. \<not> prefix ns (drop j hs))) \<or>
    r = NULL \<and> \<not> sublist ns hs)"
proof (cases "length ns \<le> length hs")
  case False
  then have "\<not> sublist ns hs" using sublist_length_le by blast
  moreover have "\<not> (of_nat (length ns) :: u32) \<le> of_nat (length hs)"
    using False cstr_length [OF h] cstr_length [OF n] by (simp add: word_le_nat_alt)
  ultimately show ?thesis by (simp add: strstr_def strlen_cstr [OF h] strlen_cstr [OF n])
next
  case True
  define d :: u32 where "d = of_nat (length hs) - of_nat (length ns)"
  have le: "(of_nat (length ns) :: u32) \<le> of_nat (length hs)"
    using True cstr_length [OF h] cstr_length [OF n] by (simp add: word_le_nat_alt)
  then have d: "unat d = length hs - length ns"
    by (simp add: d_def unat_minus_le cstr_length [OF h] cstr_length [OF n])
  have bound: "length hs < 4294967295" 
  proof -
    have "0 < unat h" using cstr_NULL [OF h] by (simp add: unat_gt_0)
    then show ?thesis using h unfolding cstr_def by linarith
  qed
  have sub: "sublist ns hs \<longleftrightarrow> (\<exists>j \<le> length hs - length ns. prefix ns (drop j hs))"
  proof
    assume "sublist ns hs"
    then obtain us vs where "hs = us @ ns @ vs" by (auto simp: sublist_def)
    then show "\<exists>j \<le> length hs - length ns. prefix ns (drop j hs)" by (intro exI [of _ "length us"]) simp
  next
    assume "\<exists>j \<le> length hs - length ns. prefix ns (drop j hs)"
    then show "sublist ns hs" by (metis append_take_drop_id prefix_def sublist_appendI)
  qed
  define I where "I = (\<lambda>i :: u32. unat i \<le> Suc (length hs - length ns) \<and> (\<forall>j < unat i. \<not> prefix ns (drop j hs)))"
  have "returns (loop (\<lambda>i. if i \<le> d then andthen (memcmp m (h + i) n (of_nat (length ns))) (\<lambda>c.
             if c = 0 then ret (Inr (h + i)) else ret (Inl (i + 1))) else ret (Inr NULL)) 0)
    (\<lambda>r. (\<exists>i \<le> length hs. r = h + of_nat i \<and> prefix ns (drop i hs) \<and> (\<forall>j < i. \<not> prefix ns (drop j hs))) \<or>
       r = NULL \<and> \<not> sublist ns hs)"
  proof (rule returns_loop [where I = I and m = "\<lambda>i. Suc (Suc (length hs)) - unat i"], goal_cases)
    case 1
    show ?case by (simp add: I_def)
  next
    case (2 i)
    then have I: "unat i \<le> Suc (length hs - length ns)" "\<forall>j < unat i. \<not> prefix ns (drop j hs)" by (simp_all add: I_def)
    show ?case
    proof (cases "i \<le> d")
      case False
      then have "unat i = Suc (length hs - length ns)" using I(1) d by (simp add: word_le_nat_alt)
      then show ?thesis using False I(2) by (auto simp: sub less_Suc_eq_le)
    next
      case le: True
      then have i: "unat i + length ns \<le> length hs" using d True by (simp add: word_le_nat_alt)
      have S: "unat (i + 1) = Suc (unat i)" using i bound by (subst unat_add_le) simp_all
      obtain c where c: "memcmp m (h + i) n (of_nat (length ns)) = ret c" "c = 0 \<longleftrightarrow> prefix ns (drop (unat i) hs)"
        using strstr_memcmp [OF h n i] by (auto elim!: returnsE)
      show ?thesis
      proof (cases "c = 0")
        case True
        then show ?thesis using c I(2) le i by (auto intro!: exI [of _ "unat i"])
      next
        case False
        then show ?thesis using c I(2) le i S by (auto simp: I_def less_Suc_eq)
      qed
    qed
  qed
  then show ?thesis using le by (simp add: strstr_def strlen_cstr [OF h] strlen_cstr [OF n] d_def)
qed

lemma strtok_r_skip:
  assumes "cstr m s cs" and d: "cstr m d ds"
  shows "loop (\<lambda>s. andthen (strchr m d (m s)) (\<lambda>p.
        if p \<noteq> NULL then if m s = 0 then ret (Inr (s, False)) else ret (Inl (s + 1)) else ret (Inr (s, True)))) s =
    ret (s + of_nat (length (takeWhile (\<lambda>c. c \<in> set ds) cs)), dropWhile (\<lambda>c. c \<in> set ds) cs \<noteq> [])"
  using assms(1)
proof (induction cs arbitrary: s)
  case Nil
  obtain r where "strchr m d 0 = ret r" "r \<noteq> NULL" using strchr_found [OF d, of 0] by blast
  then show ?case using Nil by (subst loop.simps) (simp add: cstr_Nil)
next
  case (Cons z zs)
  note c = cstr_Cons [OF Cons.prems]
  obtain r where r: "strchr m d z = ret r" "r \<noteq> NULL \<longleftrightarrow> z \<in> set ds" using strchr_found [OF d, of z] c(2) by blast
  then show ?case using Cons.IH [of "s + 1"] c by (subst loop.simps) (auto simp: add.assoc)
qed

lemma strtok_r_end:
  assumes "cstr m s cs" and d: "cstr m d ds"
  shows "loop (\<lambda>s. andthen (strchr m d (m s)) (\<lambda>p. if p = NULL then ret (Inl (s + 1)) else ret (Inr s))) s =
    ret (s + of_nat (length (takeWhile (\<lambda>c. c \<notin> set ds) cs)))"
  using assms(1)
proof (induction cs arbitrary: s)
  case Nil
  obtain r where "strchr m d 0 = ret r" "r \<noteq> NULL" using strchr_found [OF d, of 0] by blast
  then show ?case using Nil by (subst loop.simps) (simp add: cstr_Nil)
next
  case (Cons z zs)
  note c = cstr_Cons [OF Cons.prems]
  obtain r where r: "strchr m d z = ret r" "r \<noteq> NULL \<longleftrightarrow> z \<in> set ds" using strchr_found [OF d, of z] c(2) by blast
  then show ?case using Cons.IH [of "s + 1"] c by (subst loop.simps) (auto simp: add.assoc)
qed

lemma str_at_upd_outside:
  assumes "\<And>k. k \<le> length cs \<Longrightarrow> a \<noteq> p + of_nat k"
  shows "str_at (m(a := v)) p cs \<longleftrightarrow> str_at m p cs"
  using assms
proof (induction cs arbitrary: p)
  case Nil
  then show ?case using Nil [of 0] by auto
next
  case (Cons c cs)
  have "a \<noteq> p" using Cons.prems [of 0] by simp
  moreover have "a \<noteq> p + 1 + of_nat k" if "k \<le> length cs" for k using Cons.prems [of "Suc k"] that by (simp add: add.assoc)
  ultimately show ?case using Cons.IH [of "p + 1"] by auto
qed

lemma cstr_cut:
  assumes "cstr m p (xs @ y # ys)"
  shows "cstr (m(p + of_nat (length xs) := 0)) p xs"
    and "cstr (m(p + of_nat (length xs) := 0)) (p + of_nat (length xs) + 1) ys"
proof -
  have len: "unat p + length xs + length ys + 1 < 4294967296" and p: "p \<noteq> NULL" using assms by (auto simp: cstr_def)
  have s: "\<forall>j < length xs. m (p + of_nat j) = xs ! j \<and> xs ! j \<noteq> 0" using assms by (simp add: cstr_def str_at_append)
  have ne: "p + of_nat j \<noteq> p + of_nat (length xs)" if "j < length xs" for j
    using no_wrap_offset_eq [of p "Suc (length xs)" j "length xs"] that len by simp
  have "str_at (m(p + of_nat (length xs) := 0)) p (xs @ [])"
    unfolding str_at_append using s ne by simp
  then show "cstr (m(p + of_nat (length xs) := 0)) p xs" using len p by (simp add: cstr_def)
  have c: "cstr m (p + of_nat (length xs) + 1) ys"
    using cstr_append(1) [OF assms] by (rule cstr_Cons(3))
  have "p + of_nat (length xs) \<noteq> p + of_nat (length xs) + 1 + of_nat k" if "k \<le> length ys" for k
  proof -
    have e: "p + of_nat (length xs) + 1 + of_nat k = p + of_nat (length xs + 1 + k)" by simp
    have "p + of_nat (length xs) \<noteq> p + of_nat (length xs + 1 + k)"
      using no_wrap_offset_eq [of p "length xs + length ys + 2" "length xs" "length xs + 1 + k"] that len by linarith
    then show ?thesis unfolding e .
  qed
  then show "cstr (m(p + of_nat (length xs) := 0)) (p + of_nat (length xs) + 1) ys"
    using c by (simp add: cstr_def str_at_upd_outside)
qed

lemma strtok_r_cstr:
  assumes s: "cstr m s cs" and d: "cstr m d ds"
    and start: "s' = s \<or> s' = NULL \<and> save_ptr = s"
  defines "n \<equiv> length (takeWhile (\<lambda>c. c \<in> set ds) cs)"
    and "rest \<equiv> dropWhile (\<lambda>c. c \<in> set ds) cs"
  defines "k \<equiv> length (takeWhile (\<lambda>c. c \<notin> set ds) rest)"
  shows "strtok_r m s' d (Some save_ptr) =
    (if rest = [] then ret (NULL, s + of_nat n, m)
     else if k < length rest then ret (s + of_nat n, s + of_nat n + of_nat k + 1, m(s + of_nat n + of_nat k := 0))
     else ret (s + of_nat n, s + of_nat n + of_nat k, m))"
proof -
  have cs: "cs = takeWhile (\<lambda>c. c \<in> set ds) cs @ rest" by (simp add: rest_def)
  have r: "cstr m (s + of_nat n) rest"
    using cstr_append(1) [of m s "takeWhile (\<lambda>c. c \<in> set ds) cs" rest] s cs by (simp add: n_def)
  have rest: "rest = takeWhile (\<lambda>c. c \<notin> set ds) rest @ drop k rest"
    unfolding k_def by (metis append_eq_conv_conj takeWhile_dropWhile_id)
  have "cstr m (s + of_nat n + of_nat k) (drop k rest)"
    using cstr_append(1) [of m "s + of_nat n" "takeWhile (\<lambda>c. c \<notin> set ds) rest" "drop k rest"] r rest by (simp add: k_def)
  then have byte: "m (s + of_nat n + of_nat k) \<noteq> 0 \<longleftrightarrow> k < length rest"
    using cstr_Cons(1,2) [of m _ "rest ! k" "drop (Suc k) rest"]
    by (cases "k < length rest") (auto simp: cstr_Nil Cons_nth_drop_Suc [symmetric])
  have nn: "s \<noteq> NULL" "(if s' = NULL then save_ptr else s') = s" using start cstr_NULL [OF s] by auto
  have skip: "loop (\<lambda>s. andthen (strchr m d (m s)) (\<lambda>p.
        if p \<noteq> NULL then if m s = 0 then ret (Inr (s, False)) else ret (Inl (s + 1)) else ret (Inr (s, True)))) s =
      ret (s + of_nat n, rest \<noteq> [])"
    using strtok_r_skip [OF s d] by (simp add: n_def rest_def)
  have fin: "loop (\<lambda>s. andthen (strchr m d (m s)) (\<lambda>p. if p = NULL then ret (Inl (s + 1)) else ret (Inr s))) (s + of_nat n) =
      ret (s + of_nat n + of_nat k)"
    using strtok_r_end [OF r d] by (simp add: k_def)
  show ?thesis
    unfolding strtok_r_def Let_def option.sel nn(2) skip using nn(1) cstr_NULL [OF d] byte fin by auto
qed

section \<open>Copying\<close>



lemma copied_outside: "\<not> a - dst < n \<Longrightarrow> copied m dst src n a = m a"
  by (simp add: copied_def)






section \<open>Properties\<close>

text \<open>The bytes of "  a bc" at 100 and of " " at 200, the memory around them all zero.\<close>

definition sample_text :: mem where
  "sample_text = (\<lambda>_. 0)(100 := 32, 101 := 32, 102 := 97, 103 := 32, 104 := 98, 105 := 99, 200 := 32)"

lemma sample_text_cstr:
  "cstr sample_text 100 [32, 32, 97, 32, 98, 99]" "cstr sample_text 200 [32]" "cstr sample_text 104 [98, 99]"
  by (simp_all add: cstr_def sample_text_def)

text \<open>
  C31: \<^verbatim>\<open>strtok_r\<close> returns the next token. Started on the string, or with a null pointer on the
  saved one, it skips the delimiters in front; if nothing is left it returns a null pointer,
  leaves memory alone and saves the end of the string. Otherwise the token returned is a
  string of its own, not empty, that has no delimiter, is all of the text up to the next
  delimiter, and the string saved is the text behind that delimiter. At most one byte
  is written, the delimiter that ends the token.
\<close>

theorem strtok_r_next_token:
  assumes "cstr m s cs" and "cstr m d ds" and "s' = s \<or> s' = NULL \<and> save_ptr = s"
  shows "returns (strtok_r m s' d (Some save_ptr)) (\<lambda>(token, save, m').
    let rest = dropWhile (\<lambda>c. c \<in> set ds) cs; tok = takeWhile (\<lambda>c. c \<notin> set ds) rest in
    if rest = [] then token = NULL \<and> cstr m save [] \<and> m' = m
    else tok \<noteq> [] \<and> cstr m' token tok \<and> cstr m' save (drop (Suc (length tok)) rest) \<and>
      (m' = m \<and> tok = rest \<or> length tok < length rest \<and> m' = m(token + of_nat (length tok) := 0) \<and> rest ! length tok \<in> set ds))"
proof -
  define rest where "rest = dropWhile (\<lambda>c. c \<in> set ds) cs"
  define tok where "tok = takeWhile (\<lambda>c. c \<notin> set ds) rest"
  define t where "t = s + of_nat (length (takeWhile (\<lambda>c. c \<in> set ds) cs))"
  have cs: "cs = takeWhile (\<lambda>c. c \<in> set ds) cs @ rest" by (simp add: rest_def)
  have r: "cstr m t rest"
    using cstr_append(1) [of m s "takeWhile (\<lambda>c. c \<in> set ds) cs" rest] assms(1) cs by (simp add: t_def)
  have eq: "strtok_r m s' d (Some save_ptr) =
    (if rest = [] then ret (NULL, t, m)
     else if length tok < length rest then ret (t, t + of_nat (length tok) + 1, m(t + of_nat (length tok) := 0))
     else ret (t, t + of_nat (length tok), m))"
    unfolding strtok_r_cstr [OF assms] rest_def [symmetric] tok_def [symmetric] t_def [symmetric] ..
  have tok: "tok \<noteq> []" if "rest \<noteq> []"
  proof -
    have "hd rest \<notin> set ds" using hd_dropWhile [of "\<lambda>c. c \<in> set ds" cs] that by (simp add: rest_def)
    then show ?thesis using that by (cases rest) (auto simp: tok_def)
  qed
  have split: "rest = tok @ drop (length tok) rest"
    unfolding tok_def by (metis append_eq_conv_conj takeWhile_dropWhile_id)
  show ?thesis
  proof (cases "length tok < length rest")
    case True
    then have rest: "rest = tok @ rest ! length tok # drop (Suc (length tok)) rest"
      using split by (simp add: Cons_nth_drop_Suc)
    have "rest ! length tok \<in> set ds"
      using nth_length_takeWhile [of "\<lambda>c. c \<notin> set ds" rest] True by (simp add: tok_def)
    moreover have "rest \<noteq> []" using True by auto
    ultimately show ?thesis
      using cstr_cut [of m t tok "rest ! length tok" "drop (Suc (length tok)) rest"] r rest tok True
      by (simp add: eq rest_def [symmetric] tok_def [symmetric])
  next
    case False
    then have tr: "tok = rest" using split by simp
    then have "cstr m (t + of_nat (length tok)) []" using cstr_append(1) [of m t rest "[]"] r by simp
    then show ?thesis
      using r tr tok False by (cases "rest = []") (simp_all add: eq rest_def [symmetric] tok_def [symmetric])
  qed
qed

theorem strtok_r_next_token_witness:
  "returns (strtok_r sample_text 100 200 (Some NULL)) (\<lambda>(token, save, m').
     cstr m' token [97] \<and> cstr m' save [98, 99] \<and> m' = sample_text(token + 1 := 0)) \<and>
   returns (strtok_r sample_text NULL 200 (Some 104)) (\<lambda>(token, save, m').
     cstr m' token [98, 99] \<and> cstr m' save [] \<and> m' = sample_text)"
  using strtok_r_next_token [OF sample_text_cstr(1,2), of 100 NULL] strtok_r_next_token [OF sample_text_cstr(3,2), of NULL 104]
  by (auto elim!: returns_mono simp: Let_def)



text \<open>
  C33: The searches are exact. On strings \<open>cs\<close> and \<open>ds\<close> in memory, \<^verbatim>\<open>strlen\<close> is the
  length, \<^verbatim>\<open>strchr\<close> the first occurrence of a character or the terminator if that is what is
  sought, \<^verbatim>\<open>strrchr\<close> the last occurrence, \<^verbatim>\<open>strspn\<close> and \<^verbatim>\<open>strcspn\<close> the length of the
  longest prefix with characters only in, or only outside, the second string, and
  \<^verbatim>\<open>strpbrk\<close> the first character that is in it; a null pointer where there is none.
\<close>

theorem string_searches_exact:
  assumes "cstr m p cs" and "cstr m q ds"
  shows "strlen m p = ret (of_nat (length cs)) \<and>
    strnlen m p n = ret (if unat n \<le> length cs then n else of_nat (length cs)) \<and>
    strchr m p c = ret (if c = 0 \<or> c \<in> set cs then p + of_nat (length (takeWhile (\<lambda>x. x \<noteq> c) cs)) else NULL) \<and>
    (c \<notin> set cs \<and> strrchr m p c = ret NULL \<or>
     (\<exists>xs ys. cs = xs @ c # ys \<and> c \<notin> set ys \<and> strrchr m p c = ret (p + of_nat (length xs)))) \<and>
    strspn m p q = ret (of_nat (length (takeWhile (\<lambda>x. x \<in> set ds) cs))) \<and>
    strcspn m p q = ret (of_nat (length (takeWhile (\<lambda>x. x \<notin> set ds) cs))) \<and>
    strpbrk m p q = ret (if set cs \<inter> set ds = {} then NULL
      else p + of_nat (length (takeWhile (\<lambda>x. x \<notin> set ds) cs)))"
proof -
  have "c \<notin> set cs \<and> strrchr m p c = ret NULL \<or>
     (\<exists>xs ys. cs = xs @ c # ys \<and> c \<notin> set ys \<and> strrchr m p c = ret (p + of_nat (length xs)))"
  proof (cases "c \<in> set cs")
    case True
    then obtain xs ys where "cs = xs @ c # ys" "c \<notin> set ys" by (meson split_list_last)
    then show ?thesis using strrchr_some [of m p xs c ys NULL] assms(1) by (auto simp: strrchr_def)
  next
    case False
    then show ?thesis using strrchr_none [OF assms(1)] by (simp add: strrchr_def)
  qed
  then show ?thesis
    using strlen_cstr [OF assms(1)] strnlen_cstr [OF assms(1)] strchr_cstr [OF assms(1)] strspn_cstr [OF assms]
      strcspn_cstr [OF assms] strpbrk_cstr [OF assms] by blast
qed

theorem string_searches_exact_witness:
  "strlen sample_text 100 = ret 6 \<and> strchr sample_text 100 97 = ret 102 \<and> strrchr sample_text 100 120 = ret NULL \<and>
   strspn sample_text 100 200 = ret 2 \<and> strcspn sample_text 104 200 = ret 2 \<and> strpbrk sample_text 104 200 = ret NULL"
  using string_searches_exact [OF sample_text_cstr(1,2), of 0 97] string_searches_exact [OF sample_text_cstr(1,2), of 0 120]
    string_searches_exact [OF sample_text_cstr(3,2), of 0 0] by (auto simp: Cons_eq_append_conv)

text \<open>
  C34: \<^verbatim>\<open>strcmp\<close> is the lexicographic order on unsigned characters, and \<^verbatim>\<open>strstr\<close> finds the
  first place where the second string is a prefix of what remains of the first, or returns a
  null pointer if the second string occurs nowhere in it.
\<close>

theorem strcmp_strstr_exact:
  assumes "cstr m p cs" and "cstr m q ds"
  shows "strcmp m p q = ret (if cs < ds then - 1 else if ds < cs then 1 else 0) \<and>
    returns (strstr m p q) (\<lambda>r.
      (\<exists>i \<le> length cs. r = p + of_nat i \<and> prefix ds (drop i cs) \<and> (\<forall>j < i. \<not> prefix ds (drop j cs))) \<or>
      r = NULL \<and> \<not> sublist ds cs)"
  using strcmp_cstr [OF assms] strstr_cstr [OF assms] by blast

theorem strcmp_strstr_exact_witness:
  "strcmp sample_text 104 200 = ret 1 \<and> strstr sample_text 104 200 = ret NULL"
  using strcmp_strstr_exact [OF sample_text_cstr(3,2)]
  by (auto elim!: returnsE simp: sublist_def Cons_eq_append_conv less_Suc_eq_le le_Suc_eq)

end
