(* ===== verification/Hash.thy ===== *)
theory Hash
  imports List_Sort CString
begin

text \<open>
  The hash tables of \<^verbatim>\<open>lib/kernel/hash.c\<close>.

  A bucket is the list of the addresses of its elements, what \<^verbatim>\<open>struct list\<close> holds by the
  refinement of the list theory; the buckets are an array of such lists. The hash and the
  comparison function are the table's own fields, as in the source, with \<^verbatim>\<open>aux\<close> inside them.
  What \<^verbatim>\<open>malloc\<close> returns for an array of buckets is an argument of the operations
  that call it: a null pointer (\<open>None\<close>) or an array whose lists hold anything at all.
  An action on the elements, a destructor for example, changes a state of its own.
\<close>

section \<open>The model\<close>

record hash =
  elem_cnt :: size_t
  bucket_cnt :: size_t
  buckets :: "addr list list"
  hash_func :: "addr \<Rightarrow> u32"
  less_func :: "addr \<Rightarrow> addr \<Rightarrow> bool"

type_synonym bucket_malloc = "size_t \<Rightarrow> addr list list option"

text \<open>\<^verbatim>\<open>sizeof (struct list)\<close>: two elements of two pointers.\<close>

abbreviation sizeof_list :: size_t where
  "sizeof_list \<equiv> 16"

definition hash_clear :: "hash \<Rightarrow> (addr \<Rightarrow> 's \<Rightarrow> 's) option \<Rightarrow> 's \<Rightarrow> (hash \<times> 's) res" where
  "hash_clear h destructor s =
     andthen (for_range 0 (bucket_cnt h) (\<lambda>i (h, s).
         andthen (rd (buckets h) (unat i)) (\<lambda>bucket.
         let s = (case destructor of None \<Rightarrow> s | Some d \<Rightarrow> fold d bucket s) in
         andthen (wr (buckets h) (unat i) []) (\<lambda>bs. ret (h\<lparr>buckets := bs\<rparr>, s)))) (h, s))
       (\<lambda>(h, s). ret (h\<lparr>elem_cnt := 0\<rparr>, s))"

definition hash_init :: "bucket_malloc \<Rightarrow> (addr \<Rightarrow> u32) \<Rightarrow> (addr \<Rightarrow> addr \<Rightarrow> bool) \<Rightarrow> hash option res" where
  "hash_init malloc hs lt = (case malloc (sizeof_list * 4) of
       Some bs \<Rightarrow>
         andthen (hash_clear \<lparr>elem_cnt = 0, bucket_cnt = 4, buckets = bs, hash_func = hs, less_func = lt\<rparr> None ())
           (\<lambda>(h, _). ret (Some h))
     | None \<Rightarrow> ret None)"

text \<open>After \<^verbatim>\<open>hash_destroy\<close> the array of buckets is gone: only what the destructor did remains.\<close>

definition hash_destroy :: "hash \<Rightarrow> (addr \<Rightarrow> 's \<Rightarrow> 's) option \<Rightarrow> 's \<Rightarrow> 's res" where
  "hash_destroy h destructor s =
     (if destructor \<noteq> None then andthen (hash_clear h destructor s) (\<lambda>(_, s). ret s) else ret s)"

definition find_bucket :: "hash \<Rightarrow> addr \<Rightarrow> size_t" where
  "find_bucket h e = hash_func h e AND (bucket_cnt h - 1)"

definition find_elem :: "hash \<Rightarrow> size_t \<Rightarrow> addr \<Rightarrow> addr option res" where
  "find_elem h bucket e = andthen (rd (buckets h) (unat bucket))
     (\<lambda>xs. ret (List.find (\<lambda>hi. \<not> less_func h hi e \<and> \<not> less_func h e hi) xs))"

definition turn_off_least_1bit :: "size_t \<Rightarrow> size_t" where
  "turn_off_least_1bit x = x AND (x - 1)"

definition is_power_of_2 :: "size_t \<Rightarrow> bool" where
  "is_power_of_2 x \<longleftrightarrow> x \<noteq> 0 \<and> turn_off_least_1bit x = 0"

definition BEST_ELEMS_PER_BUCKET :: size_t where
  "BEST_ELEMS_PER_BUCKET = 2"

text \<open>\<^verbatim>\<open>list_push_front\<close> on a bucket.\<close>

definition bucket_push :: "size_t \<Rightarrow> addr \<Rightarrow> hash \<Rightarrow> hash res" where
  "bucket_push bucket e h = andthen (rd (buckets h) (unat bucket)) (\<lambda>xs.
     andthen (wr (buckets h) (unat bucket) (e # xs)) (\<lambda>bs. ret (h\<lparr>buckets := bs\<rparr>)))"

definition new_bucket_cnt :: "hash \<Rightarrow> size_t res" where
  "new_bucket_cnt h = (let n = elem_cnt h div BEST_ELEMS_PER_BUCKET; n = (if n < 4 then 4 else n) in
     loop (\<lambda>n. if \<not> is_power_of_2 n then ret (Inl (turn_off_least_1bit n)) else ret (Inr n)) n)"

definition rehash :: "bucket_malloc \<Rightarrow> hash \<Rightarrow> hash res" where
  "rehash malloc h =
     (let old_buckets = buckets h; old_bucket_cnt = bucket_cnt h in
      andthen (new_bucket_cnt h) (\<lambda>new_bucket_cnt.
      if new_bucket_cnt = old_bucket_cnt then ret h
      else case malloc (sizeof_list * new_bucket_cnt) of None \<Rightarrow> ret h
      | Some new_buckets \<Rightarrow>
          andthen (for_range 0 new_bucket_cnt (\<lambda>i bs. wr bs (unat i) []) new_buckets) (\<lambda>new_buckets.
          for_range 0 old_bucket_cnt (\<lambda>i h. andthen (rd old_buckets (unat i))
              (\<lambda>old_bucket. for_each (\<lambda>elem h. bucket_push (find_bucket h elem) elem h) old_bucket h))
            (h\<lparr>buckets := new_buckets, bucket_cnt := new_bucket_cnt\<rparr>))))"

definition insert_elem :: "hash \<Rightarrow> size_t \<Rightarrow> addr \<Rightarrow> hash res" where
  "insert_elem h bucket e = bucket_push bucket e (h\<lparr>elem_cnt := elem_cnt h + 1\<rparr>)"

text \<open>\<^verbatim>\<open>list_remove\<close> takes an element out of the list that it is in.\<close>

definition remove_elem :: "hash \<Rightarrow> addr \<Rightarrow> hash" where
  "remove_elem h e = h\<lparr>elem_cnt := elem_cnt h - 1, buckets := map (remove1 e) (buckets h)\<rparr>"

definition hash_insert :: "bucket_malloc \<Rightarrow> hash \<Rightarrow> addr \<Rightarrow> (addr option \<times> hash) res" where
  "hash_insert malloc h e =
     (let bucket = find_bucket h e in
      andthen (find_elem h bucket e) (\<lambda>old.
      andthen (if old = None then insert_elem h bucket e else ret h) (\<lambda>h.
      andthen (rehash malloc h) (\<lambda>h. ret (old, h)))))"

definition hash_replace :: "bucket_malloc \<Rightarrow> hash \<Rightarrow> addr \<Rightarrow> (addr option \<times> hash) res" where
  "hash_replace malloc h e =
     (let bucket = find_bucket h e in
      andthen (find_elem h bucket e) (\<lambda>old.
      let h = (case old of Some x \<Rightarrow> remove_elem h x | None \<Rightarrow> h) in
      andthen (insert_elem h bucket e) (\<lambda>h.
      andthen (rehash malloc h) (\<lambda>h. ret (old, h)))))"

definition hash_find :: "hash \<Rightarrow> addr \<Rightarrow> addr option res" where
  "hash_find h e = find_elem h (find_bucket h e) e"

definition hash_delete :: "bucket_malloc \<Rightarrow> hash \<Rightarrow> addr \<Rightarrow> (addr option \<times> hash) res" where
  "hash_delete malloc h e =
     andthen (find_elem h (find_bucket h e) e) (\<lambda>found.
     case found of
       Some x \<Rightarrow> andthen (rehash malloc (remove_elem h x)) (\<lambda>h. ret (found, h))
     | None \<Rightarrow> ret (found, h))"

definition hash_apply :: "hash \<Rightarrow> (addr \<Rightarrow> 's \<Rightarrow> 's) option \<Rightarrow> 's \<Rightarrow> 's res" where
  "hash_apply h action s = ASSERT (action \<noteq> None)
     (for_range 0 (bucket_cnt h) (\<lambda>i s.
        andthen (rd (buckets h) (unat i)) (\<lambda>bucket. ret (fold (the action) bucket s))) s)"

definition hash_size :: "hash \<Rightarrow> size_t" where
  "hash_size h = elem_cnt h"

definition hash_empty :: "hash \<Rightarrow> bool" where
  "hash_empty h \<longleftrightarrow> elem_cnt h = 0"

subsection \<open>Iteration\<close>

text \<open>
  An iterator is in a bucket, at the head of its list, at an element, at its tail, or holds the
  null pointer behind the last element.
\<close>

datatype position = At_head | At_elem addr | At_tail | At_null

record hash_iterator =
  it_bucket :: size_t
  it_elem :: position

text \<open>\<^verbatim>\<open>list_next\<close> in the list \<open>xs\<close>: the tail and the null pointer fail its assertion.\<close>

definition next_in :: "addr list \<Rightarrow> position \<Rightarrow> position res" where
  "next_in xs p = (case p of
       At_head \<Rightarrow> ret (case xs of [] \<Rightarrow> At_tail | x # _ \<Rightarrow> At_elem x)
     | At_elem e \<Rightarrow> ret (case dropWhile (\<lambda>x. x \<noteq> e) xs of _ # x # _ \<Rightarrow> At_elem x | _ \<Rightarrow> At_tail)
     | _ \<Rightarrow> stop Assert_fail)"

definition hash_first :: "hash \<Rightarrow> hash_iterator" where
  "hash_first h = \<lparr>it_bucket = 0, it_elem = At_head\<rparr>"

definition hash_next :: "hash \<Rightarrow> hash_iterator \<Rightarrow> (position \<times> hash_iterator) res" where
  "hash_next h i =
     andthen (rd (buckets h) (unat (it_bucket i))) (\<lambda>xs.
     andthen (next_in xs (it_elem i)) (\<lambda>p.
     andthen (loop (\<lambda>i. if it_elem i = At_tail then
             (let b = it_bucket i + 1 in
              if bucket_cnt h \<le> b then ret (Inr \<lparr>it_bucket = b, it_elem = At_null\<rparr>)
              else andthen (rd (buckets h) (unat b)) (\<lambda>xs.
                   andthen (next_in xs At_head) (\<lambda>p. ret (Inl \<lparr>it_bucket = b, it_elem = p\<rparr>))))
           else ret (Inr i)) (i\<lparr>it_elem := p\<rparr>))
       (\<lambda>i. ret (it_elem i, i))))"

definition hash_cur :: "hash_iterator \<Rightarrow> position" where
  "hash_cur i = it_elem i"

text \<open>The iteration idiom of the comment on \<^verbatim>\<open>hash_first\<close>, collecting the elements.\<close>

definition hash_iterate :: "hash \<Rightarrow> addr list res" where
  "hash_iterate h = loop (\<lambda>(i, seen). andthen (hash_next h i) (\<lambda>(r, i).
     if r \<noteq> At_null then case hash_cur i of At_elem e \<Rightarrow> ret (Inl (i, seen @ [e])) | _ \<Rightarrow> stop Wild_access
     else ret (Inr seen))) (hash_first h, [])"

subsection \<open>Hash functions\<close>

definition FNV_32_PRIME :: u32 where
  "FNV_32_PRIME = 16777619"

definition FNV_32_BASIS :: u32 where
  "FNV_32_BASIS = 2166136261"

definition hash_bytes :: "mem \<Rightarrow> addr \<Rightarrow> size_t \<Rightarrow> u32 res" where
  "hash_bytes m buf n = ASSERT (buf \<noteq> NULL)
     (andthen (count_down n (\<lambda>(hash, buf). ((hash * FNV_32_PRIME) XOR ucast (m buf), buf + 1)) (FNV_32_BASIS, buf))
       (\<lambda>(hash, _). ret hash))"

definition hash_string :: "mem \<Rightarrow> addr \<Rightarrow> u32 res" where
  "hash_string m s = ASSERT (s \<noteq> NULL)
     (loop (\<lambda>(hash, s). if m s \<noteq> 0 then ret (Inl ((hash * FNV_32_PRIME) XOR ucast (m s), s + 1)) else ret (Inr hash))
       (FNV_32_BASIS, s))"

text \<open>\<open>i\<close> lies in memory at the address \<open>p\<close> of the parameter, its low byte first.\<close>

definition hash_int :: "addr \<Rightarrow> u32 \<Rightarrow> u32 res" where
  "hash_int p i = hash_bytes (\<lambda>a. ucast (drop_bit (8 * unat (a - p)) i)) p 4"

section \<open>The number of buckets\<close>

lemma top_bit:
  assumes "2 ^ k \<le> unat (x :: u32)" and "unat x < 2 ^ Suc k"
  shows "bit x k"
proof -
  have "unat x div 2 ^ k = 1" using assms by (intro div_nat_eqI) simp_all
  then have "bit (unat x) k" by (simp add: bit_iff_odd)
  then show ?thesis by (simp add: bit_unsigned_iff)
qed

lemma bit_imp_ge:
  assumes "bit (x :: u32) k"
  shows "2 ^ k \<le> unat x"
proof -
  have "odd (unat x div 2 ^ k)" using assms by (simp add: bit_unsigned_iff bit_iff_odd [symmetric])
  then show ?thesis by (metis div_less even_zero not_less)
qed

lemma turn_off_keeps_top:
  assumes "2 ^ k < unat x" and "unat x < 2 ^ Suc k"
  shows "2 ^ k \<le> unat (turn_off_least_1bit x)" and "turn_off_least_1bit x < x"
proof -
  have "0 < x" using assms(1) by (auto simp: word_less_nat_alt)
  then have u: "unat (x - 1) = unat x - 1" by (rule unat_pred)
  then have "bit (x AND (x - 1)) k"
    using assms top_bit [of k x] top_bit [of k "x - 1"] by (simp add: bit_and_iff)
  then show "2 ^ k \<le> unat (turn_off_least_1bit x)"
    using bit_imp_ge unfolding turn_off_least_1bit_def by blast
  have "turn_off_least_1bit x \<le> x - 1" by (simp add: turn_off_least_1bit_def word_and_le1)
  then show "turn_off_least_1bit x < x"
    using u \<open>0 < x\<close> by (simp add: word_less_nat_alt word_le_nat_alt)
qed

lemma is_power_of_2_top:
  assumes "2 ^ k \<le> unat x" and "unat x < 2 ^ Suc k"
  shows "is_power_of_2 x \<longleftrightarrow> unat x = 2 ^ k"
proof
  assume p: "is_power_of_2 x"
  show "unat x = 2 ^ k"
  proof (rule ccontr)
    assume "unat x \<noteq> 2 ^ k"
    then have "2 ^ k \<le> unat (turn_off_least_1bit x)" using assms by (intro turn_off_keeps_top) simp_all
    then show False using p by (simp add: is_power_of_2_def)
  qed
next
  assume e: "unat x = 2 ^ k"
  have "unat x < 2 ^ 32" using unsigned_less [of x, where ?'a = nat] by simp
  then have "k < 32" using e power_strict_increasing_iff [of "2 :: nat" k 32] by simp
  have "x = of_nat (unat x)" by simp
  also have "\<dots> = 2 ^ k" unfolding e by simp
  finally have x: "x = 2 ^ k" .
  have "x AND (x - 1) = 0"
    unfolding x by (rule bit_eqI) (auto simp: bit_simps mask_eq_exp_minus_1 [symmetric])
  then show "is_power_of_2 x" using e by (auto simp: is_power_of_2_def turn_off_least_1bit_def)
qed

lemma round_down_to_power:
  assumes "2 ^ k \<le> unat x" and "unat x < 2 ^ Suc k"
  shows "returns (loop (\<lambda>n. if \<not> is_power_of_2 n then ret (Inl (turn_off_least_1bit n)) else ret (Inr n)) x)
    (\<lambda>n. is_power_of_2 n \<and> unat n = 2 ^ k)"
proof (rule returns_loop [where I = "\<lambda>y. 2 ^ k \<le> unat y \<and> y \<le> x" and m = unat], goal_cases)
  case 1
  show ?case using assms by simp
next
  case (2 y)
  then have y: "2 ^ k \<le> unat y" "unat y < 2 ^ Suc k" using assms(2) by (auto simp: word_le_nat_alt)
  show ?case
  proof (cases "is_power_of_2 y")
    case True
    then show ?thesis using is_power_of_2_top [OF y] by simp
  next
    case False
    then have "2 ^ k < unat y" using is_power_of_2_top [OF y] y(1) by linarith
    from turn_off_keeps_top [OF this y(2)] show ?thesis using False 2 by (auto simp: word_nat)
  qed
qed

text \<open>
  The ideal number of buckets: the largest power of two with at least two elements for every
  bucket, and never below four.
\<close>

definition ideal_cnt :: "nat \<Rightarrow> nat \<Rightarrow> bool" where
  "ideal_cnt n c \<longleftrightarrow> (\<exists>k. c = 2 ^ k) \<and> 4 \<le> c \<and> c \<le> max 4 (n div 2) \<and> max 4 (n div 2) < 2 * c"

lemma new_bucket_cnt_ideal:
  "returns (new_bucket_cnt h) (\<lambda>c. is_power_of_2 c \<and> ideal_cnt (unat (elem_cnt h)) (unat c))"
proof -
  define x where "x = (let n = elem_cnt h div BEST_ELEMS_PER_BUCKET in if n < 4 then 4 else n)"
  have ux: "unat x = max 4 (unat (elem_cnt h) div 2)"
    by (auto simp: x_def Let_def BEST_ELEMS_PER_BUCKET_def unat_div word_less_nat_alt max_def)
  then have "1 \<le> unat x" by simp
  then obtain k where k: "2 ^ k \<le> unat x" "unat x < 2 ^ Suc k" using ex_power_ivl1 [of 2 "unat x"] by auto
  have "(2 :: nat) ^ 2 < 2 ^ Suc k" using k ux by simp
  then have "2 \<le> k" using power_strict_increasing_iff [of "2 :: nat" 2 "Suc k"] by simp
  then have "(2 :: nat) ^ 2 \<le> 2 ^ k" by (rule power_increasing) simp
  then have "ideal_cnt (unat (elem_cnt h)) (2 ^ k)"
    unfolding ideal_cnt_def ux [symmetric] using k by (intro conjI exI [of _ k]) simp_all
  moreover have "new_bucket_cnt h =
      loop (\<lambda>n. if \<not> is_power_of_2 n then ret (Inl (turn_off_least_1bit n)) else ret (Inr n)) x"
    by (simp add: new_bucket_cnt_def x_def Let_def)
  ultimately show ?thesis
    using round_down_to_power [OF k] by (auto elim!: returns_mono)
qed

section \<open>Buckets\<close>

definition contents :: "hash \<Rightarrow> addr multiset" where
  "contents h = mset (concat (buckets h))"

text \<open>Every element is in the bucket of its hash value.\<close>

definition placed :: "hash \<Rightarrow> bool" where
  "placed h \<longleftrightarrow> bucket_cnt h \<noteq> 0 \<and> length (buckets h) = unat (bucket_cnt h) \<and>
     (\<forall>i < length (buckets h). \<forall>e \<in> set (buckets h ! i). unat (find_bucket h e) = i)"

lemma find_bucket_in:
  assumes "placed h"
  shows "unat (find_bucket h e) < length (buckets h)"
proof -
  have "find_bucket h e \<le> bucket_cnt h - 1" by (simp add: find_bucket_def word_and_le1)
  moreover have "0 < bucket_cnt h" using assms by (simp add: placed_def word_gt_0)
  then have "unat (bucket_cnt h - 1) < unat (bucket_cnt h)" by (simp add: unat_pred word_less_nat_alt)
  ultimately show ?thesis using assms by (simp add: placed_def word_le_nat_alt)
qed

lemma mset_concat_update:
  assumes "i < length xss"
  shows "mset (concat (xss[i := ys])) + mset (xss ! i) = mset (concat xss) + mset ys"
proof -
  have "mset (concat xss) = mset (concat (take i xss @ xss ! i # drop (Suc i) xss))"
    using id_take_nth_drop [OF assms] by simp
  then show ?thesis using assms by (simp add: upd_conv_take_nth_drop)
qed

lemma bucket_push_placed:
  assumes "placed h"
  shows "\<exists>bs. bucket_push (find_bucket h e) e h = ret (h\<lparr>buckets := bs\<rparr>) \<and> placed (h\<lparr>buckets := bs\<rparr>) \<and>
    contents (h\<lparr>buckets := bs\<rparr>) = add_mset e (contents h)"
proof -
  define i where "i = unat (find_bucket h e)"
  define bs where "bs = (buckets h)[i := e # buckets h ! i]"
  have i: "i < length (buckets h)" unfolding i_def by (rule find_bucket_in [OF assms])
  have "bucket_push (find_bucket h e) e h = ret (h\<lparr>buckets := bs\<rparr>)"
    using i by (simp add: bucket_push_def bs_def i_def)
  moreover have "placed (h\<lparr>buckets := bs\<rparr>)"
    using assms i by (auto simp: placed_def bs_def find_bucket_def i_def nth_list_update)
  moreover have "contents (h\<lparr>buckets := bs\<rparr>) = add_mset e (contents h)"
    using mset_concat_update [OF i, of "e # buckets h ! i"] by (simp add: contents_def bs_def)
  ultimately show ?thesis by blast
qed

lemma move_bucket:
  assumes "placed h"
  shows "\<exists>bs. for_each (\<lambda>elem h. bucket_push (find_bucket h elem) elem h) xs h = ret (h\<lparr>buckets := bs\<rparr>) \<and>
    placed (h\<lparr>buckets := bs\<rparr>) \<and> contents (h\<lparr>buckets := bs\<rparr>) = mset xs + contents h"
  using assms
proof (induction xs arbitrary: h)
  case Nil
  then show ?case by (intro exI [of _ "buckets h"]) simp
next
  case (Cons x xs)
  obtain bs where bs: "bucket_push (find_bucket h x) x h = ret (h\<lparr>buckets := bs\<rparr>)" "placed (h\<lparr>buckets := bs\<rparr>)"
      "contents (h\<lparr>buckets := bs\<rparr>) = add_mset x (contents h)"
    using bucket_push_placed [OF Cons.prems] by blast
  from Cons.IH [OF bs(2)] bs(1,3) show ?case by auto
qed

lemma take_Suc_concat: "i < length xss \<Longrightarrow> concat (take (Suc i) xss) = concat (take i xss) @ xss ! i"
  by (simp add: take_Suc_conv_app_nth)

lemma move_buckets:
  assumes "placed h" and "length old = unat n"
  shows "returns (for_range 0 n (\<lambda>i h. andthen (rd old (unat i))
      (\<lambda>old_bucket. for_each (\<lambda>elem h. bucket_push (find_bucket h elem) elem h) old_bucket h)) h)
    (\<lambda>h'. \<exists>bs. h' = h\<lparr>buckets := bs\<rparr> \<and> placed h' \<and> contents h' = mset (concat old) + contents h)"
proof -
  have "returns (for_range 0 n (\<lambda>i h. andthen (rd old (unat i))
      (\<lambda>old_bucket. for_each (\<lambda>elem h. bucket_push (find_bucket h elem) elem h) old_bucket h)) h)
    (\<lambda>h'. \<exists>bs. h' = h\<lparr>buckets := bs\<rparr> \<and> placed h' \<and> contents h' = mset (concat (take (unat n) old)) + contents h)"
  proof (rule returns_for_range [where I = "\<lambda>i h'. \<exists>bs. h' = h\<lparr>buckets := bs\<rparr> \<and> placed h' \<and>
      contents h' = mset (concat (take i old)) + contents h"], goal_cases)
    case 1
    show ?case using assms(1) by (intro exI [of _ "buckets h"]) simp
  next
    case (3 i h')
    then obtain bs where h': "h' = h\<lparr>buckets := bs\<rparr>" "placed h'" "contents h' = mset (concat (take (unat i) old)) + contents h"
      by blast
    have i: "unat i < length old" using 3(2) assms(2) by (simp add: word_less_nat_alt)
    obtain bs' where "for_each (\<lambda>elem h. bucket_push (find_bucket h elem) elem h) (old ! unat i) h' = ret (h'\<lparr>buckets := bs'\<rparr>)"
        "placed (h'\<lparr>buckets := bs'\<rparr>)" "contents (h'\<lparr>buckets := bs'\<rparr>) = mset (old ! unat i) + contents h'"
      using move_bucket [OF h'(2)] by blast
    then show ?case using i h' by (auto simp: take_Suc_concat)
  qed simp
  then show ?thesis using assms(2) by simp
qed

lemma clear_buckets:
  assumes "length bs = unat n"
  shows "for_range 0 n (\<lambda>i bs. wr bs (unat i) []) bs = ret (replicate (unat n) [])"
proof -
  have "returns (for_range 0 n (\<lambda>i bs. wr bs (unat i) []) bs) (\<lambda>bs'. length bs' = unat n \<and> (\<forall>j < unat n. bs' ! j = []))"
  proof (rule returns_for_range [where I = "\<lambda>i bs'. length bs' = unat n \<and> (\<forall>j < i. bs' ! j = [])"], goal_cases)
    case (3 i s)
    then show ?case by (auto simp: word_less_nat_alt nth_list_update less_Suc_eq)
  qed (simp_all add: assms)
  then obtain bs' where "for_range 0 n (\<lambda>i bs. wr bs (unat i) []) bs = ret bs'" "length bs' = unat n" "\<forall>j < unat n. bs' ! j = []"
    by (auto elim: returnsE)
  moreover from this have "bs' = replicate (unat n) []" by (intro nth_equalityI) simp_all
  ultimately show ?thesis by simp
qed

lemma concat_replicate_Nil [simp]: "concat (replicate n []) = []"
  by (induction n) simp_all

text \<open>What the code relies on of \<^verbatim>\<open>malloc\<close>: a block is as large as asked for.\<close>

definition bucket_alloc :: "bucket_malloc \<Rightarrow> bool" where
  "bucket_alloc malloc \<longleftrightarrow> (\<forall>n bs. malloc n = Some bs \<longrightarrow> length bs = unat n div unat sizeof_list)"

lemma rehash_placed:
  assumes "placed h" and "is_power_of_2 (bucket_cnt h)" and "4 \<le> bucket_cnt h"
    and malloc: "bucket_alloc malloc" and few: "unat (elem_cnt h) < 536870912"
  shows "returns (rehash malloc h) (\<lambda>h'. placed h' \<and> contents h' = contents h \<and>
    elem_cnt h' = elem_cnt h \<and> hash_func h' = hash_func h \<and> less_func h' = less_func h \<and>
    is_power_of_2 (bucket_cnt h') \<and> 4 \<le> bucket_cnt h' \<and>
    (h' = h \<or> ideal_cnt (unat (elem_cnt h)) (unat (bucket_cnt h'))))"
proof -
  obtain c where c: "new_bucket_cnt h = ret c" "is_power_of_2 c" "ideal_cnt (unat (elem_cnt h)) (unat c)"
    using new_bucket_cnt_ideal by (auto elim: returnsE)
  have c4: "4 \<le> c" and small: "unat c < 268435456"
    using c(3) few by (auto simp: ideal_cnt_def word_le_nat_alt max_def split: if_splits)
  show ?thesis
  proof (cases "c \<noteq> bucket_cnt h \<and> malloc (sizeof_list * c) \<noteq> None")
    case False
    then show ?thesis using assms c(1) by (auto simp: rehash_def Let_def)
  next
    case True
    then obtain bs where bs: "malloc (sizeof_list * c) = Some bs" by blast
    have "unat (sizeof_list * c) = 16 * unat c" using small by (simp add: unat_word_ariths)
    then have len: "length bs = unat c" using malloc bs by (simp add: bucket_alloc_def)
    define h0 where "h0 = h\<lparr>buckets := replicate (unat c) [], bucket_cnt := c\<rparr>"
    have "c \<noteq> 0" using c(2) by (simp add: is_power_of_2_def)
    then have h0: "placed h0" "contents h0 = {#}" by (simp_all add: h0_def placed_def contents_def)
    have "length (buckets h) = unat (bucket_cnt h)" using assms(1) by (simp add: placed_def)
    from move_buckets [OF h0(1) this] obtain bs' where
      "for_range 0 (bucket_cnt h) (\<lambda>i h'. andthen (rd (buckets h) (unat i))
        (\<lambda>old_bucket. for_each (\<lambda>elem h. bucket_push (find_bucket h elem) elem h) old_bucket h')) h0 = ret (h0\<lparr>buckets := bs'\<rparr>)"
      and p: "placed (h0\<lparr>buckets := bs'\<rparr>)" "contents (h0\<lparr>buckets := bs'\<rparr>) = contents h"
      by (auto elim!: returnsE simp: h0(2) contents_def [of h])
    then have "rehash malloc h = ret (h0\<lparr>buckets := bs'\<rparr>)"
      using c(1) True bs clear_buckets [OF len] by (simp add: rehash_def Let_def h0_def)
    then show ?thesis using p c c4 by (simp add: h0_def)
  qed
qed

section \<open>The invariant\<close>

definition same_key :: "hash \<Rightarrow> addr \<Rightarrow> addr \<Rightarrow> bool" where
  "same_key h a b \<longleftrightarrow> \<not> less_func h a b \<and> \<not> less_func h b a"

text \<open>
  The two functions of a table go together: the comparison is a strict weak order, and elements that it
  does not tell apart have the same hash value.
\<close>

definition key_funcs :: "hash \<Rightarrow> bool" where
  "key_funcs h \<longleftrightarrow> weak_lt (less_func h) \<and> (\<forall>a b. same_key h a b \<longrightarrow> hash_func h a = hash_func h b)"

text \<open>
  No element is in the table twice, no two elements have the same key, and the count is right.
  With fewer than $2^{29}$ elements the size of an array of buckets does not wrap around; so many
  elements of eight bytes do not fit in the address space.
\<close>

definition elems :: "hash \<Rightarrow> addr set" where
  "elems h = set (concat (buckets h))"

definition wf_hash :: "hash \<Rightarrow> bool" where
  "wf_hash h \<longleftrightarrow> placed h \<and> is_power_of_2 (bucket_cnt h) \<and> 4 \<le> bucket_cnt h \<and> key_funcs h \<and>
     contents h = mset_set (elems h) \<and> unat (elem_cnt h) = card (elems h) \<and> card (elems h) < 536870912 \<and>
     (\<forall>a \<in> elems h. \<forall>b \<in> elems h. same_key h a b \<longrightarrow> a = b)"

definition hash_room :: "hash \<Rightarrow> bool" where
  "hash_room h \<longleftrightarrow> card (elems h) + 1 < 536870912"

lemma same_key_refl: "key_funcs h \<Longrightarrow> same_key h a a"
  unfolding key_funcs_def same_key_def weak_lt_def by blast

lemma same_key_sym: "same_key h a b \<Longrightarrow> same_key h b a"
  by (auto simp: same_key_def)

lemma same_key_trans: "key_funcs h \<Longrightarrow> same_key h a b \<Longrightarrow> same_key h b c \<Longrightarrow> same_key h a c"
  unfolding key_funcs_def same_key_def using weak_lt_trans by blast

lemma same_key_bucket: "key_funcs h \<Longrightarrow> same_key h a b \<Longrightarrow> find_bucket h a = find_bucket h b"
  by (simp add: key_funcs_def find_bucket_def)

lemma elems_contents: "elems h = set_mset (contents h)"
  by (simp add: elems_def contents_def)

lemma finite_elems [simp]: "finite (elems h)"
  by (simp add: elems_def)

lemma in_elems: "e \<in> elems h \<longleftrightarrow> (\<exists>i < length (buckets h). e \<in> set (buckets h ! i))"
proof -
  have "e \<in> elems h \<longleftrightarrow> (\<exists>xs \<in> set (buckets h). e \<in> set xs)" by (simp add: elems_def)
  then show ?thesis by (simp add: Bex_def in_set_conv_nth [of _ "buckets h"]) blast
qed

lemma placed_bucket:
  assumes "placed h" and "x \<in> elems h"
  shows "x \<in> set (buckets h ! unat (find_bucket h x))"
proof -
  obtain i where "i < length (buckets h)" "x \<in> set (buckets h ! i)" using assms(2) by (auto simp: in_elems)
  moreover from this have "unat (find_bucket h x) = i" using assms(1) by (simp add: placed_def)
  ultimately show ?thesis by simp
qed

lemma find_elem_spec:
  assumes "placed h" and k: "key_funcs h"
  obtains r where "find_elem h (find_bucket h e) e = ret r"
    and "\<And>x. r = Some x \<Longrightarrow> x \<in> elems h \<and> same_key h x e"
    and "r = None \<Longrightarrow> \<forall>x \<in> elems h. \<not> same_key h x e"
proof -
  define xs where "xs = buckets h ! unat (find_bucket h e)"
  have i: "unat (find_bucket h e) < length (buckets h)" by (rule find_bucket_in [OF assms(1)])
  have "find_elem h (find_bucket h e) e = ret (List.find (\<lambda>x. same_key h x e) xs)"
    using i by (simp add: find_elem_def xs_def same_key_def)
  moreover have "x \<in> elems h \<and> same_key h x e" if "List.find (\<lambda>x. same_key h x e) xs = Some x" for x
    using that i by (auto simp: find_Some_iff in_elems xs_def)
  moreover have "\<not> same_key h x e" if "List.find (\<lambda>x. same_key h x e) xs = None" "x \<in> elems h" for x
  proof
    assume "same_key h x e"
    then have "find_bucket h x = find_bucket h e" using same_key_bucket [OF k] by blast
    then have "x \<in> set xs" using placed_bucket [OF assms(1) that(2)] by (simp add: xs_def)
    then show False using that(1) \<open>same_key h x e\<close> by (auto simp: find_None_iff)
  qed
  ultimately show thesis using that by blast
qed

lemma insert_elem_wf:
  assumes "wf_hash h" and "hash_room h" and new: "\<forall>x \<in> elems h. \<not> same_key h x e"
  obtains h' where "insert_elem h (find_bucket h e) e = ret h'" and "wf_hash h'" and "elems h' = insert e (elems h)"
    and "same_key h' = same_key h" and "key_funcs h' = key_funcs h"
proof -
  define h1 where "h1 = h\<lparr>elem_cnt := elem_cnt h + 1\<rparr>"
  note w = assms(1) [unfolded wf_hash_def]
  have "placed h1" "find_bucket h1 e = find_bucket h e" "contents h1 = contents h"
    using w by (simp_all add: h1_def placed_def find_bucket_def contents_def)
  then obtain bs where bs: "bucket_push (find_bucket h e) e h1 = ret (h1\<lparr>buckets := bs\<rparr>)" "placed (h1\<lparr>buckets := bs\<rparr>)"
      "contents (h1\<lparr>buckets := bs\<rparr>) = add_mset e (contents h)"
    using bucket_push_placed [of h1 e] by auto
  define h' where "h' = h1\<lparr>buckets := bs\<rparr>"
  have e: "e \<notin> elems h" using new w same_key_refl by blast
  have el: "elems h' = insert e (elems h)" using bs(3) by (simp add: elems_contents h'_def)
  have k: "same_key h' = same_key h" "key_funcs h' = key_funcs h"
    by (simp_all add: h'_def h1_def same_key_def key_funcs_def fun_eq_iff)
  have "unat (elem_cnt h') = Suc (card (elems h))"
    using w assms(2) by (simp add: h'_def h1_def hash_room_def unat_add_le)
  moreover have "contents h' = mset_set (elems h')" using bs(3) e w by (simp add: h'_def [symmetric] el)
  ultimately have "wf_hash h'"
    using bs(2) w e new assms(2) unfolding wf_hash_def k el
    by (auto simp: h'_def [symmetric] hash_room_def dest: same_key_sym) (simp_all add: h'_def h1_def)
  then show thesis using that bs(1) el k by (simp add: insert_elem_def h1_def h'_def)
qed

lemma concat_remove1:
  assumes "distinct (concat xss)"
  shows "concat (map (remove1 x) xss) = filter ((\<noteq>) x) (concat xss)"
  using assms by (induction xss) (simp_all add: distinct_remove1_removeAll removeAll_filter_not_eq)

lemma bucket_distinct:
  assumes "wf_hash h"
  shows "distinct (concat (buckets h))" and "b < length (buckets h) \<Longrightarrow> distinct (buckets h ! b)"
proof -
  have "length (concat (buckets h)) = card (set (concat (buckets h)))"
    using assms by (simp add: wf_hash_def contents_def elems_def) (metis size_mset size_mset_set)
  then show d: "distinct (concat (buckets h))" by (simp add: card_distinct)
  then show "b < length (buckets h) \<Longrightarrow> distinct (buckets h ! b)" by (simp add: distinct_concat_iff)
qed

lemma remove_elem_wf:
  assumes "wf_hash h" and x: "x \<in> elems h"
  shows "wf_hash (remove_elem h x)" and "elems (remove_elem h x) = elems h - {x}"
    and "same_key (remove_elem h x) = same_key h" and "key_funcs (remove_elem h x) = key_funcs h"
    and "find_bucket (remove_elem h x) = find_bucket h"
proof -
  note w = assms(1) [unfolded wf_hash_def]
  note d = bucket_distinct(1) [OF assms(1)]
  have c: "contents (remove_elem h x) = filter_mset ((\<noteq>) x) (contents h)"
    by (simp add: contents_def remove_elem_def concat_remove1 [OF d] mset_filter)
  then show el: "elems (remove_elem h x) = elems h - {x}" by (auto simp: elems_contents)
  show k: "same_key (remove_elem h x) = same_key h" "key_funcs (remove_elem h x) = key_funcs h"
    "find_bucket (remove_elem h x) = find_bucket h"
    by (simp_all add: remove_elem_def same_key_def key_funcs_def find_bucket_def fun_eq_iff)
  have "placed (remove_elem h x)"
    using w unfolding placed_def k(3) by (auto simp: remove_elem_def dest: subsetD [OF set_remove1_subset])
  moreover have "unat (elem_cnt (remove_elem h x)) = card (elems h - {x})"
  proof -
    have "0 < card (elems h)" using x by (auto simp: card_gt_0_iff)
    then have "0 < elem_cnt h" using w by (simp add: word_less_nat_alt)
    then show ?thesis using w x by (simp add: remove_elem_def unat_pred)
  qed
  moreover have "contents (remove_elem h x) = mset_set (elems h - {x})"
  proof -
    have "{y \<in> elems h. x \<noteq> y} = elems h - {x}" by auto
    then show ?thesis using w unfolding c by (simp add: filter_mset_mset_set)
  qed
  ultimately show "wf_hash (remove_elem h x)"
    using w card_Diff1_le [of "elems h" x] unfolding wf_hash_def k el by (auto simp: remove_elem_def)
qed

lemma rehash_wf:
  assumes "wf_hash h" and "bucket_alloc malloc"
  shows "returns (rehash malloc h) (\<lambda>h'. wf_hash h' \<and> elems h' = elems h \<and> same_key h' = same_key h)"
proof -
  note w = assms(1) [unfolded wf_hash_def]
  have "unat (elem_cnt h) < 536870912" using w by simp
  then have "returns (rehash malloc h) (\<lambda>h'. placed h' \<and> contents h' = contents h \<and>
    elem_cnt h' = elem_cnt h \<and> hash_func h' = hash_func h \<and> less_func h' = less_func h \<and>
    is_power_of_2 (bucket_cnt h') \<and> 4 \<le> bucket_cnt h' \<and>
    (h' = h \<or> ideal_cnt (unat (elem_cnt h)) (unat (bucket_cnt h'))))"
    using w assms(2) by (intro rehash_placed) simp_all
  then show ?thesis
  proof (rule returns_mono)
    fix h' assume h': "placed h' \<and> contents h' = contents h \<and>
      elem_cnt h' = elem_cnt h \<and> hash_func h' = hash_func h \<and> less_func h' = less_func h \<and>
      is_power_of_2 (bucket_cnt h') \<and> 4 \<le> bucket_cnt h' \<and>
      (h' = h \<or> ideal_cnt (unat (elem_cnt h)) (unat (bucket_cnt h')))"
    then have el: "elems h' = elems h" by (simp add: elems_contents)
    have k: "same_key h' = same_key h" "key_funcs h' = key_funcs h"
      using h' by (simp_all add: same_key_def [abs_def] key_funcs_def)
    show "wf_hash h' \<and> elems h' = elems h \<and> same_key h' = same_key h"
      using h' w unfolding wf_hash_def k el by simp
  qed
qed

section \<open>The dictionary contract\<close>

text \<open>
  What a table promises its clients, in terms of the set of its elements: a lookup finds the
  element with the key, insertion adds an element only if none has its key, replacement always adds
  it and deletion takes it out. The clients' facts follow from these laws alone.
\<close>

locale dictionary =
  fixes inv :: "'t \<Rightarrow> bool" and room :: "'t \<Rightarrow> bool" and els :: "'t \<Rightarrow> 'e set" and key :: "'t \<Rightarrow> 'e \<Rightarrow> 'e \<Rightarrow> bool"
    and find_op :: "'t \<Rightarrow> 'e \<Rightarrow> 'e option res" and insert_op :: "'t \<Rightarrow> 'e \<Rightarrow> ('e option \<times> 't) res"
    and replace_op :: "'t \<Rightarrow> 'e \<Rightarrow> ('e option \<times> 't) res" and delete_op :: "'t \<Rightarrow> 'e \<Rightarrow> ('e option \<times> 't) res"
  assumes refl_law: "inv t \<Longrightarrow> key t a a"
    and sym_law: "inv t \<Longrightarrow> key t a b \<Longrightarrow> key t b a"
    and trans_law: "inv t \<Longrightarrow> key t a b \<Longrightarrow> key t b c \<Longrightarrow> key t a c"
    and unique_law: "inv t \<Longrightarrow> a \<in> els t \<Longrightarrow> b \<in> els t \<Longrightarrow> key t a b \<Longrightarrow> a = b"
    and find_law: "inv t \<Longrightarrow> returns (find_op t e) (\<lambda>r. case r of
        Some x \<Rightarrow> x \<in> els t \<and> key t x e | None \<Rightarrow> \<forall>x \<in> els t. \<not> key t x e)"
    and insert_law: "inv t \<Longrightarrow> room t \<Longrightarrow> returns (insert_op t e) (\<lambda>(old, t'). inv t' \<and> key t' = key t \<and> (case old of
        Some x \<Rightarrow> x \<in> els t \<and> key t x e \<and> els t' = els t
      | None \<Rightarrow> (\<forall>x \<in> els t. \<not> key t x e) \<and> els t' = insert e (els t)))"
    and replace_law: "inv t \<Longrightarrow> room t \<Longrightarrow> returns (replace_op t e) (\<lambda>(old, t'). inv t' \<and> key t' = key t \<and> (case old of
        Some x \<Rightarrow> x \<in> els t \<and> key t x e \<and> els t' = insert e (els t - {x})
      | None \<Rightarrow> (\<forall>x \<in> els t. \<not> key t x e) \<and> els t' = insert e (els t)))"
    and delete_law: "inv t \<Longrightarrow> returns (delete_op t e) (\<lambda>(old, t'). inv t' \<and> key t' = key t \<and> (case old of
        Some x \<Rightarrow> x \<in> els t \<and> key t x e \<and> els t' = els t - {x}
      | None \<Rightarrow> (\<forall>x \<in> els t. \<not> key t x e) \<and> els t' = els t))"
begin

lemma find_unique:
  assumes "inv t" and "x \<in> els t" and "key t x e"
  shows "find_op t e = ret (Some x)"
proof -
  obtain r where r: "find_op t e = ret r" "case r of Some x \<Rightarrow> x \<in> els t \<and> key t x e | None \<Rightarrow> \<forall>x \<in> els t. \<not> key t x e"
    using find_law [OF assms(1)] by (auto elim: returnsE)
  then obtain y where y: "r = Some y" "y \<in> els t" "key t y e" using assms(2,3) by (auto split: option.splits)
  then have "key t y x" using assms sym_law trans_law by blast
  then show ?thesis using unique_law assms y r(1) by blast
qed

lemma find_none:
  assumes "inv t" and "\<forall>x \<in> els t. \<not> key t x e"
  shows "find_op t e = ret None"
proof -
  obtain r where r: "find_op t e = ret r" "case r of Some x \<Rightarrow> x \<in> els t \<and> key t x e | None \<Rightarrow> \<forall>x \<in> els t. \<not> key t x e"
    using find_law [OF assms(1)] by (auto elim: returnsE)
  then show ?thesis using assms(2) by (cases r) auto
qed

lemma find_cases:
  assumes "inv t"
  obtains (found) x where "find_op t e = ret (Some x)" and "x \<in> els t" and "key t x e"
  | (none) "find_op t e = ret None" and "\<forall>x \<in> els t. \<not> key t x e"
  using find_unique [OF assms] find_none [OF assms] by blast

lemma find_cong:
  assumes "inv t" and "inv t'" and "els t' = els t" and "key t' = key t"
  shows "find_op t' e = find_op t e"
  using assms(1)
proof (cases rule: find_cases [where e = e])
  case (found x)
  then show ?thesis using find_unique [OF assms(2), of x e] assms(3,4) by simp
next
  case none
  then show ?thesis using find_none [OF assms(2), of e] assms(3,4) by simp
qed

lemma find_insert_other:
  assumes "inv t" and "inv t'" and "els t' = insert e (els t)" and "key t' = key t" and "\<not> key t e k"
  shows "find_op t' k = find_op t k"
  using assms(1)
proof (cases rule: find_cases [where e = k])
  case (found x)
  then show ?thesis using find_unique [OF assms(2), of x k] assms(3,4) by simp
next
  case none
  then show ?thesis using find_none [OF assms(2), of k] assms(3-5) by simp
qed

lemma find_remove_other:
  assumes "inv t" and "inv t'" and "els t' = els t - {x}" and "key t' = key t" and "\<not> key t x k"
  shows "find_op t' k = find_op t k"
  using assms(1)
proof (cases rule: find_cases [where e = k])
  case (found y)
  then have "y \<in> els t'" using assms(3,5) by auto
  then show ?thesis using find_unique [OF assms(2), of y k] found assms(4) by simp
next
  case none
  then show ?thesis using find_none [OF assms(2), of k] assms(3,4) by simp
qed

text \<open>Insertion, in terms of lookups alone.\<close>

lemma insert_find:
  assumes "inv t" and "room t"
  shows "returns (insert_op t e) (\<lambda>(old, t'). inv t' \<and> find_op t e = ret old \<and>
    (\<forall>k. find_op t' k = (if key t e k then ret (Some (case old of None \<Rightarrow> e | Some x \<Rightarrow> x)) else find_op t k)))"
proof -
  obtain old t' where i: "insert_op t e = ret (old, t')" "inv t'" "key t' = key t"
      "case old of Some x \<Rightarrow> x \<in> els t \<and> key t x e \<and> els t' = els t
      | None \<Rightarrow> (\<forall>x \<in> els t. \<not> key t x e) \<and> els t' = insert e (els t)"
    using insert_law [OF assms, of e] by (auto elim: returnsE)
  show ?thesis
  proof (cases old)
    case None
    then have "find_op t' k = (if key t e k then ret (Some e) else find_op t k)" for k
      using i find_unique [OF i(2), of e k] find_insert_other [OF assms(1) i(2), of e k] by simp
    then show ?thesis using i None find_none [OF assms(1)] by simp
  next
    case (Some x)
    then have "find_op t' k = (if key t e k then ret (Some x) else find_op t k)" for k
      using i find_unique [OF i(2), of x k] find_cong [OF assms(1) i(2), of k] trans_law [OF assms(1), of x e k] by simp
    then show ?thesis using i Some find_unique [OF assms(1)] by simp
  qed
qed

lemma delete_find:
  assumes "inv t"
  shows "returns (delete_op t e) (\<lambda>(old, t'). inv t' \<and> find_op t e = ret old \<and>
    (\<forall>k. find_op t' k = (if key t e k then ret None else find_op t k)))"
proof -
  obtain old t' where d: "delete_op t e = ret (old, t')" "inv t'" "key t' = key t"
      "case old of Some x \<Rightarrow> x \<in> els t \<and> key t x e \<and> els t' = els t - {x}
      | None \<Rightarrow> (\<forall>x \<in> els t. \<not> key t x e) \<and> els t' = els t"
    using delete_law [OF assms, of e] by (auto elim: returnsE)
  have absent: "\<forall>y \<in> els t'. \<not> key t y e"
  proof (cases old)
    case (Some x)
    then have x: "x \<in> els t" "key t e x" "els t' = els t - {x}" using d(4) sym_law [OF assms] by auto
    show ?thesis
    proof (intro ballI notI)
      fix y assume "y \<in> els t'" "key t y e"
      then show False using x trans_law [OF assms, of y e x] unique_law [OF assms, of y x] by blast
    qed
  next
    case None
    then show ?thesis using d(4) by simp
  qed
  have gone: "find_op t' k = ret None" if "key t e k" for k
  proof (rule find_none [OF d(2)])
    show "\<forall>x \<in> els t'. \<not> key t' x k"
      using absent that trans_law [OF assms, of _ k e] sym_law [OF assms, of e k] unfolding d(3) by blast
  qed
  show ?thesis
  proof (cases old)
    case None
    then show ?thesis using d gone find_none [OF assms] find_cong [OF assms d(2)] by simp
  next
    case (Some x)
    have "\<not> key t x k" if "\<not> key t e k" for k
      using that d(4) Some sym_law [OF assms, of x e] trans_law [OF assms, of e x k] by auto
    then show ?thesis using d Some gone find_unique [OF assms, of x e] find_remove_other [OF assms d(2), of x] by simp
  qed
qed

lemma replace_find:
  assumes "inv t" and "room t"
  shows "returns (replace_op t e) (\<lambda>(old, t'). inv t' \<and> find_op t e = ret old \<and>
    (\<forall>k. find_op t' k = (if key t e k then ret (Some e) else find_op t k)))"
proof -
  obtain old t' where i: "replace_op t e = ret (old, t')" "inv t'" "key t' = key t"
      "case old of Some x \<Rightarrow> x \<in> els t \<and> key t x e \<and> els t' = insert e (els t - {x})
      | None \<Rightarrow> (\<forall>x \<in> els t. \<not> key t x e) \<and> els t' = insert e (els t)"
    using replace_law [OF assms, of e] by (auto elim: returnsE)
  then have e: "find_op t' k = ret (Some e)" if "key t e k" for k
    using find_unique [OF i(2), of e k] that by (auto split: option.splits)
  have "find_op t' k = find_op t k" if k: "\<not> key t e k" for k
  proof (cases rule: find_cases [OF assms(1), of k])
    case (1 x)
    have "old \<noteq> Some x" using 1(3) i(4) k sym_law [OF assms(1), of x e] trans_law [OF assms(1), of e x k] by auto
    then have "x \<in> els t'" using 1(2) i(4) by (auto split: option.splits)
    then show ?thesis using find_unique [OF i(2), of x k] 1 i(3) by simp
  next
    case 2
    then have "\<forall>x \<in> els t'. \<not> key t' x k" using k i(3,4) by (auto split: option.splits)
    then show ?thesis using find_none [OF i(2)] 2 by simp
  qed
  then show ?thesis
    using i e find_none [OF assms(1), of e] find_unique [OF assms(1), of _ e] by (cases old) auto
qed

text \<open>Inserting an element that was absent and deleting it again gives back the set of elements.\<close>

lemma insert_delete:
  assumes "inv t" and "room t" and new: "\<forall>x \<in> els t. \<not> key t x e"
  shows "returns (andthen (insert_op t e) (\<lambda>(_, t'). delete_op t' e))
    (\<lambda>(old, t'). old = Some e \<and> inv t' \<and> els t' = els t)"
proof -
  obtain old t' where i: "insert_op t e = ret (old, t')" "inv t'" "key t' = key t" "els t' = insert e (els t)"
    using insert_law [OF assms(1,2), of e] new by (auto elim!: returnsE split: option.splits)
  have "e \<notin> els t" using new refl_law [OF assms(1)] by blast
  moreover obtain del u where d: "delete_op t' e = ret (del, u)" "inv u"
      "case del of Some x \<Rightarrow> x \<in> els t' \<and> key t' x e \<and> els u = els t' - {x}
      | None \<Rightarrow> (\<forall>x \<in> els t'. \<not> key t' x e) \<and> els u = els t'"
    using delete_law [OF i(2), of e] by (auto elim: returnsE)
  ultimately show ?thesis
    using i new refl_law [OF assms(1)] by (auto split: option.splits)
qed

end

lemma hash_find_law:
  assumes "wf_hash h"
  shows "returns (hash_find h e) (\<lambda>r. case r of
    Some x \<Rightarrow> x \<in> elems h \<and> same_key h x e | None \<Rightarrow> \<forall>x \<in> elems h. \<not> same_key h x e)"
proof -
  obtain r where "find_elem h (find_bucket h e) e = ret r" "\<And>x. r = Some x \<Longrightarrow> x \<in> elems h \<and> same_key h x e"
      "r = None \<Longrightarrow> \<forall>x \<in> elems h. \<not> same_key h x e"
    using find_elem_spec [of h e] assms by (auto simp: wf_hash_def)
  then show ?thesis by (cases r) (simp_all add: hash_find_def)
qed

lemma hash_insert_law:
  assumes "wf_hash h" and malloc: "bucket_alloc malloc" and "hash_room h"
  shows "returns (hash_insert malloc h e) (\<lambda>(old, h'). wf_hash h' \<and> same_key h' = same_key h \<and> (case old of
      Some x \<Rightarrow> x \<in> elems h \<and> same_key h x e \<and> elems h' = elems h
    | None \<Rightarrow> (\<forall>x \<in> elems h. \<not> same_key h x e) \<and> elems h' = insert e (elems h)))"
proof -
  obtain r where r: "find_elem h (find_bucket h e) e = ret r" "\<And>x. r = Some x \<Longrightarrow> x \<in> elems h \<and> same_key h x e"
      "r = None \<Longrightarrow> \<forall>x \<in> elems h. \<not> same_key h x e"
    using find_elem_spec [of h e] assms(1) by (auto simp: wf_hash_def)
  show ?thesis
  proof (cases r)
    case None
    then obtain h1 where "insert_elem h (find_bucket h e) e = ret h1" "wf_hash h1" "elems h1 = insert e (elems h)"
        "same_key h1 = same_key h"
      using insert_elem_wf [OF assms(1,3), of e] r(3) by blast
    then show ?thesis
      using r None rehash_wf [OF _ malloc, of h1] by (auto simp: hash_insert_def wp elim!: returnsE)
  next
    case (Some x)
    then show ?thesis
      using r rehash_wf [OF assms(1) malloc] by (auto simp: hash_insert_def wp elim!: returnsE)
  qed
qed

lemma hash_replace_law:
  assumes "wf_hash h" and malloc: "bucket_alloc malloc" and "hash_room h"
  shows "returns (hash_replace malloc h e) (\<lambda>(old, h'). wf_hash h' \<and> same_key h' = same_key h \<and> (case old of
      Some x \<Rightarrow> x \<in> elems h \<and> same_key h x e \<and> elems h' = insert e (elems h - {x})
    | None \<Rightarrow> (\<forall>x \<in> elems h. \<not> same_key h x e) \<and> elems h' = insert e (elems h)))"
proof -
  obtain r where r: "find_elem h (find_bucket h e) e = ret r" "\<And>x. r = Some x \<Longrightarrow> x \<in> elems h \<and> same_key h x e"
      "r = None \<Longrightarrow> \<forall>x \<in> elems h. \<not> same_key h x e"
    using find_elem_spec [of h e] assms(1) by (auto simp: wf_hash_def)
  define g where "g = (case r of Some x \<Rightarrow> remove_elem h x | None \<Rightarrow> h)"
  have "wf_hash g \<and> hash_room g \<and> same_key g = same_key h \<and> find_bucket g = find_bucket h \<and>
      (\<forall>x \<in> elems g. \<not> same_key g x e) \<and> elems g = (case r of Some x \<Rightarrow> elems h - {x} | None \<Rightarrow> elems h)"
  proof (cases r)
    case None
    then show ?thesis using r assms by (simp add: g_def)
  next
    case (Some x)
    then have x: "x \<in> elems h" "same_key h x e" using r by auto
    have "\<not> same_key h y e" if "y \<in> elems h - {x}" for y
      using that x assms(1) same_key_trans [of h y e x] same_key_sym [of h x e] by (auto simp: wf_hash_def)
    then show ?thesis
      using Some assms(3) remove_elem_wf [OF assms(1) x(1)] card_Diff1_le [of "elems h" x]
      by (auto simp: g_def hash_room_def)
  qed
  then have g: "wf_hash g" "hash_room g" "same_key g = same_key h" "find_bucket g = find_bucket h"
      "\<forall>x \<in> elems g. \<not> same_key g x e" "elems g = (case r of Some x \<Rightarrow> elems h - {x} | None \<Rightarrow> elems h)"
    by blast+
  obtain h1 where h1: "insert_elem g (find_bucket h e) e = ret h1" "wf_hash h1" "elems h1 = insert e (elems g)"
      "same_key h1 = same_key h"
    using insert_elem_wf [OF g(1,2,5)] g(3,4) by metis
  have "returns (hash_replace malloc h e) (\<lambda>(old, h'). old = r \<and> wf_hash h' \<and> elems h' = elems h1 \<and> same_key h' = same_key h1)"
    using r(1) h1(1) rehash_wf [OF h1(2) malloc] by (auto simp: hash_replace_def Let_def g_def [symmetric] elim!: returnsE)
  then show ?thesis
    using r(2,3) h1 g(6) by (auto elim!: returns_mono split: option.splits)
qed

lemma hash_delete_law:
  assumes "wf_hash h" and malloc: "bucket_alloc malloc"
  shows "returns (hash_delete malloc h e) (\<lambda>(old, h'). wf_hash h' \<and> same_key h' = same_key h \<and> (case old of
      Some x \<Rightarrow> x \<in> elems h \<and> same_key h x e \<and> elems h' = elems h - {x}
    | None \<Rightarrow> (\<forall>x \<in> elems h. \<not> same_key h x e) \<and> elems h' = elems h))"
proof -
  obtain r where r: "find_elem h (find_bucket h e) e = ret r" "\<And>x. r = Some x \<Longrightarrow> x \<in> elems h \<and> same_key h x e"
      "r = None \<Longrightarrow> \<forall>x \<in> elems h. \<not> same_key h x e"
    using find_elem_spec [of h e] assms(1) by (auto simp: wf_hash_def)
  show ?thesis
  proof (cases r)
    case None
    then show ?thesis using r assms by (simp add: hash_delete_def)
  next
    case (Some x)
    then have x: "x \<in> elems h" "same_key h x e" using r(2) by auto
    obtain h' where "rehash malloc (remove_elem h x) = ret h'" "wf_hash h'" "elems h' = elems h - {x}" "same_key h' = same_key h"
      using rehash_wf [OF remove_elem_wf(1) [OF assms(1) x(1)] malloc] remove_elem_wf(2,3) [OF assms(1) x(1)]
      by (auto elim!: returnsE)
    then show ?thesis using Some r(1) x by (simp add: hash_delete_def)
  qed
qed

interpretation hash_dict: dictionary "\<lambda>h. wf_hash h \<and> bucket_alloc malloc" hash_room elems same_key
    hash_find "hash_insert malloc" "hash_replace malloc" "hash_delete malloc" for malloc
proof unfold_locales
  fix t :: hash and a b c e :: addr
  assume inv: "wf_hash t \<and> bucket_alloc malloc"
  then have w: "wf_hash t" and m: "bucket_alloc malloc" and k: "key_funcs t" by (simp_all add: wf_hash_def)
  show "same_key t a a" using k by (rule same_key_refl)
  show "same_key t b a" if "same_key t a b" using that by (rule same_key_sym)
  show "same_key t a c" if "same_key t a b" "same_key t b c" using k that by (rule same_key_trans)
  show "a = b" if "a \<in> elems t" "b \<in> elems t" "same_key t a b" using w that by (simp add: wf_hash_def)
  show "returns (hash_find t e) (\<lambda>r. case r of None \<Rightarrow> \<forall>x \<in> elems t. \<not> same_key t x e | Some x \<Rightarrow> x \<in> elems t \<and> same_key t x e)"
    using w by (rule hash_find_law)
  show "returns (hash_delete malloc t e) (\<lambda>(old, t'). (wf_hash t' \<and> bucket_alloc malloc) \<and> same_key t' = same_key t \<and>
      (case old of None \<Rightarrow> (\<forall>x \<in> elems t. \<not> same_key t x e) \<and> elems t' = elems t
       | Some x \<Rightarrow> x \<in> elems t \<and> same_key t x e \<and> elems t' = elems t - {x}))"
    using hash_delete_law [OF w m, of e] m by (auto elim!: returns_mono)
  assume room: "hash_room t"
  show "returns (hash_insert malloc t e) (\<lambda>(old, t'). (wf_hash t' \<and> bucket_alloc malloc) \<and> same_key t' = same_key t \<and>
      (case old of None \<Rightarrow> (\<forall>x \<in> elems t. \<not> same_key t x e) \<and> elems t' = insert e (elems t)
       | Some x \<Rightarrow> x \<in> elems t \<and> same_key t x e \<and> elems t' = elems t))"
    using hash_insert_law [OF w m room, of e] m by (auto elim!: returns_mono)
  show "returns (hash_replace malloc t e) (\<lambda>(old, t'). (wf_hash t' \<and> bucket_alloc malloc) \<and> same_key t' = same_key t \<and>
      (case old of None \<Rightarrow> (\<forall>x \<in> elems t. \<not> same_key t x e) \<and> elems t' = insert e (elems t)
       | Some x \<Rightarrow> x \<in> elems t \<and> same_key t x e \<and> elems t' = insert e (elems t - {x})))"
    using hash_replace_law [OF w m room, of e] m by (auto elim!: returns_mono)
qed

section \<open>Clearing, applying, iterating\<close>

lemma hash_clear_spec:
  assumes "length (buckets h) = unat (bucket_cnt h)"
  shows "hash_clear h destructor s = ret (h\<lparr>buckets := replicate (length (buckets h)) [], elem_cnt := 0\<rparr>,
    case destructor of None \<Rightarrow> s | Some d \<Rightarrow> fold d (concat (buckets h)) s)"
proof -
  define n where "n = unat (bucket_cnt h)"
  define F where "F = (\<lambda>xs s. case destructor of None \<Rightarrow> s | Some d \<Rightarrow> fold d xs s)"
  have F: "F [] s = s" "F (xs @ ys) s = F ys (F xs s)" for xs ys s by (auto simp: F_def split: option.splits)
  have "returns (for_range 0 (bucket_cnt h) (\<lambda>i (h, s). andthen (rd (buckets h) (unat i)) (\<lambda>bucket.
         let s = F bucket s in andthen (wr (buckets h) (unat i) []) (\<lambda>bs. ret (h\<lparr>buckets := bs\<rparr>, s)))) (h, s))
    (\<lambda>r. r = (h\<lparr>buckets := replicate (unat (bucket_cnt h)) [] @ drop (unat (bucket_cnt h)) (buckets h)\<rparr>,
      F (concat (take (unat (bucket_cnt h)) (buckets h))) s))"
  proof (rule returns_for_range [where I = "\<lambda>i r. r = (h\<lparr>buckets := replicate i [] @ drop i (buckets h)\<rparr>,
      F (concat (take i (buckets h))) s)"], goal_cases)
    case 1
    show ?case by (simp add: F)
  next
    case (3 i r)
    then have i: "unat i < length (buckets h)" using assms by (simp add: word_less_nat_alt)
    then have "drop (unat i) (buckets h) = buckets h ! unat i # drop (Suc (unat i)) (buckets h)"
      by (simp add: Cons_nth_drop_Suc)
    then show ?case using 3(3) i by (simp add: F take_Suc_concat nth_append list_update_append replicate_append_same [symmetric] Let_def)
  qed simp
  then show ?thesis using assms unfolding hash_clear_def F_def by (auto elim!: returnsE split: option.splits)
qed

lemma hash_apply_spec:
  assumes "length (buckets h) = unat (bucket_cnt h)"
  shows "hash_apply h (Some f) s = ret (fold f (concat (buckets h)) s)"
proof -
  have "returns (for_range 0 (bucket_cnt h) (\<lambda>i s. andthen (rd (buckets h) (unat i))
      (\<lambda>bucket. ret (fold f bucket s))) s) (\<lambda>r. r = fold f (concat (take (unat (bucket_cnt h)) (buckets h))) s)"
  proof (rule returns_for_range [where I = "\<lambda>i r. r = fold f (concat (take i (buckets h))) s"], goal_cases)
    case (3 i r)
    then show ?case using assms by (simp add: word_less_nat_alt take_Suc_concat)
  qed simp_all
  then show ?thesis using assms unfolding hash_apply_def option.sel by (auto elim!: returnsE)
qed

text \<open>\<open>at_pos h b p xs\<close>: from position \<open>p\<close> of bucket \<open>b\<close> on, the elements \<open>xs\<close> are left.\<close>

definition at_pos :: "hash \<Rightarrow> nat \<Rightarrow> position \<Rightarrow> addr list \<Rightarrow> bool" where
  "at_pos h b p xs \<longleftrightarrow> b < length (buckets h) \<and>
     (p = At_tail \<and> xs = concat (drop (Suc b) (buckets h)) \<or>
      (\<exists>ys x zs. p = At_elem x \<and> buckets h ! b = ys @ x # zs \<and> xs = x # zs @ concat (drop (Suc b) (buckets h))))"

lemma next_in_head:
  assumes "b < length (buckets h)"
  shows "\<exists>p. next_in (buckets h ! b) At_head = ret p \<and> at_pos h b p (concat (drop b (buckets h)))"
  using assms by (cases "buckets h ! b") (auto simp: next_in_def at_pos_def Cons_nth_drop_Suc [symmetric])

lemma next_in_elem:
  assumes "at_pos h b (At_elem x) (x # xs)" and "distinct (buckets h ! b)"
  shows "\<exists>p. next_in (buckets h ! b) (At_elem x) = ret p \<and> at_pos h b p xs"
proof -
  obtain ys zs where b: "b < length (buckets h)" "buckets h ! b = ys @ x # zs" "xs = zs @ concat (drop (Suc b) (buckets h))"
    using assms(1) by (auto simp: at_pos_def)
  then have "dropWhile (\<lambda>y. y \<noteq> x) (buckets h ! b) = x # zs" using assms(2) by (auto simp: dropWhile_append)
  then show ?thesis using b by (cases zs) (auto simp: next_in_def at_pos_def intro: exI [of _ "ys @ [x]"])
qed

lemma skip_empty:
  assumes "at_pos h (unat b) p xs" and len: "length (buckets h) = unat (bucket_cnt h)"
  shows "\<exists>i. loop (\<lambda>i. if it_elem i = At_tail then
             (let b = it_bucket i + 1 in
              if bucket_cnt h \<le> b then ret (Inr \<lparr>it_bucket = b, it_elem = At_null\<rparr>)
              else andthen (rd (buckets h) (unat b)) (\<lambda>xs.
                   andthen (next_in xs At_head) (\<lambda>p. ret (Inl \<lparr>it_bucket = b, it_elem = p\<rparr>))))
           else ret (Inr i)) \<lparr>it_bucket = b, it_elem = p\<rparr> = ret i \<and>
    (case xs of [] \<Rightarrow> it_elem i = At_null | x # _ \<Rightarrow> it_elem i = At_elem x \<and> at_pos h (unat (it_bucket i)) (At_elem x) xs)"
  using assms(1)
proof (induction "unat (bucket_cnt h) - unat b" arbitrary: b p rule: less_induct)
  case less
  show ?case
  proof (cases "p = At_tail")
    case False
    then show ?thesis using less.prems by (subst loop.simps) (auto simp: at_pos_def)
  next
    case True
    then have b: "unat b < unat (bucket_cnt h)" "xs = concat (drop (Suc (unat b)) (buckets h))"
      using less.prems len by (auto simp: at_pos_def)
    then have S: "unat (b + 1) = Suc (unat b)" by (intro unat_Suc_less [of _ "bucket_cnt h"]) (simp add: word_less_nat_alt)
    show ?thesis
    proof (cases "bucket_cnt h \<le> b + 1")
      case le: True
      then have "length (buckets h) \<le> Suc (unat b)" using S len by (simp add: word_le_nat_alt)
      then show ?thesis using True le b(2) by (subst loop.simps) (simp add: Let_def)
    next
      case False
      then have in_b: "Suc (unat b) < length (buckets h)" using S len by (simp add: word_le_nat_alt)
      then obtain p' where p': "next_in (buckets h ! Suc (unat b)) At_head = ret p'" "at_pos h (unat (b + 1)) p' xs"
        using next_in_head [OF in_b] b(2) S by auto
      show ?thesis
        using less.hyps [OF _ p'(2)] p'(1) True False in_b S b(1) by (subst loop.simps) (simp add: Let_def)
    qed
  qed
qed

lemma hash_next_spec:
  assumes len: "length (buckets h) = unat (bucket_cnt h)" and b: "unat (it_bucket i) < length (buckets h)"
    and nxt: "next_in (buckets h ! unat (it_bucket i)) (it_elem i) = ret p" "at_pos h (unat (it_bucket i)) p xs"
  shows "\<exists>i'. hash_next h i = ret (it_elem i', i') \<and>
    (case xs of [] \<Rightarrow> it_elem i' = At_null | x # _ \<Rightarrow> it_elem i' = At_elem x \<and> at_pos h (unat (it_bucket i')) (At_elem x) xs)"
proof -
  have eq: "i\<lparr>it_elem := p\<rparr> = \<lparr>it_bucket = it_bucket i, it_elem = p\<rparr>" by (cases i) simp
  show ?thesis using skip_empty [OF nxt(2) len, folded eq] nxt(1) b by (auto simp: hash_next_def)
qed

lemma hash_iterate_spec:
  assumes "wf_hash h"
  shows "hash_iterate h = ret (concat (buckets h))"
proof -
  have len: "length (buckets h) = unat (bucket_cnt h)" and pos: "0 < length (buckets h)"
    using assms by (auto simp: wf_hash_def placed_def unat_gt_0)
  define f where "f = (\<lambda>(i, seen). andthen (hash_next h i) (\<lambda>(r, i).
     if r \<noteq> At_null then case hash_cur i of At_elem e \<Rightarrow> ret (Inl (i, seen @ [e])) | _ \<Rightarrow> stop Wild_access
     else ret (Inr seen)))"
  have step: "loop f (i, seen) = ret (seen @ xs)"
    if "unat (it_bucket i) < length (buckets h)"
      "next_in (buckets h ! unat (it_bucket i)) (it_elem i) = ret p" "at_pos h (unat (it_bucket i)) p xs" for i seen p xs
    using that
  proof (induction xs arbitrary: i seen p)
    case Nil
    obtain i' where "hash_next h i = ret (it_elem i', i')" "it_elem i' = At_null"
      using hash_next_spec [OF len Nil] by auto
    then have "f (i, seen) = ret (Inr seen)" by (simp add: f_def)
    then show ?case by (subst loop.simps) simp
  next
    case (Cons x xs)
    obtain i' where i': "hash_next h i = ret (it_elem i', i')" "it_elem i' = At_elem x"
        "at_pos h (unat (it_bucket i')) (At_elem x) (x # xs)"
      using hash_next_spec [OF len Cons.prems] by auto
    then have f: "f (i, seen) = ret (Inl (i', seen @ [x]))" by (simp add: f_def hash_cur_def)
    have b: "unat (it_bucket i') < length (buckets h)" using i'(3) by (simp add: at_pos_def)
    obtain p' where "next_in (buckets h ! unat (it_bucket i')) (At_elem x) = ret p'" "at_pos h (unat (it_bucket i')) p' xs"
      using next_in_elem [OF i'(3) bucket_distinct(2) [OF assms b]] by blast
    then have "loop f (i', seen @ [x]) = ret ((seen @ [x]) @ xs)" using Cons.IH [OF b] i'(2) by simp
    then show ?case using f by (subst loop.simps) simp
  qed
  obtain p where "next_in (buckets h ! 0) At_head = ret p" "at_pos h 0 p (concat (buckets h))"
    using next_in_head [OF pos] by auto
  then have "loop f (hash_first h, []) = ret ([] @ concat (buckets h))"
    using pos by (intro step [of _ p]) (simp_all add: hash_first_def)
  then show ?thesis by (simp add: hash_iterate_def f_def)
qed

lemma hash_init_spec:
  assumes "bucket_alloc malloc" and "weak_lt lt" and "\<And>a b. \<not> lt a b \<Longrightarrow> \<not> lt b a \<Longrightarrow> hs a = hs b"
  shows "returns (hash_init malloc hs lt) (\<lambda>r. case r of
      None \<Rightarrow> malloc 64 = None
    | Some h \<Rightarrow> wf_hash h \<and> elems h = {} \<and> hash_func h = hs \<and> less_func h = lt)"
proof (cases "malloc 64")
  case None
  then show ?thesis by (simp add: hash_init_def)
next
  case (Some bs)
  then have len: "length bs = 4" using assms(1) by (auto simp: bucket_alloc_def)
  define h where "h = \<lparr>elem_cnt = 0, bucket_cnt = 4, buckets = replicate 4 [], hash_func = hs, less_func = lt\<rparr>"
  have "hash_init malloc hs lt = ret (Some h)"
    using Some len by (simp add: hash_init_def hash_clear_spec h_def)
  moreover have "is_power_of_2 4" using is_power_of_2_top [of 2 4] by simp
  then have "wf_hash h"
    using assms(2,3) by (auto simp: wf_hash_def h_def placed_def key_funcs_def same_key_def contents_def elems_def)
  moreover have "elems h = {}" by (simp add: h_def elems_def)
  ultimately show ?thesis by (simp add: h_def)
qed

section \<open>Hash values\<close>

definition fnv :: "u8 list \<Rightarrow> u32" where
  "fnv = foldl (\<lambda>hash c. (hash * FNV_32_PRIME) XOR ucast c) FNV_32_BASIS"

lemma hash_bytes_fnv:
  assumes "buf \<noteq> NULL" and "\<And>j. j < unat n \<Longrightarrow> m (buf + of_nat j) = cs ! j" and "length cs = unat n"
  shows "hash_bytes m buf n = ret (fnv cs)"
proof -
  have "((\<lambda>(hash, buf). ((hash * FNV_32_PRIME) XOR ucast (m buf), buf + 1)) ^^ k) (b, buf) =
      (foldl (\<lambda>hash c. (hash * FNV_32_PRIME) XOR ucast c) b (take k cs), buf + of_nat k)" if "k \<le> unat n" for k b
    using that
  proof (induction k)
    case (Suc k)
    then show ?case using assms(2) [of k] assms(3) by (simp add: take_Suc_conv_app_nth add.assoc add.commute)
  qed simp
  then show ?thesis using assms(1,3) by (simp add: hash_bytes_def count_down_eq fnv_def)
qed

lemma hash_string_fnv:
  assumes "cstr m s cs"
  shows "hash_string m s = ret (fnv cs)"
proof -
  have "loop (\<lambda>(hash, s). if m s \<noteq> 0 then ret (Inl ((hash * FNV_32_PRIME) XOR ucast (m s), s + 1)) else ret (Inr hash)) (b, s) =
      ret (foldl (\<lambda>hash c. (hash * FNV_32_PRIME) XOR ucast c) b cs)" for b
    using assms
  proof (induction cs arbitrary: s b)
    case Nil
    then show ?case by (subst loop.simps) (simp add: cstr_Nil)
  next
    case (Cons c cs)
    then show ?case using cstr_Cons [OF Cons.prems] by (subst loop.simps) simp
  qed
  then show ?thesis using cstr_NULL [OF assms] by (simp add: hash_string_def fnv_def)
qed

lemma hash_int_fnv:
  assumes "p \<noteq> NULL"
  shows "hash_int p i = ret (fnv [ucast i, ucast (drop_bit 8 i), ucast (drop_bit 16 i), ucast (drop_bit 24 i)])"
  unfolding hash_int_def
proof (rule hash_bytes_fnv [OF assms])
  fix j assume "j < unat (4 :: size_t)"
  then have "j = 0 \<or> j = 1 \<or> j = 2 \<or> j = 3" by auto
  then show "ucast (drop_bit (8 * unat (p + of_nat j - p)) i) =
      [ucast i, ucast (drop_bit 8 i), ucast (drop_bit 16 i), ucast (drop_bit 24 i) :: u8] ! j"
    by auto
qed simp

section \<open>Properties\<close>

definition sample_table :: hash where
  "sample_table = \<lparr>elem_cnt = 1, bucket_cnt = 4, buckets = [[], [5], [], []], hash_func = (\<lambda>e. e), less_func = (<)\<rparr>"

definition sample_bucket_malloc :: bucket_malloc where
  "sample_bucket_malloc n = Some (replicate (unat n div unat sizeof_list) [])"

lemma sample_table_wf: "wf_hash sample_table" "hash_room sample_table" "elems sample_table = {5}"
    "bucket_alloc sample_bucket_malloc"
proof -
  have "weak_lt ((<) :: addr \<Rightarrow> addr \<Rightarrow> bool)" unfolding weak_lt_def by auto
  moreover have "\<forall>a b :: addr. \<not> a < b \<and> \<not> b < a \<longrightarrow> a = b" by auto
  moreover have "is_power_of_2 4" using is_power_of_2_top [of 2 4] by simp
  moreover have "\<forall>i < Suc (Suc (Suc (Suc 0))). \<forall>e \<in> set ([[], [5], [], []] ! i). unat (e AND 3 :: addr) = i"
    by (simp add: All_less_Suc2)
  ultimately show "wf_hash sample_table"
    by (simp add: wf_hash_def placed_def key_funcs_def same_key_def contents_def elems_def sample_table_def find_bucket_def)
  show "hash_room sample_table" "elems sample_table = {5}" "bucket_alloc sample_bucket_malloc"
    by (auto simp: hash_room_def elems_def sample_table_def bucket_alloc_def sample_bucket_malloc_def)
qed

text \<open>
  C16: A hash table is a map. Whether or not \<^verbatim>\<open>malloc\<close> finds memory for more buckets,
  insertion, replacement and deletion return, keep the invariant of the table, return the element
  that had the key, and change the answer of \<^verbatim>\<open>hash_find\<close> for this key alone: to the new element,
  except that insertion keeps an old one, and to nothing after a deletion.
\<close>

theorem hash_table_is_map:
  assumes "wf_hash h" and "hash_room h" and "bucket_alloc malloc"
  shows "returns (hash_insert malloc h e) (\<lambda>(old, h'). wf_hash h' \<and> hash_find h e = ret old \<and>
      (\<forall>k. hash_find h' k = (if same_key h e k then ret (Some (case old of None \<Rightarrow> e | Some x \<Rightarrow> x)) else hash_find h k))) \<and>
    returns (hash_replace malloc h e) (\<lambda>(old, h'). wf_hash h' \<and> hash_find h e = ret old \<and>
      (\<forall>k. hash_find h' k = (if same_key h e k then ret (Some e) else hash_find h k))) \<and>
    returns (hash_delete malloc h e) (\<lambda>(old, h'). wf_hash h' \<and> hash_find h e = ret old \<and>
      (\<forall>k. hash_find h' k = (if same_key h e k then ret None else hash_find h k)))"
  using hash_dict.insert_find [of h malloc e] hash_dict.replace_find [of h malloc e] hash_dict.delete_find [of h malloc e] assms
  by (auto elim!: returns_mono)

theorem hash_table_is_map_witness:
  "returns (hash_insert sample_bucket_malloc sample_table 9) (\<lambda>(old, h'). old = None \<and> hash_find h' 9 = ret (Some 9) \<and>
     hash_find h' 5 = ret (Some 5))"
proof -
  have "hash_find sample_table 9 = ret None" "hash_find sample_table 5 = ret (Some 5)" "\<not> same_key sample_table 9 5"
    "same_key sample_table 9 9"
    by (simp_all add: hash_find_def find_elem_def find_bucket_def sample_table_def same_key_def)
  then show ?thesis
    using hash_table_is_map [OF sample_table_wf(1,2,4), of 9] by (auto elim!: returnsE)
qed

text \<open>
  C27: Iteration reaches every element once. From \<^verbatim>\<open>hash_first\<close> on, the calls of
  \<^verbatim>\<open>hash_next\<close> give each element of the table exactly one time before the null pointer,
  \<^verbatim>\<open>hash_size\<close> of them; \<^verbatim>\<open>hash_apply\<close> and \<^verbatim>\<open>hash_clear\<close> call their functions on the same
  elements in the same order, and \<^verbatim>\<open>hash_clear\<close> leaves an empty table.
\<close>

theorem hash_iteration_complete:
  assumes "wf_hash h"
  shows "\<exists>xs. hash_iterate h = ret xs \<and> distinct xs \<and> set xs = elems h \<and> length xs = unat (hash_size h) \<and>
    hash_apply h (Some f) s = ret (fold f xs s) \<and>
    (\<exists>h'. hash_clear h (Some f) s = ret (h', fold f xs s) \<and> wf_hash h' \<and> elems h' = {} \<and> hash_empty h')"
proof -
  have len: "length (buckets h) = unat (bucket_cnt h)" using assms by (simp add: wf_hash_def placed_def)
  define h' where "h' = h\<lparr>buckets := replicate (length (buckets h)) [], elem_cnt := 0\<rparr>"
  have "wf_hash h'"
    using assms by (auto simp: wf_hash_def placed_def key_funcs_def same_key_def h'_def contents_def elems_def)
  moreover have "elems h' = {}" "hash_empty h'" by (simp_all add: h'_def elems_def hash_empty_def)
  moreover have "hash_clear h (Some f) s = ret (h', fold f (concat (buckets h)) s)"
    by (simp add: hash_clear_spec [OF len] h'_def)
  moreover have "length (concat (buckets h)) = unat (hash_size h)"
    using assms distinct_card [OF bucket_distinct(1) [OF assms]] by (simp add: wf_hash_def elems_def hash_size_def)
  ultimately show ?thesis
    using hash_iterate_spec [OF assms] bucket_distinct(1) [OF assms] hash_apply_spec [OF len, of f s]
    by (auto simp: elems_def)
qed

theorem hash_iteration_complete_witness:
  "hash_iterate sample_table = ret [5] \<and> hash_apply sample_table (Some (\<lambda>e n. n + e)) 1 = ret 6"
proof -
  obtain xs where xs: "hash_iterate sample_table = ret xs" "set xs = {5}" "distinct xs"
      "hash_apply sample_table (Some (\<lambda>e n. n + e)) 1 = ret (fold (\<lambda>e n. n + e) xs 1)"
    using hash_iteration_complete [OF sample_table_wf(1), of "\<lambda>e n. n + e" 1] sample_table_wf(3) by auto
  then have "xs = [5]" by (cases xs; cases "tl xs") auto
  then show ?thesis using xs by simp
qed



text \<open>
  The hash of a string is the hash of its bytes: \<^verbatim>\<open>hash_string\<close> ends at the
  terminator and agrees with \<^verbatim>\<open>hash_bytes\<close> over \<^verbatim>\<open>strlen\<close> bytes, and \<^verbatim>\<open>hash_int\<close> does not
  depend on where its argument is stored.
\<close>

lemma hash_string_hash_bytes:
  assumes "cstr m s cs" and "p \<noteq> NULL" and "q \<noteq> NULL"
  shows "hash_string m s = andthen (strlen m s) (hash_bytes m s) \<and> hash_int p i = hash_int q i"
  using hash_string_fnv [OF assms(1)] strlen_cstr [OF assms(1)] hash_int_fnv [OF assms(2)] hash_int_fnv [OF assms(3)]
    hash_bytes_fnv [OF cstr_NULL [OF assms(1)], of "of_nat (length cs)" m cs] cstr_nth [OF assms(1)] cstr_length [OF assms(1)]
  by simp

end
