(* ===== verification/Arith64.thy ===== *)
theory Arith64
  imports Prelude "HOL-Library.Signed_Division"
begin

text \<open>
  The 64-bit division routines of \<^verbatim>\<open>lib/arithmetic.c\<close>, which the compiler calls for the
  operators on \<^verbatim>\<open>long long\<close>. The \<^verbatim>\<open>DIVL\<close> instruction traps if the quotient does not fit in
  32 bits; the proofs show that the code never makes it trap unless the divisor is zero.
\<close>

section \<open>The model\<close>

definition divl :: "u64 \<Rightarrow> u32 \<Rightarrow> u32 res" where
  "divl n d = (if d = 0 \<or> 4294967296 \<le> n div ucast d then stop Divide_trap else ret (ucast (n div ucast d)))"

text \<open>\<^verbatim>\<open>if (x <= m) { n += k; x <<= k; }\<close>\<close>

definition nlz_step :: "nat \<Rightarrow> u32 \<Rightarrow> nat \<times> u32 \<Rightarrow> nat \<times> u32" where
  "nlz_step k m = (\<lambda>(n, x). if x \<le> m then (n + k, push_bit k x) else (n, x))"

definition nlz :: "u32 \<Rightarrow> nat" where
  "nlz x =
     (let p = (0, x);
          p = nlz_step 16 0x0000FFFF p;
          p = nlz_step 8 0x00FFFFFF p;
          p = nlz_step 4 0x0FFFFFFF p;
          (n, x) = nlz_step 2 0x3FFFFFFF p
      in if x \<le> 0x7FFFFFFF then n + 1 else n)"

definition udiv64 :: "u64 \<Rightarrow> u64 \<Rightarrow> u64 res" where
  "udiv64 n d =
     (if drop_bit 32 d = 0 then
        let b = push_bit 32 1; n1 = ucast (drop_bit 32 n) :: u32; n0 = ucast n :: u32; d0 = ucast d :: u32 in
        if d0 = 0 then stop Divide_trap
        else andthen (divl (b * ucast (n1 mod d0) + ucast n0) d0) (\<lambda>q. ret (ucast q + b * ucast (n1 div d0)))
      else if n < d then ret 0
      else
        let d1 = ucast (drop_bit 32 d) :: u32; s = nlz d1 in
        andthen (divl (drop_bit 1 n) (ucast (drop_bit 32 (push_bit s d)))) (\<lambda>q32.
        let q = ucast (drop_bit (31 - s) q32) in
        ret (if n - (q - 1) * d < d then q - 1 else q)))"

definition umod64 :: "u64 \<Rightarrow> u64 \<Rightarrow> u32 res" where
  "umod64 n d = andthen (udiv64 n d) (\<lambda>q. ret (ucast (n - d * q)))"

definition sdiv64 :: "u64 \<Rightarrow> u64 \<Rightarrow> u64 res" where
  "sdiv64 n d =
     (let n_abs = (if 0 \<le> sint n then n else - n); d_abs = (if 0 \<le> sint d then d else - d) in
      andthen (udiv64 n_abs d_abs) (\<lambda>q_abs. ret (if (sint n < 0) = (sint d < 0) then q_abs else - q_abs)))"

definition smod64 :: "u64 \<Rightarrow> u64 \<Rightarrow> u32 res" where
  "smod64 n d = andthen (sdiv64 n d) (\<lambda>q. ret (ucast (n - d * q)))"

text \<open>The entry points \<^verbatim>\<open>__divdi3\<close>, \<^verbatim>\<open>__moddi3\<close>, \<^verbatim>\<open>__udivdi3\<close> and \<^verbatim>\<open>__umoddi3\<close>.\<close>

definition divdi3 :: "u64 \<Rightarrow> u64 \<Rightarrow> u64 res" where
  "divdi3 n d = sdiv64 n d"

definition moddi3 :: "u64 \<Rightarrow> u64 \<Rightarrow> u64 res" where
  "moddi3 n d = andthen (smod64 n d) (\<lambda>r. ret (scast r))"

definition udivdi3 :: "u64 \<Rightarrow> u64 \<Rightarrow> u64 res" where
  "udivdi3 n d = udiv64 n d"

definition umoddi3 :: "u64 \<Rightarrow> u64 \<Rightarrow> u64 res" where
  "umoddi3 n d = andthen (umod64 n d) (\<lambda>r. ret (ucast r))"

section \<open>Leading zeros\<close>

lemma unat_push_bit_in:
  assumes "unat (x :: 'a::len word) * 2 ^ k < 2 ^ LENGTH('a)"
  shows "unat (push_bit k x) = unat x * 2 ^ k"
proof -
  have "unat (push_bit k x) = take_bit LENGTH('a) (push_bit k (unat x))" by (rule unsigned_push_bit_eq)
  also have "\<dots> = unat x * 2 ^ k" using assms by (simp add: take_bit_eq_mod push_bit_eq_mult)
  finally show ?thesis .
qed

lemma nlz_bounds:
  assumes "x \<noteq> 0"
  shows "nlz x \<le> 31" and "2 ^ 31 \<le> unat x * 2 ^ nlz x" and "unat x * 2 ^ nlz x < 2 ^ 32"
proof -
  define I where "I = (\<lambda>j (p :: nat \<times> u32). unat (snd p) = unat x * 2 ^ fst p \<and> 2 ^ j \<le> unat (snd p))"
  have st: "I (32 - k) (nlz_step k m p) \<and> fst (nlz_step k m p) \<le> fst p + k"
    if "I (32 - 2 * k) p" and "unat m = 2 ^ (32 - k) - 1" and "k \<le> 16" for k m p
  proof -
    obtain n y where p: "p = (n, y)" by (cases p)
    have I: "unat y = unat x * 2 ^ n" "2 ^ (32 - 2 * k) \<le> unat y" using that(1) by (simp_all add: I_def p)
    show ?thesis
    proof (cases "y \<le> m")
      case True
      have "unat y \<le> 2 ^ (32 - k) - 1" using True that(2) by (simp add: word_le_nat_alt)
      moreover have "1 \<le> (2 :: nat) ^ (32 - k)" by simp
      ultimately have lt: "unat y < 2 ^ (32 - k)" by linarith
      have "unat y * 2 ^ k < 2 ^ (32 - k) * 2 ^ k" using lt by simp
      also have "\<dots> = 2 ^ 32" using that(3) by (simp add: power_add [symmetric])
      finally have u: "unat (push_bit k y) = unat y * 2 ^ k" by (intro unat_push_bit_in) simp
      have "(2 :: nat) ^ (32 - k) = 2 ^ (32 - 2 * k) * 2 ^ k" using that(3) by (simp add: power_add [symmetric])
      also have "\<dots> \<le> unat y * 2 ^ k" using I(2) by simp
      finally show ?thesis using True u I(1) by (simp add: nlz_step_def p I_def power_add)
    next
      case False
      then have "2 ^ (32 - k) \<le> unat y" using that(2) by (simp add: word_le_nat_alt)
      then show ?thesis using False I(1) by (simp add: nlz_step_def p I_def)
    qed
  qed
  define p1 where "p1 = nlz_step 16 0x0000FFFF (0, x)"
  define p2 where "p2 = nlz_step 8 0x00FFFFFF p1"
  define p3 where "p3 = nlz_step 4 0x0FFFFFFF p2"
  define p4 where "p4 = nlz_step 2 0x3FFFFFFF p3"
  have "I (32 - 2 * 16) (0, x)" using assms by (simp add: I_def unat_gt_0 Suc_le_eq)
  then have p1: "I (32 - 2 * 8) p1" "fst p1 \<le> 16" using st [of 16 "(0, x)" "0x0000FFFF"] by (auto simp: p1_def)
  then have p2: "I (32 - 2 * 4) p2" "fst p2 \<le> 24" using st [of 8 p1 "0x00FFFFFF"] by (auto simp: p2_def)
  then have p3: "I (32 - 2 * 2) p3" "fst p3 \<le> 28" using st [of 4 p2 "0x0FFFFFFF"] by (auto simp: p3_def)
  then have p4: "I 30 p4" "fst p4 \<le> 30" using st [of 2 p3 "0x3FFFFFFF"] by (auto simp: p4_def)
  have "nlz x = (if snd p4 \<le> 0x7FFFFFFF then fst p4 + 1 else fst p4)"
    by (simp add: nlz_def p4_def p3_def p2_def p1_def Let_def case_prod_beta)
  moreover have "unat (snd p4) = unat x * 2 ^ fst p4" "1073741824 \<le> unat (snd p4)" using p4(1) by (simp_all add: I_def)
  moreover have "snd p4 \<le> 0x7FFFFFFF \<longleftrightarrow> unat (snd p4) < 2147483648" by (simp add: word_le_nat_alt less_Suc_eq_le [symmetric])
  ultimately show "nlz x \<le> 31" "2 ^ 31 \<le> unat x * 2 ^ nlz x" "unat x * 2 ^ nlz x < 2 ^ 32"
    using p4(2) unat_lt_2p32 [of "snd p4"] by (simp_all split: if_splits)
qed

section \<open>The quotient\<close>

text \<open>The two quotients of which the long division takes one, after Hacker's Delight.\<close>

lemma rounded_divisor:
  fixes n d s :: nat
  assumes "s \<le> 31" and n: "n < 2 ^ 64"
  defines "D \<equiv> d div 2 ^ (32 - s) * 2 ^ (32 - s)"
  assumes D: "2 ^ (63 - s) \<le> D"
  shows "n div d \<le> n div D" and "(n div D - 1) * d \<le> n"
proof -
  define e where "e = d mod 2 ^ (32 - s)"
  have d: "d = D + e" by (simp only: D_def e_def div_mult_mod_eq)
  have D0: "0 < D" using D by (meson less_le_trans zero_less_numeral zero_less_power)
  then show "n div d \<le> n div D" using d by (intro div_le_mono2) simp_all
  have e: "e \<le> 2 ^ (32 - s) - 1" by (simp add: e_def less_Suc_eq_le [symmetric])
  have "n div D \<le> n div 2 ^ (63 - s)" using D by (intro div_le_mono2) simp_all
  also have "\<dots> < 2 ^ (s + 1)"
  proof (rule less_mult_imp_div_less)
    have "(2 :: nat) ^ 64 = 2 ^ (s + 1) * 2 ^ (63 - s)" using assms(1) unfolding power_add [symmetric] by simp
    then show "n < 2 ^ (s + 1) * 2 ^ (63 - s)" using n by simp
  qed
  finally have q: "n div D \<le> 2 ^ (s + 1) - 1" by simp
  have "(n div D - 1) * e \<le> (2 ^ (s + 1) - 1) * (2 ^ (32 - s) - 1)" using q e by (intro mult_le_mono) simp_all
  also have "\<dots> \<le> D"
  proof (cases "s = 31")
    case True
    then show ?thesis using D by simp
  next
    case False
    have "(2 ^ (s + 1) - 1) * (2 ^ (32 - s) - 1) \<le> (2 :: nat) ^ (s + 1) * 2 ^ (32 - s)" by (intro mult_le_mono) simp_all
    also have "\<dots> = 2 ^ 33" using assms(1) unfolding power_add [symmetric] by simp
    also have "\<dots> \<le> 2 ^ (63 - s)" using False assms(1) by (intro power_increasing) simp_all
    finally show ?thesis using D by simp
  qed
  finally have *: "(n div D - 1) * e \<le> D" .
  show "(n div D - 1) * d \<le> n"
  proof (cases "n div D = 0")
    case False
    then have "(n div D - 1) * d \<le> (n div D - 1) * D + D" using * by (simp add: d add_mult_distrib2)
    also have "\<dots> = n div D * D" using False by (cases "n div D") simp_all
    also have "\<dots> \<le> n" by simp
    finally show ?thesis .
  qed simp
qed

lemma small_divisor:
  fixes n1 n0 d b :: nat
  assumes "0 < d" and "n0 < b"
  shows "(b * (n1 mod d) + n0) div d < b" and "(b * (n1 mod d) + n0) div d + b * (n1 div d) = (b * n1 + n0) div d"
proof -
  have "b * (n1 mod d) + n0 < b * (n1 mod d + 1)" using assms(2) by simp
  also have "\<dots> \<le> b * d" using assms(1) by (intro mult_le_mono) (simp_all add: Suc_le_eq)
  finally show "(b * (n1 mod d) + n0) div d < b" by (simp add: less_mult_imp_div_less)
  have "b * n1 + n0 = b * (n1 mod d) + n0 + b * (n1 div d) * d"
    by (metis add.commute add.left_commute distrib_left mod_div_mult_eq mult.assoc)
  moreover have "(b * (n1 mod d) + n0 + b * (n1 div d) * d) div d = b * (n1 div d) + (b * (n1 mod d) + n0) div d"
    using assms(1) by (intro div_mult_self1) simp
  ultimately show "(b * (n1 mod d) + n0) div d + b * (n1 div d) = (b * n1 + n0) div d"
    by (simp only: add.commute [of "b * (n1 div d)"])
qed

lemma u64_of_u32: "unat (ucast (x :: u32) :: u64) = unat x"
  by (simp add: unsigned_ucast_eq take_bit_nat_eq_self less_trans [OF unat_lt_2p32])

lemma u32_of_u64: "unat (ucast (n :: u64) :: u32) = unat n mod 4294967296"
  by (simp add: unsigned_ucast_eq take_bit_eq_mod)

lemma unat_drop_bit: "unat (drop_bit k (n :: 'a::len word)) = unat n div 2 ^ k"
proof -
  have "unat (drop_bit k n) = drop_bit k (take_bit LENGTH('a) (unat n))" by (rule unsigned_drop_bit_eq)
  also have "\<dots> = drop_bit k (unat n)" by (simp add: take_bit_nat_eq_self)
  finally show ?thesis by (simp only: drop_bit_eq_div)
qed

lemma unat_lt_2p64 [simp]: "unat (n :: u64) < 18446744073709551616"
  using unsigned_less [of n, where ?'a = nat] by simp

lemma divl_fits:
  assumes "d \<noteq> 0" and "unat n div unat d < 4294967296"
  obtains q where "divl n d = ret q" and "unat q = unat n div unat d"
proof
  have u: "unat (n div ucast d) = unat n div unat d" by (simp add: unat_div u64_of_u32)
  then have "\<not> 4294967296 \<le> n div ucast d" using assms(2) by (simp add: word_le_nat_alt)
  then show "divl n d = ret (ucast (n div ucast d))" using assms(1) by (simp add: divl_def)
  show "unat (ucast (n div ucast d) :: u32) = unat n div unat d" using u assms(2) by (simp add: u32_of_u64)
qed

lemma udiv64_small:
  assumes "d \<noteq> 0" and small: "unat d < 4294967296"
  shows "udiv64 n d = ret (n div d)"
proof -
  define n1 n0 d0 :: u32 where "n1 = ucast (drop_bit 32 n)" and "n0 = ucast n" and "d0 = ucast d"
  have u: "unat n1 = unat n div 4294967296" "unat n0 = unat n mod 4294967296" "unat d0 = unat d"
    using small by (simp_all add: n1_def n0_def d0_def u32_of_u64 unat_drop_bit less_mult_imp_div_less)
  have d0: "d0 \<noteq> 0" "0 < unat d" using assms(1) u(3) unat_gt_0 [of d] unat_gt_0 [of d0] by auto
  have b: "push_bit 32 (1 :: u64) = 4294967296" by (simp add: push_bit_eq_mult)
  define m where "m = 4294967296 * ucast (n1 mod d0) + (ucast n0 :: u64)"
  have md: "4294967296 * (unat n1 mod unat d) + unat n0 < 4294967296 * 4294967296"
  proof -
    have "unat n1 mod unat d < unat d" using d0(2) by simp
    then show ?thesis using small unat_lt_2p32 [of n0] by linarith
  qed
  then have m: "unat m = 4294967296 * (unat n1 mod unat d) + unat n0"
    by (simp add: m_def unat_word_ariths u64_of_u32 unat_mod u(3))
  have q: "unat m div unat d < 4294967296"
    "unat m div unat d + 4294967296 * (unat n1 div unat d) = unat n div unat d"
    using small_divisor [of "unat d" "unat n0" 4294967296 "unat n1"] d0(2) unat_lt_2p32 [of n0] u(1,2) by (simp_all add: m)
  obtain r where r: "divl m d0 = ret r" "unat r = unat m div unat d"
    using divl_fits [of d0 m] d0(1) q(1) u(3) by auto
  have "unat (ucast r + 4294967296 * ucast (n1 div d0) :: u64) = unat (n div d)"
  proof -
    have "unat n div unat d < 18446744073709551616" using unat_lt_2p64 [of "n div d"] by (simp add: unat_div)
    moreover have "unat n1 div unat d < 4294967296"
      using div_le_dividend [of "unat n1" "unat d"] unat_lt_2p32 [of n1] by linarith
    ultimately show ?thesis by (simp add: unat_word_ariths u64_of_u32 r(2) unat_div u(3) q(2))
  qed
  then have "ucast r + 4294967296 * ucast (n1 div d0) = n div d" by (simp only: word_unat_eq_iff)
  moreover have "drop_bit 32 d = 0" using small by (simp add: word_unat_eq_iff unat_drop_bit)
  ultimately show ?thesis
    using r(1) d0(1) by (simp add: udiv64_def Let_def b n1_def [symmetric] n0_def [symmetric] d0_def [symmetric] m_def)
qed

lemma corrected_quotient:
  fixes n d q :: u64
  assumes "0 < unat q" and "unat n div unat d \<le> unat q" and le: "(unat q - 1) * unat d \<le> unat n"
    and d: "0 < unat d"
  shows "(if n - (q - 1) * d < d then q - 1 else q) = n div d"
proof -
  have "q \<noteq> 0" using assms(1) by auto
  then have u1: "unat (q - 1) = unat q - 1" by (rule unat_minus_one)
  have "(unat q - 1) * unat d < 18446744073709551616" using le unat_lt_2p64 [of n] by (rule le_less_trans)
  then have u2: "unat ((q - 1) * d) = (unat q - 1) * unat d" by (simp add: unat_word_ariths u1)
  then have u3: "unat (n - (q - 1) * d) = unat n - (unat q - 1) * unat d" using le by (simp add: unat_sub word_le_nat_alt)
  have "n - (q - 1) * d < d \<longleftrightarrow> unat n < unat q * unat d"
    using assms(1) le by (cases "unat q") (auto simp: word_less_nat_alt u3)
  also have "\<dots> \<longleftrightarrow> unat n div unat d < unat q" using d by (simp add: div_less_iff_less_mult)
  finally have lt: "n - (q - 1) * d < d \<longleftrightarrow> unat n div unat d < unat q" .
  have "unat q - 1 \<le> unat n div unat d" using le d by (simp add: less_eq_div_iff_mult_less_eq)
  then show ?thesis
    using assms(1,2) lt u1 by (auto simp: word_unat_eq_iff unat_div)
qed

lemma udiv64_large:
  assumes large: "4294967296 \<le> unat d" and "d \<le> n"
  shows "udiv64 n d = ret (n div d)"
proof -
  define d1 :: u32 where "d1 = ucast (drop_bit 32 d)"
  define s where "s = nlz d1"
  have d1: "unat d1 = unat d div 4294967296"
    using unat_lt_2p64 [of d] by (simp add: d1_def u32_of_u64 unat_drop_bit less_mult_imp_div_less)
  have "unat d1 \<noteq> 0" using large d1 by (simp add: div_eq_0_iff)
  then have "d1 \<noteq> 0" by auto
  note z = nlz_bounds [OF this, folded s_def]
  have split: "(2 :: nat) ^ 32 = 2 ^ (32 - s) * 2 ^ s" "(2 :: nat) ^ 31 = 2 ^ (31 - s) * 2 ^ s"
    using z(1) unfolding power_add [symmetric] by simp_all
  have "unat d1 < 2 ^ (32 - s)" using z(3) unfolding split(1) by simp
  then have "unat d div 2 ^ 32 < 2 ^ (32 - s)" using d1 by simp
  then have dlt: "unat d < 2 ^ (32 - s) * 2 ^ 32" by (simp add: div_less_iff_less_mult)
  define v :: u32 where "v = ucast (drop_bit 32 (push_bit s d))"
  have "unat d * 2 ^ s < 2 ^ (32 - s) * 2 ^ 32 * 2 ^ s" using dlt by simp
  also have "\<dots> = 2 ^ 64" using z(1) unfolding power_add [symmetric] by simp
  finally have dsh: "unat d * 2 ^ s < 2 ^ 64" .
  have v: "unat v = unat d div 2 ^ (32 - s)"
  proof -
    have "unat (drop_bit 32 (push_bit s d)) = unat d * 2 ^ s div (2 ^ (32 - s) * 2 ^ s)"
      using unat_push_bit_in [of d s] dsh by (simp add: unat_drop_bit split(1) [symmetric])
    also have "\<dots> = unat d div 2 ^ (32 - s)" by simp
    finally have "unat (drop_bit 32 (push_bit s d)) = unat d div 2 ^ (32 - s)" .
    moreover have "unat d div 2 ^ (32 - s) < 2 ^ 32" using dlt by (simp add: div_less_iff_less_mult mult.commute)
    ultimately show ?thesis by (simp add: v_def u32_of_u64)
  qed
  have v31: "2 ^ 31 \<le> unat v"
  proof -
    have "unat d1 * 2 ^ s * 2 ^ (32 - s) = unat d1 * 2 ^ 32" by (simp only: split(1) ac_simps)
    also have "\<dots> \<le> unat d" using d1 by simp
    finally have "unat d1 * 2 ^ s \<le> unat v" unfolding v by (simp add: less_eq_div_iff_mult_less_eq)
    then show ?thesis using z(2) by simp
  qed
  define D where "D = unat d div 2 ^ (32 - s) * 2 ^ (32 - s)"
  have "(2 :: nat) ^ (63 - s) = 2 ^ 31 * 2 ^ (32 - s)" using z(1) unfolding power_add [symmetric] by simp
  also have "\<dots> \<le> D" unfolding D_def v [symmetric] using v31 by (intro mult_le_mono1)
  finally have D: "2 ^ (63 - s) \<le> D" .
  have "2147483648 \<le> unat v" using v31 by simp
  then have "unat n div 2 < 4294967296 * unat v" using unat_lt_2p64 [of n] by linarith
  then have "unat n div 2 div unat v < 4294967296" by (rule less_mult_imp_div_less)
  then have fits: "unat (drop_bit 1 n) div unat v < 4294967296" by (simp only: unat_drop_bit power_one_right)
  have "v \<noteq> 0" using v31 by auto
  from divl_fits [OF this fits] obtain q32 where q32: "divl (drop_bit 1 n) v = ret q32" "unat q32 = unat n div 2 div unat v"
    unfolding unat_drop_bit power_one_right .
  define q :: u64 where "q = ucast (drop_bit (31 - s) q32)"
  have "32 - s = Suc (31 - s)" using z(1) by simp
  then have "D = 2 * unat v * 2 ^ (31 - s)" unfolding D_def v [symmetric] by (simp only: power_Suc ac_simps)
  then have q: "unat q = unat n div D"
    unfolding q_def u64_of_u32 unat_drop_bit q32(2) by (simp only: div_mult2_eq)
  have "D \<le> unat d" unfolding D_def by simp
  then have "D \<le> unat n" using assms(2) by (simp add: word_le_nat_alt)
  moreover have "0 < D" using D by (meson less_le_trans zero_less_numeral zero_less_power)
  ultimately have q1: "0 < unat q" using q by (simp add: div_greater_zero_iff)
  have r: "unat n div unat d \<le> unat q" "(unat q - 1) * unat d \<le> unat n"
    using rounded_divisor [OF z(1), of "unat n" "unat d"] D unfolding D_def [symmetric] q by simp_all
  have "(if n - (q - 1) * d < d then q - 1 else q) = n div d"
    using corrected_quotient [OF q1 r] large by simp
  moreover have "drop_bit 32 d \<noteq> 0"
  proof
    assume "drop_bit 32 d = 0"
    then have "unat (drop_bit 32 d) = 0" by simp
    then show False using large by (simp add: unat_drop_bit div_eq_0_iff)
  qed
  moreover have "\<not> n < d" using assms(2) by simp
  ultimately show ?thesis
    using q32(1)
    by (simp add: udiv64_def Let_def d1_def [symmetric] s_def [symmetric] v_def [symmetric] q_def [symmetric])
qed

lemma udiv64_eq:
  assumes "d \<noteq> 0"
  shows "udiv64 n d = ret (n div d)"
proof (cases "unat d < 4294967296")
  case True
  then show ?thesis by (rule udiv64_small [OF assms])
next
  case False
  show ?thesis
  proof (cases "d \<le> n")
    case True
    then show ?thesis using False by (intro udiv64_large) simp_all
  next
    case lt: False
    have "drop_bit 32 d \<noteq> 0"
    proof
      assume "drop_bit 32 d = 0"
      then have "unat (drop_bit 32 d) = 0" by simp
      then show False using False by (simp add: unat_drop_bit div_eq_0_iff)
    qed
    moreover have "n div d = 0" using lt by (simp add: word_unat_eq_iff unat_div div_eq_0_iff word_le_nat_alt)
    ultimately show ?thesis using lt by (simp add: udiv64_def not_le)
  qed
qed

lemma udiv64_zero: "udiv64 n 0 = stop Divide_trap"
  by (simp add: udiv64_def)

section \<open>Signed division\<close>

lemma uint_abs: "uint (if 0 \<le> sint n then n else - n) = \<bar>sint (n :: u64)\<bar>"
proof -
  have b: "- 9223372036854775808 \<le> sint n" "sint n < 9223372036854775808"
    using sint_greater_eq [of n] sint_less [of n] by simp_all
  have "uint (word_of_int \<bar>sint n\<bar> :: u64) = \<bar>sint n\<bar>"
    using b by (simp add: uint_word_of_int)
  moreover have "(if 0 \<le> sint n then n else - n) = word_of_int \<bar>sint n\<bar>" by simp
  ultimately show ?thesis by simp
qed

lemma sint_nonzero: "d \<noteq> 0 \<Longrightarrow> sint (d :: u64) \<noteq> 0"
  by (metis signed_0 signed_word_eqI)

lemma sdiv64_eq:
  assumes "d \<noteq> 0"
  shows "sdiv64 n d = ret (word_of_int (sint n sdiv sint d))"
proof -
  define n' d' where "n' = (if 0 \<le> sint n then n else - n)" and "d' = (if 0 \<le> sint d then d else - d)"
  have "d' \<noteq> 0" using assms by (simp add: d'_def)
  then have "udiv64 n' d' = ret (n' div d')" by (rule udiv64_eq)
  moreover have "n' div d' = word_of_int (\<bar>sint n\<bar> div \<bar>sint d\<bar>)"
    by (simp only: word_div_def n'_def d'_def uint_abs)
  moreover have "(if (sint n < 0) = (sint d < 0) then word_of_int (\<bar>sint n\<bar> div \<bar>sint d\<bar>) else - word_of_int (\<bar>sint n\<bar> div \<bar>sint d\<bar>)) =
      (word_of_int (sint n sdiv sint d) :: u64)"
  proof (cases "sint n = 0")
    case False
    moreover have "sint d \<noteq> 0" by (rule sint_nonzero [OF assms])
    ultimately show ?thesis by (auto simp: signed_divide_int_def sgn_if)
  qed (simp add: signed_divide_int_def)
  ultimately show ?thesis by (simp add: sdiv64_def Let_def n'_def [symmetric] d'_def [symmetric])
qed

lemma umoddi3_eq:
  assumes "d \<noteq> 0"
  shows "umoddi3 n d = ret (ucast (ucast (n mod d) :: u32))"
  using udiv64_eq [OF assms, of n] by (simp add: umoddi3_def umod64_def minus_mult_div_eq_mod)

lemma moddi3_eq:
  assumes "d \<noteq> 0"
  shows "moddi3 n d = ret (scast (word_of_int (sint n smod sint d) :: u32))"
proof -
  have "n - d * word_of_int (sint n sdiv sint d) = word_of_int (sint n - sint d * (sint n sdiv sint d))" by simp
  also have "\<dots> = word_of_int (sint n smod sint d)" by (simp only: minus_mult_sdiv_eq_smod)
  finally have "ucast (n - d * word_of_int (sint n sdiv sint d)) = (word_of_int (sint n smod sint d) :: u32)"
    by (simp add: ucast_down_wi is_down)
  then show ?thesis using sdiv64_eq [OF assms, of n] by (simp add: moddi3_def smod64_def)
qed

lemma smod_range:
  assumes "d \<noteq> 0"
  shows "- 9223372036854775808 \<le> sint (n :: u64) smod sint (d :: u64)" and "sint n smod sint d < 9223372036854775808"
proof -
  have b: "- 9223372036854775808 \<le> sint d" "sint d < 9223372036854775808"
    using sint_greater_eq [of d] sint_less [of d] by simp_all
  have "\<bar>sint n smod sint d\<bar> < \<bar>sint d\<bar>" using smod_int_range [OF sint_nonzero [OF assms], of "sint n"] by auto
  then show "- 9223372036854775808 \<le> sint n smod sint d" "sint n smod sint d < 9223372036854775808" using b by linarith+
qed

section \<open>Properties\<close>

text \<open>
  C29: Division is exact. For every dividend and every divisor but zero the unsigned routine
  returns the quotient and the signed one the quotient rounded towards zero, taken modulo $2^{64}$ for
  the one quotient that does not fit; no instruction traps on the way. A zero divisor traps.
\<close>

theorem division64_exact:
  "udivdi3 n d = (if d = 0 then stop Divide_trap else ret (n div d)) \<and>
   divdi3 n d = (if d = 0 then stop Divide_trap else ret (word_of_int (sint n sdiv sint d)))"
  by (simp add: udivdi3_def divdi3_def udiv64_eq udiv64_zero sdiv64_eq) (simp add: sdiv64_def udiv64_zero)

text \<open>
  C38: The remainder is cut to 32 bits. \<^verbatim>\<open>__umoddi3\<close> and \<^verbatim>\<open>__moddi3\<close> return the remainder if
  it fits in 32 bits, in the signed case as a signed number; otherwise they return
  another value, although the compiler calls them for a 64-bit result.
\<close>

theorem remainder64_truncated:
  assumes "d \<noteq> 0"
  shows "(umoddi3 n d = ret (n mod d) \<longleftrightarrow> n mod d < 4294967296) \<and>
    (moddi3 n d = ret (word_of_int (sint n smod sint d)) \<longleftrightarrow>
      - 2147483648 \<le> sint n smod sint d \<and> sint n smod sint d < 2147483648)"
proof
  show "umoddi3 n d = ret (n mod d) \<longleftrightarrow> n mod d < 4294967296"
  proof -
    have "(ucast (ucast (n mod d) :: u32) :: u64) = n mod d \<longleftrightarrow> unat (n mod d) mod 4294967296 = unat (n mod d)"
      by (simp only: word_unat_eq_iff u64_of_u32 u32_of_u64)
    also have "\<dots> \<longleftrightarrow> n mod d < 4294967296"
      by (simp add: word_less_nat_alt mod_eq_self_iff_div_eq_0 div_eq_0_iff)
    finally show ?thesis by (simp add: umoddi3_eq [OF assms])
  qed
  define r where "r = sint n smod sint d"
  have "scast (word_of_int r :: u32) = (word_of_int r :: u64) \<longleftrightarrow>
      sint (scast (word_of_int r :: u32) :: u64) = sint (word_of_int r :: u64)"
    by (metis signed_word_eqI)
  also have "\<dots> \<longleftrightarrow> signed_take_bit 31 r = signed_take_bit 63 r"
    by (simp add: sint_up_scast is_up sint_sbintrunc')
  also have "\<dots> \<longleftrightarrow> signed_take_bit 31 r = r"
    using smod_range [OF assms, of n] by (simp add: r_def [symmetric] signed_take_bit_int_eq_self)
  also have "\<dots> \<longleftrightarrow> - 2147483648 \<le> r \<and> r < 2147483648"
    by (simp add: signed_take_bit_int_eq_self_iff)
  finally show "moddi3 n d = ret (word_of_int (sint n smod sint d)) \<longleftrightarrow>
      - 2147483648 \<le> sint n smod sint d \<and> sint n smod sint d < 2147483648"
    by (simp add: moddi3_eq [OF assms] r_def)
qed

theorem remainder64_truncated_witness:
  "umoddi3 4294967296 8589934592 \<noteq> ret (4294967296 mod 8589934592) \<and> umoddi3 17 5 = ret 2"
  using remainder64_truncated [of 8589934592 4294967296] remainder64_truncated [of 5 17] by simp

end
