(* ===== verification/Random_Gen.thy ===== *)
theory Random_Gen
  imports Memory "HOL-Library.Multiset"
begin

text \<open>
  The pseudo-random numbers of \<^verbatim>\<open>lib/random.c\<close>: the static variables of the generator as a
  record, the key schedule and the output loop of RC4, and the memory that the bytes go to.
\<close>

section \<open>The model\<close>

record random_state =
  rs_s :: "u8 list"
  rs_i :: u8
  rs_j :: u8
  rs_inited :: bool

definition swap_byte :: "u8 list \<Rightarrow> nat \<Rightarrow> nat \<Rightarrow> u8 list res" where
  "swap_byte s a b = andthen (rd s a) (\<lambda>t. andthen (rd s b) (\<lambda>u. andthen (wr s a u) (\<lambda>s. wr s b t)))"

text \<open>The byte \<open>k\<close> of the parameter \<^verbatim>\<open>seed\<close> in memory.\<close>

definition seed_byte :: "u32 \<Rightarrow> nat \<Rightarrow> u8" where
  "seed_byte seed k = ucast (drop_bit (8 * k) seed)"

definition random_init :: "u32 \<Rightarrow> random_state \<Rightarrow> random_state res" where
  "random_init seed st =
     andthen (for_range 0 256 (\<lambda>i s. wr s (unat i) (ucast i)) (rs_s st)) (\<lambda>s.
     andthen (for_range 0 256 (\<lambda>i (s, j).
         andthen (rd s (unat i)) (\<lambda>x.
         let j = j + (x + seed_byte seed (unat i mod 4)) in
         andthen (swap_byte s (unat i) (unat j)) (\<lambda>s. ret (s, j)))) (s, 0)) (\<lambda>(s, _).
     ret \<lparr>rs_s = s, rs_i = 0, rs_j = 0, rs_inited = True\<rparr>))"

text \<open>One pass of the loop in \<^verbatim>\<open>random_bytes\<close>.\<close>

definition random_byte :: "random_state \<Rightarrow> (u8 \<times> random_state) res" where
  "random_byte st =
     (let i = rs_i st + 1 in
      andthen (rd (rs_s st) (unat i)) (\<lambda>x.
      let j = rs_j st + x in
      andthen (swap_byte (rs_s st) (unat i) (unat j)) (\<lambda>s.
      andthen (rd s (unat i)) (\<lambda>a. andthen (rd s (unat j)) (\<lambda>b.
      andthen (rd s (unat (a + b))) (\<lambda>k.
      ret (k, st\<lparr>rs_s := s, rs_i := i, rs_j := j\<rparr>)))))))"

definition random_bytes :: "mem \<Rightarrow> addr \<Rightarrow> size_t \<Rightarrow> random_state \<Rightarrow> (mem \<times> random_state) res" where
  "random_bytes m buf n st =
     andthen (if \<not> rs_inited st then random_init 0 st else ret st) (\<lambda>st.
     loop (\<lambda>(n, buf, m, st).
       if 0 < n then andthen (random_byte st) (\<lambda>(k, st). ret (Inl (n - 1, buf + 1, m(buf := k), st)))
       else ret (Inr (m, st))) (n, buf, m, st))"

text \<open>\<open>p\<close> is the address of the local variable \<^verbatim>\<open>ul\<close>, which holds its low byte first.\<close>

definition random_ulong :: "mem \<Rightarrow> addr \<Rightarrow> random_state \<Rightarrow> (u32 \<times> random_state) res" where
  "random_ulong m p st =
     andthen (random_bytes m p 4 st) (\<lambda>(m, st).
     ret (ucast (m p) + 256 * ucast (m (p + 1)) + 65536 * ucast (m (p + 2)) + 16777216 * ucast (m (p + 3)), st))"

section \<open>The permutation\<close>









section \<open>The output\<close>






section \<open>Properties\<close>




end
