(* ===== verification/Stdlib.thy ===== *)
theory Stdlib
  imports CString "HOL-Library.Multiset"
begin

text \<open>
  Character classes (\<^verbatim>\<open>lib/ctype.h\<close>) and \<^verbatim>\<open>lib/stdlib.c\<close>: number parsing, heap sort and
  binary search. Sorting moves the bytes of the elements in the flat memory, one byte at a
  time as the source does; the proofs see an array as the list of its elements, each a list of bytes.
\<close>

section \<open>Character classes\<close>

definition islower :: "int \<Rightarrow> bool" where "islower c \<longleftrightarrow> 97 \<le> c \<and> c \<le> 122"
definition isupper :: "int \<Rightarrow> bool" where "isupper c \<longleftrightarrow> 65 \<le> c \<and> c \<le> 90"
definition isalpha :: "int \<Rightarrow> bool" where "isalpha c \<longleftrightarrow> islower c \<or> isupper c"
definition isdigit :: "int \<Rightarrow> bool" where "isdigit c \<longleftrightarrow> 48 \<le> c \<and> c \<le> 57"
definition isalnum :: "int \<Rightarrow> bool" where "isalnum c \<longleftrightarrow> isalpha c \<or> isdigit c"
definition isxdigit :: "int \<Rightarrow> bool" where
  "isxdigit c \<longleftrightarrow> isdigit c \<or> 97 \<le> c \<and> c \<le> 102 \<or> 65 \<le> c \<and> c \<le> 70"
definition isspace :: "int \<Rightarrow> bool" where
  "isspace c \<longleftrightarrow> c = 32 \<or> c = 12 \<or> c = 10 \<or> c = 13 \<or> c = 9 \<or> c = 11"
definition isblank :: "int \<Rightarrow> bool" where "isblank c \<longleftrightarrow> c = 32 \<or> c = 9"
definition isgraph :: "int \<Rightarrow> bool" where "isgraph c \<longleftrightarrow> 32 < c \<and> c < 127"
definition isprint :: "int \<Rightarrow> bool" where "isprint c \<longleftrightarrow> 32 \<le> c \<and> c < 127"
definition iscntrl :: "int \<Rightarrow> bool" where "iscntrl c \<longleftrightarrow> 0 \<le> c \<and> c < 32 \<or> c = 127"
definition isascii :: "int \<Rightarrow> bool" where "isascii c \<longleftrightarrow> 0 \<le> c \<and> c < 128"
definition ispunct :: "int \<Rightarrow> bool" where "ispunct c \<longleftrightarrow> isprint c \<and> \<not> isalnum c \<and> \<not> isspace c"
definition tolower :: "int \<Rightarrow> int" where "tolower c = (if isupper c then c - 65 + 97 else c)"
definition toupper :: "int \<Rightarrow> int" where "toupper c = (if islower c then c - 97 + 65 else c)"

section \<open>Numbers\<close>

text \<open>
  \<^verbatim>\<open>char\<close> is signed: \<^verbatim>\<open>*s\<close> is \<open>sint\<close> of the byte, \<^verbatim>\<open>(unsigned char) *s\<close> its \<open>uint\<close>.
  The value is the 32-bit two's complement number, whose arithmetic wraps around.
\<close>

definition atoi :: "mem \<Rightarrow> addr \<Rightarrow> u32 res" where
  "atoi m s = ASSERT (s \<noteq> NULL)
     (andthen (loop (\<lambda>s. if isspace (uint (m s)) then ret (Inl (s + 1)) else ret (Inr s)) s) (\<lambda>s.
      let (negative, s) = (if m s = 43 then (False, s + 1) else if m s = 45 then (True, s + 1) else (False, s)) in
      andthen (loop (\<lambda>(value, s). if isdigit (sint (m s))
          then ret (Inl (value * 10 - word_of_int (sint (m s) - 48), s + 1)) else ret (Inr value)) (0, s)) (\<lambda>value.
      ret (if \<not> negative then - value else value))))"

section \<open>Sorting and searching\<close>

type_synonym compare = "mem \<Rightarrow> addr \<Rightarrow> addr \<Rightarrow> int"

definition do_swap :: "mem \<Rightarrow> addr \<Rightarrow> size_t \<Rightarrow> size_t \<Rightarrow> size_t \<Rightarrow> mem res" where
  "do_swap m array a_idx b_idx sz =
     (let a = array + (a_idx - 1) * sz; b = array + (b_idx - 1) * sz in
      for_range 0 sz (\<lambda>i m.
        let t = m (a + i); m = m(a + i := m (b + i)); m = m(b + i := t) in ret m) m)"

definition do_compare :: "mem \<Rightarrow> addr \<Rightarrow> size_t \<Rightarrow> size_t \<Rightarrow> size_t \<Rightarrow> compare \<Rightarrow> int" where
  "do_compare m array a_idx b_idx sz compare = compare m (array + (a_idx - 1) * sz) (array + (b_idx - 1) * sz)"

definition heapify :: "mem \<Rightarrow> addr \<Rightarrow> size_t \<Rightarrow> size_t \<Rightarrow> size_t \<Rightarrow> compare \<Rightarrow> mem res" where
  "heapify m array i cnt sz compare = loop (\<lambda>(i, m).
     let left = 2 * i; right = 2 * i + 1; max = i;
         max = (if left \<le> cnt \<and> 0 < do_compare m array left max sz compare then left else max);
         max = (if right \<le> cnt \<and> 0 < do_compare m array right max sz compare then right else max) in
     if max = i then ret (Inr m)
     else andthen (do_swap m array i max sz) (\<lambda>m. ret (Inl (max, m)))) (i, m)"

definition sort_array :: "mem \<Rightarrow> addr \<Rightarrow> size_t \<Rightarrow> size_t \<Rightarrow> compare option \<Rightarrow> mem res" where
  "sort_array m array cnt sz compare =
     ASSERT (array \<noteq> NULL \<or> cnt = 0) (ASSERT (compare \<noteq> None) (ASSERT (0 < sz)
      (let compare = the compare in
       andthen (loop (\<lambda>(i, m). if 0 < i then
           andthen (heapify m array i cnt sz compare) (\<lambda>m. ret (Inl (i - 1, m))) else ret (Inr m)) (cnt div 2, m)) (\<lambda>m.
       loop (\<lambda>(i, m). if 1 < i then
           andthen (do_swap m array 1 i sz) (\<lambda>m.
           andthen (heapify m array 1 (i - 1) sz compare) (\<lambda>m. ret (Inl (i - 1, m)))) else ret (Inr m)) (cnt, m)))))"

definition compare_thunk :: "compare \<Rightarrow> compare" where
  "compare_thunk compare m a b = compare m a b"

definition qsort :: "mem \<Rightarrow> addr \<Rightarrow> size_t \<Rightarrow> size_t \<Rightarrow> compare \<Rightarrow> mem res" where
  "qsort m array cnt sz compare = sort_array m array cnt sz (Some (compare_thunk compare))"

definition binary_search :: "mem \<Rightarrow> addr \<Rightarrow> addr \<Rightarrow> size_t \<Rightarrow> size_t \<Rightarrow> compare \<Rightarrow> addr res" where
  "binary_search m key array cnt sz compare = loop (\<lambda>(first, last1).
     if first < last1 then
       if sz = 0 then stop Divide_trap
       else
         let range = (last1 - first) div sz; middle = first + (range div 2) * sz; cmp = compare m key middle in
         if cmp < 0 then ret (Inl (first, middle))
         else if 0 < cmp then ret (Inl (middle + sz, last1))
         else ret (Inr middle)
     else ret (Inr NULL)) (array, array + sz * cnt)"

definition bsearch :: "mem \<Rightarrow> addr \<Rightarrow> addr \<Rightarrow> size_t \<Rightarrow> size_t \<Rightarrow> compare \<Rightarrow> addr res" where
  "bsearch m key array cnt sz compare = binary_search m key array cnt sz (compare_thunk compare)"

text \<open>The comparison of the tests: \<^verbatim>\<open>int\<close> elements, low byte first.\<close>

definition load_int :: "mem \<Rightarrow> addr \<Rightarrow> int" where
  "load_int m p = sint (ucast (m p) + 256 * ucast (m (p + 1)) + 65536 * ucast (m (p + 2)) + 16777216 * ucast (m (p + 3)) :: u32)"

definition compare_ints :: compare where
  "compare_ints m a b = (if load_int m a < load_int m b then - 1 else if load_int m b < load_int m a then 1 else 0)"

section \<open>Heaps\<close>

text \<open>Elements by the source's 1-based index.\<close>

abbreviation el :: "'a list \<Rightarrow> nat \<Rightarrow> 'a" where
  "el xs k \<equiv> xs ! (k - 1)"

definition swap_el :: "'a list \<Rightarrow> nat \<Rightarrow> nat \<Rightarrow> 'a list" where
  "swap_el xs a b = xs[a - 1 := el xs b, b - 1 := el xs a]"

definition heap :: "('a \<Rightarrow> 'a \<Rightarrow> bool) \<Rightarrow> 'a list \<Rightarrow> nat \<Rightarrow> nat \<Rightarrow> bool" where
  "heap le xs lo cnt \<longleftrightarrow> (\<forall>c \<le> cnt. lo \<le> c div 2 \<longrightarrow> le (el xs c) (el xs (c div 2)))"

text \<open>A heap but for element \<open>i\<close>, which may be too small for its place.\<close>

definition heap_except :: "('a \<Rightarrow> 'a \<Rightarrow> bool) \<Rightarrow> 'a list \<Rightarrow> nat \<Rightarrow> nat \<Rightarrow> nat \<Rightarrow> bool" where
  "heap_except le xs lo cnt i \<longleftrightarrow> (\<forall>c \<le> cnt. lo \<le> c div 2 \<longrightarrow>
     (c div 2 \<noteq> i \<longrightarrow> le (el xs c) (el xs (c div 2))) \<and>
     (c div 2 = i \<longrightarrow> lo \<le> i div 2 \<longrightarrow> le (el xs c) (el xs (i div 2))))"

lemma swap_el_length [simp]: "length (swap_el xs a b) = length xs"
  by (simp add: swap_el_def)

lemma el_swap:
  assumes "1 \<le> a" "a \<le> length xs" "1 \<le> b" "b \<le> length xs" "1 \<le> k"
  shows "el (swap_el xs a b) k = (if k = a then el xs b else if k = b then el xs a else el xs k)"
  using assms by (auto simp: swap_el_def nth_list_update)

lemma swap_el_mset:
  assumes "1 \<le> a" "a \<le> cnt" "1 \<le> b" "b \<le> cnt" "cnt \<le> length xs"
  shows "mset (take cnt (swap_el xs a b)) = mset (take cnt xs)" and "drop cnt (swap_el xs a b) = drop cnt xs"
proof -
  have eq: "take cnt (swap_el xs a b) = (take cnt xs)[a - 1 := take cnt xs ! (b - 1), b - 1 := take cnt xs ! (a - 1)]"
    using assms by (simp add: swap_el_def take_update_swap)
  show "mset (take cnt (swap_el xs a b)) = mset (take cnt xs)"
    unfolding eq using assms by (intro mset_swap) simp_all
  show "drop cnt (swap_el xs a b) = drop cnt xs" using assms by (simp add: swap_el_def)
qed

lemma heap_done:
  assumes "heap_except le xs lo cnt i" and "\<And>c. c \<le> cnt \<Longrightarrow> c div 2 = i \<Longrightarrow> le (el xs c) (el xs i)"
  shows "heap le xs lo cnt"
  using assms unfolding heap_def heap_except_def by blast

lemma heap_step:
  assumes h: "heap_except le xs lo cnt i" and mx: "mx div 2 = i" "mx \<le> cnt" "1 \<le> i" "1 \<le> lo" "lo \<le> i" "cnt \<le> length xs"
    and big: "le (el xs i) (el xs mx)" "\<And>c. c \<le> cnt \<Longrightarrow> c div 2 = i \<Longrightarrow> le (el xs c) (el xs mx)"
  shows "heap_except le (swap_el xs i mx) lo cnt mx"
proof -
  have lt: "i < mx" "1 \<le> mx" using mx by auto
  have sw: "el (swap_el xs i mx) k = (if k = i then el xs mx else if k = mx then el xs i else el xs k)" if "1 \<le> k" for k
    using that mx lt by (intro el_swap) auto
  show ?thesis
    unfolding heap_except_def
  proof (intro allI impI conjI)
    fix c assume c: "c \<le> cnt" "lo \<le> c div 2" and ne: "c div 2 \<noteq> mx"
    have c1: "1 \<le> c" "1 \<le> c div 2" using c mx(4) by auto
    show "le (el (swap_el xs i mx) c) (el (swap_el xs i mx) (c div 2))"
    proof (cases "c div 2 = i")
      case True
      then show ?thesis using c c1 sw big lt ne by auto
    next
      case False
      then have "le (el xs c) (el xs (c div 2))" using h c by (simp add: heap_except_def)
      moreover have "le (el xs mx) (el xs (i div 2))" if "lo \<le> i div 2"
        using h mx that by (simp add: heap_except_def)
      moreover have "c \<noteq> mx" using False mx(1) by auto
      ultimately show ?thesis using c c1 sw False ne by auto
    qed
  next
    fix c assume c: "c \<le> cnt" "lo \<le> c div 2" "c div 2 = mx" "lo \<le> mx div 2"
    then have "le (el xs c) (el xs mx)" using h [unfolded heap_except_def, THEN spec, of c] lt by auto
    moreover have "1 \<le> c" "c \<noteq> i" "c \<noteq> mx" using c lt by auto
    ultimately show "le (el (swap_el xs i mx) c) (el (swap_el xs i mx) (mx div 2))"
      using sw mx(1,3) by auto
  qed
qed

lemma heap_root:
  assumes "heap le xs 1 cnt" and "\<And>a. le a a" and "\<And>a b c. le a b \<Longrightarrow> le b c \<Longrightarrow> le a c"
    and "1 \<le> k" and "k \<le> cnt"
  shows "le (el xs k) (el xs 1)"
  using assms(4,5)
proof (induction k rule: less_induct)
  case (less k)
  show ?case
  proof (cases "k = 1")
    case False
    then have "1 \<le> k div 2" "k div 2 < k" "k div 2 \<le> cnt" using less.prems by auto
    then have "le (el xs (k div 2)) (el xs 1)" and "le (el xs k) (el xs (k div 2))"
      using less.IH [of "k div 2"] assms(1) less.prems(2) by (auto simp: heap_def)
    then show ?thesis using assms(3) by blast
  qed (use assms(2) in simp)
qed

text \<open>What heap sort keeps of the elements behind the heap: each is at least all those before it.\<close>

definition tail_sorted :: "('a \<Rightarrow> 'a \<Rightarrow> bool) \<Rightarrow> 'a list \<Rightarrow> nat \<Rightarrow> bool" where
  "tail_sorted le xs i \<longleftrightarrow> (\<forall>j k. 1 \<le> j \<longrightarrow> j < k \<longrightarrow> i < k \<longrightarrow> k \<le> length xs \<longrightarrow> le (el xs j) (el xs k))"

lemma el_in_take: "1 \<le> j \<Longrightarrow> j \<le> i \<Longrightarrow> i \<le> length xs \<Longrightarrow> el xs j \<in> set (take i xs)"
  by (auto simp: in_set_conv_nth intro!: exI [of _ "j - 1"])

lemma in_take_el:
  assumes "x \<in> set (take i xs)"
  shows "\<exists>j. 1 \<le> j \<and> j \<le> i \<and> x = el xs j"
proof -
  obtain k where "k < i" "x = xs ! k" using assms by (auto simp: in_set_conv_nth)
  then show ?thesis by (intro exI [of _ "Suc k"]) simp
qed

lemma el_drop: "i < k \<Longrightarrow> k \<le> length xs \<Longrightarrow> el xs k = drop i xs ! (k - 1 - i)"
  by simp

lemma extract_max:
  assumes refl: "\<And>a. le a a" and trans: "\<And>a b c. le a b \<Longrightarrow> le b c \<Longrightarrow> le a c"
    and h: "heap le ys 1 i" and t: "tail_sorted le ys i" and i: "1 < i" "i \<le> length ys"
    and ws: "mset (take (i - 1) ws) = mset (take (i - 1) (swap_el ys 1 i))" "drop (i - 1) ws = drop (i - 1) (swap_el ys 1 i)"
      "length ws = length ys"
  shows "tail_sorted le ws (i - 1)"
proof -
  have sw: "el (swap_el ys 1 i) k = (if k = 1 then el ys i else if k = i then el ys 1 else el ys k)" if "1 \<le> k" for k
    using i that by (intro el_swap) auto
  have hi: "el ws k = (if k = i then el ys 1 else el ys k)" if "i \<le> k" "k \<le> length ys" for k
  proof -
    have "el ws k = drop (i - 1) ws ! (k - 1 - (i - 1))" using that i ws(3) by (intro el_drop) auto
    also have "\<dots> = drop (i - 1) (swap_el ys 1 i) ! (k - 1 - (i - 1))" by (simp only: ws(2))
    also have "\<dots> = el (swap_el ys 1 i) k" using that i by (intro el_drop [symmetric]) auto
    finally have "el ws k = el (swap_el ys 1 i) k" .
    then show ?thesis using sw [of k] that i by simp
  qed
  have lo: "\<exists>j'. 1 \<le> j' \<and> j' \<le> i \<and> el ws j = el ys j'" if "1 \<le> j" "j < i" for j
  proof -
    have "el ws j \<in> set (take (i - 1) ws)" using that i ws(3) by (intro el_in_take) auto
    then have "el ws j \<in> set (take (i - 1) (swap_el ys 1 i))" by (simp only: mset_eq_setD [OF ws(1)])
    from in_take_el [OF this] obtain k where k: "1 \<le> k" "k \<le> i - 1" "el ws j = el (swap_el ys 1 i) k" by blast
    then have "el ws j = el ys (if k = 1 then i else k)" using sw [of k] i by auto
    then show ?thesis using k i by (intro exI [of _ "if k = 1 then i else k"]) auto
  qed
  have root: "le (el ys j) (el ys 1)" if "1 \<le> j" "j \<le> i" for j
    using heap_root [OF h refl trans that] .
  have tl: "le (el ys j) (el ys k)" if "1 \<le> j" "j < k" "i < k" "k \<le> length ys" for j k
    using t that by (simp add: tail_sorted_def)
  show ?thesis
    unfolding tail_sorted_def
  proof (intro allI impI)
    fix j k assume jk: "1 \<le> j" "j < k" "i - 1 < k" "k \<le> length ws"
    then have k: "i \<le> k" "k \<le> length ys" using ws(3) by auto
    obtain j' where j': "1 \<le> j'" "j' \<le> i \<or> j' = j" "el ws j = el ys j'"
    proof (cases "j < i")
      case True
      then show thesis using lo [of j] jk that by blast
    next
      case False
      then have "el ws j = el ys (if j = i then 1 else j)" using hi [of j] jk ws(3) by simp
      then show thesis using that [of "if j = i then 1 else j"] jk i by auto
    qed
    show "le (el ws j) (el ws k)"
    proof (cases "k = i")
      case True
      then have "j < i" using jk by simp
      then show ?thesis using lo [of j] root hi [of k] k True jk(1) by auto
    next
      case False
      then show ?thesis using tl [of j' k] j' jk k hi [of k] by auto
    qed
  qed
qed

section \<open>Arrays of elements in memory\<close>

definition block :: "mem \<Rightarrow> addr \<Rightarrow> nat \<Rightarrow> u8 list" where
  "block m p sz = map (\<lambda>i. m (p + of_nat i)) [0..<sz]"

definition array_of :: "mem \<Rightarrow> addr \<Rightarrow> nat \<Rightarrow> nat \<Rightarrow> u8 list list" where
  "array_of m p sz n = map (\<lambda>k. block m (p + of_nat (k * sz)) sz) [0..<n]"

text \<open>\<open>unchanged m m' p n\<close>: the two memories agree outside the \<open>n\<close> bytes at \<open>p\<close>.\<close>

definition unchanged :: "mem \<Rightarrow> mem \<Rightarrow> addr \<Rightarrow> nat \<Rightarrow> bool" where
  "unchanged m m' p n \<longleftrightarrow> (\<forall>x. n \<le> unat (x - p) \<longrightarrow> m' x = m x)"

lemma unchanged_refl [simp]: "unchanged m m p n"
  by (simp add: unchanged_def)

lemma unchanged_trans: "unchanged m m' p n \<Longrightarrow> unchanged m' m'' p n \<Longrightarrow> unchanged m m'' p n"
  by (simp add: unchanged_def)

lemma array_of_length [simp]: "length (array_of m p sz n) = n"
  by (simp add: array_of_def)

lemma block_length [simp]: "length (block m p sz) = sz"
  by (simp add: block_def)

lemma array_of_nth: "k < n \<Longrightarrow> array_of m p sz n ! k = block m (p + of_nat (k * sz)) sz"
  by (simp add: array_of_def)

text \<open>The address of the element with a 1-based index.\<close>

lemma element_address:
  fixes k sz :: u32
  assumes "1 \<le> unat k"
  shows "(k - 1) * sz = of_nat ((unat k - 1) * unat sz)"
proof -
  have "unat (k - 1) = unat k - 1" using assms(1) by (intro unat_pred) (simp add: word_less_nat_alt)
  then have "of_nat (unat (k - 1)) = (of_nat (unat k - 1) :: u32)" by simp
  then have "k - 1 = of_nat (unat k - 1)" by simp
  then show ?thesis by simp
qed

lemma divmod_index: "i < sz \<Longrightarrow> (k * sz + i) div sz = k \<and> (k * sz + i) mod sz = i" for k i sz :: nat
  by simp

lemma index_bound: "k < n \<Longrightarrow> i < sz \<Longrightarrow> k * sz + i < n * sz" for k i sz n :: nat
proof -
  assume "k < n" "i < sz"
  then have "k * sz + i < Suc k * sz" by simp
  also have "\<dots> \<le> n * sz" using \<open>k < n\<close> by (intro mult_le_mono1) simp
  finally show ?thesis .
qed

text \<open>The memory after the first \<open>i\<close> bytes of two different elements have been exchanged.\<close>

definition half_swapped :: "mem \<Rightarrow> mem \<Rightarrow> addr \<Rightarrow> nat \<Rightarrow> nat \<Rightarrow> nat \<Rightarrow> nat \<Rightarrow> nat \<Rightarrow> bool" where
  "half_swapped m m' p sz n a b i \<longleftrightarrow> unchanged m m' p (n * sz) \<and>
     (\<forall>j < n * sz. m' (p + of_nat j) = m (p + of_nat
        (if j mod sz < i \<and> j div sz = a then b * sz + j mod sz
         else if j mod sz < i \<and> j div sz = b then a * sz + j mod sz else j)))"

lemma half_swapped_step:
  assumes h: "half_swapped m m' p sz n a b i" and i: "i < sz" and ab: "a < n" "b < n" "a \<noteq> b"
    and fits: "unat p + n * sz \<le> 4294967296"
  defines "x \<equiv> p + of_nat (a * sz + i)" and "y \<equiv> p + of_nat (b * sz + i)"
  shows "half_swapped m (m'(x := m' y, y := m' x)) p sz n a b (Suc i)"
proof -
  have ja: "a * sz + i < n * sz" and jb: "b * sz + i < n * sz" using index_bound i ab by blast+
  have eqx: "p + of_nat j = x \<longleftrightarrow> j = a * sz + i" and eqy: "p + of_nat j = y \<longleftrightarrow> j = b * sz + i" if "j < n * sz" for j
    unfolding x_def y_def using no_wrap_offset_eq [OF fits that ja] no_wrap_offset_eq [OF fits that jb] by simp_all
  have xy: "x \<noteq> y" using eqy [OF ja] ab(3) i by (auto simp: x_def)
  have dm: "(a * sz + i) div sz = a" "(a * sz + i) mod sz = i" "(b * sz + i) div sz = b" "(b * sz + i) mod sz = i"
    using i by simp_all
  have hj: "m' (p + of_nat j) = m (p + of_nat
        (if j mod sz < i \<and> j div sz = a then b * sz + j mod sz
         else if j mod sz < i \<and> j div sz = b then a * sz + j mod sz else j))" if "j < n * sz" for j
    using h that unfolding half_swapped_def by blast
  have m'x: "m' x = m x" "m' y = m y"
    using hj [OF ja] hj [OF jb] unfolding dm x_def y_def by (simp_all del: of_nat_add of_nat_mult)
  have un: "unchanged m (m'(x := m' y, y := m' x)) p (n * sz)"
  proof -
    have "unat (x - p) < n * sz" "unat (y - p) < n * sz"
      using ja jb fits unat_lt_2p32 [of p] by (simp_all add: x_def y_def unat_of_nat del: of_nat_add of_nat_mult)
    then show ?thesis using h by (auto simp: half_swapped_def unchanged_def)
  qed
  have "(m'(x := m' y, y := m' x)) (p + of_nat j) = m (p + of_nat
        (if j mod sz < Suc i \<and> j div sz = a then b * sz + j mod sz
         else if j mod sz < Suc i \<and> j div sz = b then a * sz + j mod sz else j))" if j: "j < n * sz" for j
  proof (cases "j = a * sz + i \<or> j = b * sz + i")
    case True
    then show ?thesis
    proof
      assume "j = a * sz + i"
      then show ?thesis using dm m'x xy by (simp add: x_def [symmetric] y_def [symmetric] del: of_nat_add of_nat_mult)
    next
      assume "j = b * sz + i"
      then show ?thesis using dm m'x xy ab(3) by (simp add: x_def [symmetric] y_def [symmetric] del: of_nat_add of_nat_mult)
    qed
  next
    case False
    then have "(m'(x := m' y, y := m' x)) (p + of_nat j) = m' (p + of_nat j)" using eqx [OF j] eqy [OF j] by simp
    moreover have "\<not> (j mod sz = i \<and> j div sz = a)" "\<not> (j mod sz = i \<and> j div sz = b)"
      using False div_mult_mod_eq [of j sz] by metis+
    ultimately show ?thesis using hj [OF j] by (auto simp: less_Suc_eq)
  qed
  then show ?thesis using un by (simp add: half_swapped_def)
qed

lemma do_swap_spec:
  assumes a: "1 \<le> unat a" "unat a \<le> n" and b: "1 \<le> unat b" "unat b \<le> n" and "a \<noteq> b"
    and fits: "unat p + n * unat sz \<le> 4294967296"
  shows "returns (do_swap m p a b sz) (\<lambda>m'. unchanged m m' p (n * unat sz) \<and>
    array_of m' p (unat sz) n = swap_el (array_of m p (unat sz) n) (unat a) (unat b))"
proof -
  define s where "s = unat sz"
  define A B where "A = unat a - 1" and "B = unat b - 1"
  have AB: "A < n" "B < n" "A \<noteq> B"
    using a b \<open>a \<noteq> b\<close> by (auto simp: A_def B_def word_unat_eq_iff)
  have addr: "p + (a - 1) * sz + i = p + of_nat (A * s + unat i)" "p + (b - 1) * sz + i = p + of_nat (B * s + unat i)" for i
    using element_address [OF a(1), of sz] element_address [OF b(1), of sz] by (simp_all add: A_def B_def s_def add.assoc)
  have "returns (do_swap m p a b sz) (\<lambda>m'. half_swapped m m' p s n A B (unat sz))"
    unfolding do_swap_def Let_def
  proof (rule returns_for_range [where I = "\<lambda>i m'. half_swapped m m' p s n A B i"], goal_cases)
    case 1
    show ?case by (simp add: half_swapped_def)
  next
    case (3 i m')
    then have "unat i < s" by (simp add: s_def word_less_nat_alt)
    from half_swapped_step [OF 3(3) this AB fits [folded s_def]] show ?case by (simp only: addr returns_ret)
  qed simp
  then show ?thesis
  proof (rule returns_mono)
    fix m' assume h: "half_swapped m m' p s n A B (unat sz)"
    have "block m' (p + of_nat (k * s)) s = swap_el (array_of m p s n) (unat a) (unat b) ! k" if k: "k < n" for k
    proof -
      have "m' (p + of_nat (k * s) + of_nat i) =
          m (p + of_nat ((if k = A then B else if k = B then A else k) * s) + of_nat i)" if i: "i < s" for i
      proof -
        have "m' (p + of_nat (k * s + i)) = m (p + of_nat ((if k = A then B else if k = B then A else k) * s + i))"
          using h index_bound [OF k i] i by (simp add: half_swapped_def s_def del: of_nat_add of_nat_mult)
        then show ?thesis by (simp add: add.assoc)
      qed
      then have "block m' (p + of_nat (k * s)) s =
          block m (p + of_nat ((if k = A then B else if k = B then A else k) * s)) s"
        by (simp add: block_def)
      then show ?thesis
        unfolding swap_el_def A_def [symmetric] B_def [symmetric] using k AB by (auto simp: nth_list_update array_of_nth)
    qed
    then have "array_of m' p s n = swap_el (array_of m p s n) (unat a) (unat b)"
      by (intro nth_equalityI) (simp_all add: array_of_nth)
    then show "unchanged m m' p (n * unat sz) \<and> array_of m' p (unat sz) n = swap_el (array_of m p (unat sz) n) (unat a) (unat b)"
      using h by (simp add: half_swapped_def s_def)
  qed
qed

section \<open>Heap sort\<close>

text \<open>
  What the source asks of a comparison function: it looks only at the bytes of the two elements, and
  its sign is that of a total preorder on them.
\<close>

locale element_order =
  fixes sz :: size_t and compare :: compare and cmp :: "u8 list \<Rightarrow> u8 list \<Rightarrow> int"
  assumes size_pos: "0 < sz"
    and blocks: "compare m a b = cmp (block m a (unat sz)) (block m b (unat sz))"
    and flip: "0 < cmp xs ys \<longleftrightarrow> cmp ys xs < 0"
    and trans: "cmp xs ys \<le> 0 \<Longrightarrow> cmp ys zs \<le> 0 \<Longrightarrow> cmp xs zs \<le> 0"
begin

abbreviation le :: "u8 list \<Rightarrow> u8 list \<Rightarrow> bool" where
  "le xs ys \<equiv> cmp xs ys \<le> 0"

abbreviation arr :: "mem \<Rightarrow> addr \<Rightarrow> nat \<Rightarrow> u8 list list" where
  "arr m p n \<equiv> array_of m p (unat sz) n"

lemma le_refl: "le xs xs"
  using flip [of xs xs] by linarith

lemma le_total: "\<not> le xs ys \<Longrightarrow> le ys xs"
  using flip [of xs ys] by linarith

lemma compare_el:
  assumes "1 \<le> unat a" "unat a \<le> n" "1 \<le> unat b" "unat b \<le> n"
  shows "do_compare m p a b sz compare = cmp (el (arr m p n) (unat a)) (el (arr m p n) (unat b))"
  using assms element_address [OF assms(1), of sz] element_address [OF assms(3), of sz]
  by (simp add: do_compare_def blocks array_of_nth)

lemma pick_max:
  assumes "mx1 = (if 2 * i \<le> cnt \<and> 0 < cmp (el xs (2 * i)) (el xs i) then 2 * i else i)"
    and "mx = (if 2 * i + 1 \<le> cnt \<and> 0 < cmp (el xs (2 * i + 1)) (el xs mx1) then 2 * i + 1 else mx1)"
  shows "le (el xs i) (el xs mx)" and "\<And>c. c \<le> cnt \<Longrightarrow> c div 2 = i \<Longrightarrow> le (el xs c) (el xs mx)"
    and "mx = i \<or> mx div 2 = i \<and> mx \<le> cnt"
proof -
  have 1: "le (el xs i) (el xs mx1)" "2 * i \<le> cnt \<Longrightarrow> le (el xs (2 * i)) (el xs mx1)"
    using assms(1) le_refl le_total by (auto simp: not_less)
  have 2: "le (el xs mx1) (el xs mx)" "2 * i + 1 \<le> cnt \<Longrightarrow> le (el xs (2 * i + 1)) (el xs mx)"
    using assms(2) le_refl le_total by (auto simp: not_less)
  show "le (el xs i) (el xs mx)" using 1(1) 2(1) trans by blast
  show "le (el xs c) (el xs mx)" if "c \<le> cnt" "c div 2 = i" for c
  proof -
    have "c = 2 * i \<or> c = 2 * i + 1" using that(2) by auto
    then show ?thesis using that(1) 1(2) 2 trans by blast
  qed
  show "mx = i \<or> mx div 2 = i \<and> mx \<le> cnt" using assms by (auto split: if_splits)
qed

definition floated :: "mem \<Rightarrow> addr \<Rightarrow> nat \<Rightarrow> nat \<Rightarrow> mem \<Rightarrow> bool" where
  "floated m p n cnt m' \<longleftrightarrow> unchanged m m' p (n * unat sz) \<and>
     mset (take cnt (arr m' p n)) = mset (take cnt (arr m p n)) \<and> drop cnt (arr m' p n) = drop cnt (arr m p n)"

lemma floated_refl [simp]: "floated m p n cnt m"
  by (simp add: floated_def)

lemma floated_trans: "floated m p n cnt m' \<Longrightarrow> floated m' p n cnt m'' \<Longrightarrow> floated m p n cnt m''"
  unfolding floated_def using unchanged_trans by metis

lemma floated_swap:
  assumes "1 \<le> unat a" "unat a \<le> cnt" "1 \<le> unat b" "unat b \<le> cnt" "a \<noteq> b" "cnt \<le> n"
    and "unat p + n * unat sz \<le> 4294967296"
  shows "\<exists>m'. do_swap m p a b sz = ret m' \<and> floated m p n cnt m' \<and> arr m' p n = swap_el (arr m p n) (unat a) (unat b)"
proof -
  obtain m' where m': "do_swap m p a b sz = ret m'" "unchanged m m' p (n * unat sz)"
      "arr m' p n = swap_el (arr m p n) (unat a) (unat b)"
    using do_swap_spec [of a n b p sz m] assms by (auto elim: returnsE)
  then show ?thesis using swap_el_mset [of "unat a" cnt "unat b" "arr m p n"] assms by (simp add: floated_def)
qed

lemma heapify_spec:
  assumes fits: "unat p + n * unat sz \<le> 4294967296" and cnt: "unat cnt \<le> n" "unat cnt < 2147483648"
    and "heap_except le (arr m p n) lo (unat cnt) (unat i)" "1 \<le> lo" "lo \<le> unat i" "unat i \<le> unat cnt"
  shows "returns (heapify m p i cnt sz compare) (\<lambda>m'. floated m p n (unat cnt) m' \<and> heap le (arr m' p n) lo (unat cnt))"
  unfolding heapify_def
proof (rule returns_loop [where I = "\<lambda>(i, m'). floated m p n (unat cnt) m' \<and>
      heap_except le (arr m' p n) lo (unat cnt) (unat i) \<and> lo \<le> unat i \<and> unat i \<le> unat cnt"
      and m = "\<lambda>(i, m'). unat cnt - unat i"], goal_cases)
  case 1
  show ?case using assms by simp
next
  case (2 st)
  obtain i m' where st: "st = (i, m')" by (cases st)
  then have I: "floated m p n (unat cnt) m'" "heap_except le (arr m' p n) lo (unat cnt) (unat i)" "lo \<le> unat i" "unat i \<le> unat cnt"
    using 2 by simp_all
  have u: "unat (2 * i) = 2 * unat i" "unat (2 * i + 1) = 2 * unat i + 1"
    using I(4) cnt(2) by (simp_all add: unat_word_ariths)
  define mx1 where "mx1 = (if 2 * i \<le> cnt \<and> 0 < do_compare m' p (2 * i) i sz compare then 2 * i else i)"
  define mx where "mx = (if 2 * i + 1 \<le> cnt \<and> 0 < do_compare m' p (2 * i + 1) mx1 sz compare then 2 * i + 1 else mx1)"
  have i1: "1 \<le> unat i" using I(3) assms(5) by simp
  have c1: "do_compare m' p (2 * i) i sz compare = cmp (el (arr m' p n) (2 * unat i)) (el (arr m' p n) (unat i))"
    if "2 * i \<le> cnt"
    using compare_el [of "2 * i" n i m' p] u(1) i1 that cnt(1) I(4) by (simp add: word_le_nat_alt)
  then have m1: "unat mx1 = (if 2 * unat i \<le> unat cnt \<and> 0 < cmp (el (arr m' p n) (2 * unat i)) (el (arr m' p n) (unat i))
      then 2 * unat i else unat i)"
    using u(1) by (auto simp: mx1_def word_le_nat_alt)
  have mx1: "1 \<le> unat mx1" "unat mx1 \<le> unat cnt" using m1 i1 I(4) by auto
  have "do_compare m' p (2 * i + 1) mx1 sz compare = cmp (el (arr m' p n) (2 * unat i + 1)) (el (arr m' p n) (unat mx1))"
    if "2 * i + 1 \<le> cnt"
    using compare_el [of "2 * i + 1" n mx1 m' p] u(2) mx1 that cnt(1) by (simp add: word_le_nat_alt)
  then have m2: "unat mx = (if 2 * unat i + 1 \<le> unat cnt \<and> 0 < cmp (el (arr m' p n) (2 * unat i + 1)) (el (arr m' p n) (unat mx1))
      then 2 * unat i + 1 else unat mx1)"
    using u(2) by (auto simp: mx_def word_le_nat_alt)
  note pick = pick_max [OF m1 m2]
  show ?case
  proof (cases "mx = i")
    case True
    then have "heap le (arr m' p n) lo (unat cnt)" using pick(2) by (intro heap_done [OF I(2)]) simp
    then show ?thesis
      unfolding st prod.case Let_def mx1_def [symmetric] mx_def [symmetric] using True I(1) by simp
  next
    case False
    then have mx: "unat mx div 2 = unat i" "unat mx \<le> unat cnt" using pick(3) by (auto simp: word_unat_eq_iff)
    then have gt: "unat i < unat mx" using i1 by auto
    obtain m'' where m'': "do_swap m' p i mx sz = ret m''" "floated m' p n (unat cnt) m''"
        "arr m'' p n = swap_el (arr m' p n) (unat i) (unat mx)"
      using floated_swap [of i "unat cnt" mx n p m'] i1 I(4) mx gt False cnt(1) fits by auto
    have "heap_except le (arr m'' p n) lo (unat cnt) (unat mx)"
      unfolding m''(3) using I(2,3) mx i1 assms(5) cnt(1) pick(1,2) by (intro heap_step) simp_all
    then show ?thesis
      unfolding st prod.case Let_def mx1_def [symmetric] mx_def [symmetric]
      using False m''(1,2) I(3) mx(2) gt floated_trans [OF I(1)] by simp
  qed
qed

lemma floated_whole:
  assumes "floated m p n cnt m'"
  shows "floated m p n n m'"
proof -
  have "mset (arr m' p n) = mset (take cnt (arr m' p n)) + mset (drop cnt (arr m' p n))" by (simp flip: mset_append)
  also have "\<dots> = mset (take cnt (arr m p n)) + mset (drop cnt (arr m p n))" using assms by (simp add: floated_def)
  also have "\<dots> = mset (arr m p n)" by (simp flip: mset_append)
  finally show ?thesis using assms by (simp add: floated_def)
qed

lemma build_heap:
  assumes fits: "unat p + unat cnt * unat sz \<le> 4294967296" and small: "unat cnt < 2147483648"
  shows "returns (loop (\<lambda>(i, m). if 0 < i then
      andthen (heapify m p i cnt sz compare) (\<lambda>m. ret (Inl (i - 1, m))) else ret (Inr m)) (cnt div 2, m))
    (\<lambda>m'. floated m p (unat cnt) (unat cnt) m' \<and> heap le (arr m' p (unat cnt)) 1 (unat cnt))"
proof (rule returns_loop [where I = "\<lambda>(i, m'). floated m p (unat cnt) (unat cnt) m' \<and>
      heap le (arr m' p (unat cnt)) (Suc (unat i)) (unat cnt) \<and> unat i \<le> unat cnt div 2" and m = "\<lambda>(i, m'). unat i"], goal_cases)
  case 1
  show ?case by (auto simp: heap_def unat_div)
next
  case (2 st)
  obtain i m' where st: "st = (i, m')" by (cases st)
  then have I: "floated m p (unat cnt) (unat cnt) m'" "heap le (arr m' p (unat cnt)) (Suc (unat i)) (unat cnt)" "unat i \<le> unat cnt div 2"
    using 2 by simp_all
  show ?case
  proof (cases "0 < i")
    case False
    then have "i = 0" by (simp add: word_gt_0)
    then show ?thesis using I by (simp add: st)
  next
    case True
    then have i: "1 \<le> unat i" "unat (i - 1) = unat i - 1" by (simp_all add: word_less_nat_alt unat_pred)
    have "heap_except le (arr m' p (unat cnt)) (unat i) (unat cnt) (unat i)"
      using I(2) i(1) by (auto simp: heap_def heap_except_def)
    then have "returns (heapify m' p i cnt sz compare) (\<lambda>m''. floated m' p (unat cnt) (unat cnt) m'' \<and>
        heap le (arr m'' p (unat cnt)) (unat i) (unat cnt))"
      using fits small i(1) I(3) by (intro heapify_spec) auto
    then obtain m'' where "heapify m' p i cnt sz compare = ret m''" "floated m' p (unat cnt) (unat cnt) m''"
        "heap le (arr m'' p (unat cnt)) (unat i) (unat cnt)" by (auto elim: returnsE)
    then show ?thesis using True i I(3) floated_trans [OF I(1)] by (simp add: st)
  qed
qed

lemma sort_heap:
  assumes fits: "unat p + unat cnt * unat sz \<le> 4294967296" and small: "unat cnt < 2147483648"
    and h: "heap le (arr m p (unat cnt)) 1 (unat cnt)"
  shows "returns (loop (\<lambda>(i, m). if 1 < i then
           andthen (do_swap m p 1 i sz) (\<lambda>m.
           andthen (heapify m p 1 (i - 1) sz compare) (\<lambda>m. ret (Inl (i - 1, m)))) else ret (Inr m)) (cnt, m))
    (\<lambda>m'. floated m p (unat cnt) (unat cnt) m' \<and> sorted_wrt le (arr m' p (unat cnt)))"
proof (rule returns_loop [where I = "\<lambda>(i, m'). floated m p (unat cnt) (unat cnt) m' \<and> unat i \<le> unat cnt \<and>
      heap le (arr m' p (unat cnt)) 1 (unat i) \<and> tail_sorted le (arr m' p (unat cnt)) (unat i)" and m = "\<lambda>(i, m'). unat i"], goal_cases)
  case 1
  show ?case using h by (simp add: tail_sorted_def)
next
  case (2 st)
  obtain i m' where st: "st = (i, m')" by (cases st)
  define n where "n = unat cnt"
  have I: "floated m p n n m'" "unat i \<le> n" "heap le (arr m' p n) 1 (unat i)" "tail_sorted le (arr m' p n) (unat i)"
    using 2 by (simp_all add: st n_def)
  show ?case
  proof (cases "1 < i")
    case False
    have "le (arr m' p n ! j) (arr m' p n ! k)" if "j < k" "k < n" for j k
      using I(4) [unfolded tail_sorted_def, THEN spec, of "Suc j", THEN spec, of "Suc k"] False that by (simp add: word_less_nat_alt)
    then have "sorted_wrt le (arr m' p n)" by (simp add: sorted_wrt_iff_nth_less)
    then show ?thesis using False I(1) by (simp add: st n_def)
  next
    case True
    then have i: "1 < unat i" "unat (i - 1) = unat i - 1" "i \<noteq> 1" by (auto simp: word_less_nat_alt unat_pred)
    obtain m1 where m1: "do_swap m' p 1 i sz = ret m1" "floated m' p n n m1" "arr m1 p n = swap_el (arr m' p n) 1 (unat i)"
      using floated_swap [of 1 n i n p m'] i I(2) fits by (auto simp: n_def)
    have "heap_except le (arr m1 p n) 1 (unat (i - 1)) (unat (1 :: u32))"
      unfolding heap_except_def
    proof (intro allI impI conjI)
      fix c assume c: "c \<le> unat (i - 1)" "1 \<le> c div 2" "c div 2 \<noteq> unat (1 :: u32)"
      then have "c \<le> unat i" "c \<noteq> unat i" "c div 2 \<noteq> unat i" "c \<noteq> 1" "1 \<le> c" using i by auto
      then show "le (el (arr m1 p n) c) (el (arr m1 p n) (c div 2))"
        using I(2,3) c i(1) el_swap [of 1 "arr m' p n" "unat i" c] el_swap [of 1 "arr m' p n" "unat i" "c div 2"]
        unfolding m1(3) by (simp add: heap_def)
    qed simp
    then have "returns (heapify m1 p 1 (i - 1) sz compare) (\<lambda>m2. floated m1 p n (unat (i - 1)) m2 \<and> heap le (arr m2 p n) 1 (unat (i - 1)))"
      using fits small i I(2) by (intro heapify_spec) (auto simp: n_def)
    then obtain m2 where m2: "heapify m1 p 1 (i - 1) sz compare = ret m2" "floated m1 p n (unat i - 1) m2" "heap le (arr m2 p n) 1 (unat i - 1)"
      using i(2) by (auto elim: returnsE)
    have "tail_sorted le (arr m2 p n) (unat i - 1)"
      using m2(2) I(2) i(1) unfolding floated_def m1(3)
      by (intro extract_max [OF le_refl trans I(3,4)]) simp_all
    moreover have "floated m p n n m2"
      using floated_trans [OF I(1) floated_trans [OF m1(2) floated_whole [OF m2(2)]]] .
    ultimately show ?thesis using True m1(1) m2(1,3) i I(2) by (simp add: st n_def)
  qed
qed

lemma sort_spec:
  assumes "p \<noteq> NULL \<or> cnt = 0" and "unat p + unat cnt * unat sz \<le> 4294967296" and "unat cnt < 2147483648"
  shows "returns (sort_array m p cnt sz (Some compare)) (\<lambda>m'. unchanged m m' p (unat cnt * unat sz) \<and>
    mset (arr m' p (unat cnt)) = mset (arr m p (unat cnt)) \<and> sorted_wrt le (arr m' p (unat cnt)))"
proof -
  obtain m1 where m1: "loop (\<lambda>(i, m). if 0 < i then
      andthen (heapify m p i cnt sz compare) (\<lambda>m. ret (Inl (i - 1, m))) else ret (Inr m)) (cnt div 2, m) = ret m1"
    and heap: "floated m p (unat cnt) (unat cnt) m1 \<and> heap le (arr m1 p (unat cnt)) 1 (unat cnt)"
    using build_heap [OF assms(2,3), of m] by (rule returnsE)
  have "returns (sort_array m p cnt sz (Some compare)) (\<lambda>m'. floated m1 p (unat cnt) (unat cnt) m' \<and> sorted_wrt le (arr m' p (unat cnt)))"
    using sort_heap [OF assms(2,3) heap [THEN conjunct2]] assms(1) size_pos
    unfolding sort_array_def option.sel Let_def m1 andthen_simps by (simp add: ASSERT_def)
  then show ?thesis
  proof (rule returns_mono)
    fix m' assume m': "floated m1 p (unat cnt) (unat cnt) m' \<and> sorted_wrt le (arr m' p (unat cnt))"
    then have "floated m p (unat cnt) (unat cnt) m'" using floated_trans heap by blast
    then show "unchanged m m' p (unat cnt * unat sz) \<and>
      mset (arr m' p (unat cnt)) = mset (arr m p (unat cnt)) \<and> sorted_wrt le (arr m' p (unat cnt))"
      using m' by (simp add: floated_def)
  qed
qed

lemma cmp_less_le: "cmp xs ys < 0 \<Longrightarrow> le ys zs \<Longrightarrow> cmp xs zs < 0"
  using flip [of zs xs] flip [of ys xs] trans [of ys zs xs] by linarith

lemma cmp_greater_le: "0 < cmp xs ys \<Longrightarrow> le zs ys \<Longrightarrow> 0 < cmp xs zs"
  using flip [of xs zs] flip [of xs ys] trans [of xs zs ys] by linarith

lemma binary_search_spec:
  assumes fits: "unat p + unat cnt * unat sz < 4294967296" and sorted: "sorted_wrt le (arr m p (unat cnt))"
  shows "returns (binary_search m key p cnt sz compare) (\<lambda>r.
    (\<exists>k < unat cnt. r = p + of_nat (k * unat sz) \<and> cmp (block m key (unat sz)) (arr m p (unat cnt) ! k) = 0) \<or>
    r = NULL \<and> (\<forall>k < unat cnt. cmp (block m key (unat sz)) (arr m p (unat cnt) ! k) \<noteq> 0))"
proof -
  define n s kb xs where "n = unat cnt" and "s = unat sz" and "kb = block m key (unat sz)" and "xs = arr m p (unat cnt)"
  have s: "0 < s" using size_pos by (simp add: s_def word_less_nat_alt)
  have le: "le (xs ! j) (xs ! k)" if "j \<le> k" "k < n" for j k
    using sorted_wrt_nth_less [OF sorted, of j k] that le_refl by (cases "j = k") (auto simp: xs_def n_def)
  define at where "at k = p + of_nat (k * s)" for k
  have u: "unat (at k) = unat p + k * s" if "k \<le> n" for k
  proof -
    have "k * s \<le> n * s" using that by simp
    then have "unat p + k * s < 4294967296" using fits unfolding n_def s_def by linarith
    then show ?thesis unfolding at_def by (subst unat_add_le) (simp_all add: unat_of_nat del: of_nat_mult)
  qed
  define I where "I = (\<lambda>(f, l). \<exists>lo hi. f = at lo \<and> l = at hi \<and> lo \<le> hi \<and> hi \<le> n \<and>
    (\<forall>k < lo. 0 < cmp kb (xs ! k)) \<and> (\<forall>k. hi \<le> k \<longrightarrow> k < n \<longrightarrow> cmp kb (xs ! k) < 0))"
  have init: "I (p, p + sz * cnt)"
  proof -
    have "p = at 0" "p + sz * cnt = at n" by (simp_all add: at_def n_def s_def mult.commute)
    then show ?thesis unfolding I_def prod.case by (intro exI [of _ 0] exI [of _ n]) simp
  qed
  show ?thesis
    unfolding binary_search_def xs_def [symmetric] kb_def [symmetric]
    unfolding n_def [symmetric] s_def [symmetric]
  proof (rule returns_loop [where I = I and m = "\<lambda>(f, l). unat l - unat f"], goal_cases)
    case 1
    show ?case by (rule init)
  next
    case (2 st)
    then obtain lo hi where st: "st = (at lo, at hi)" and lh: "lo \<le> hi" "hi \<le> n"
      and below: "\<forall>k < lo. 0 < cmp kb (xs ! k)" and above: "\<forall>k. hi \<le> k \<longrightarrow> k < n \<longrightarrow> cmp kb (xs ! k) < 0"
      by (auto simp: I_def)
    have lt: "at lo < at hi \<longleftrightarrow> lo < hi" using u [of lo] u [of hi] lh s by (simp add: word_less_nat_alt)
    show ?case
    proof (cases "lo < hi")
      case False
      then have "\<forall>k < n. cmp kb (xs ! k) \<noteq> 0" using below above lh(1) by (metis le_neq_implies_less less_irrefl not_less)
      then show ?thesis using False lt by (simp add: st)
    next
      case True
      define mid where "mid = lo + (hi - lo) div 2"
      have mid: "lo \<le> mid" "mid < hi" using True by (auto simp: mid_def)
      have "unat ((at hi - at lo) div sz) = hi - lo"
        using u [of lo] u [of hi] lh s True lt
        by (simp add: unat_div unat_minus_le less_imp_le s_def [symmetric] diff_mult_distrib [symmetric])
      then have "unat ((at hi - at lo) div sz div 2) = (hi - lo) div 2" by (simp add: unat_div)
      then have "(at hi - at lo) div sz div 2 = of_nat ((hi - lo) div 2)" 
        using unat_offset [of "(at hi - at lo) div sz div 2" 0] by simp
      then have middle: "at lo + (at hi - at lo) div sz div 2 * sz = at mid"
        by (simp add: at_def mid_def s_def algebra_simps)
      have cmp: "compare m key (at mid) = cmp kb (xs ! mid)"
        using mid lh by (simp add: blocks kb_def xs_def array_of_nth n_def [symmetric] at_def s_def)
      have nxt: "at mid + sz = at (Suc mid)" by (simp add: at_def s_def algebra_simps)
      have lower: "I (at lo, at mid)" if "cmp kb (xs ! mid) < 0"
        unfolding I_def prod.case using mid lh below cmp_less_le [OF that le] by (intro exI [of _ lo] exI [of _ mid]) auto
      have upper: "I (at (Suc mid), at hi)" if "0 < cmp kb (xs ! mid)"
        unfolding I_def prod.case using mid lh above cmp_greater_le [OF that le]
        by (intro exI [of _ "Suc mid"] exI [of _ hi]) (auto simp: less_Suc_eq_le)
      have "sz \<noteq> 0" using size_pos by (simp add: word_gt_0)
      moreover have "unat (at lo) \<le> unat (at mid)" "unat (at mid) < unat (at hi)" "unat (at mid) < unat (at (Suc mid))"
        using u mid lh s by simp_all
      ultimately show ?thesis
        unfolding st prod.case Let_def middle cmp nxt
        using True lt lower upper mid lh by (auto simp: at_def)
    qed
  qed
qed

end

definition int_of_bytes :: "u8 list \<Rightarrow> int" where
  "int_of_bytes bs = sint (ucast (bs ! 0) + 256 * ucast (bs ! 1) + 65536 * ucast (bs ! 2) + 16777216 * ucast (bs ! 3) :: u32)"

definition cmp_ints :: "u8 list \<Rightarrow> u8 list \<Rightarrow> int" where
  "cmp_ints xs ys = (if int_of_bytes xs < int_of_bytes ys then - 1 else if int_of_bytes ys < int_of_bytes xs then 1 else 0)"

lemma block_4: "block m p 4 = [m p, m (p + 1), m (p + 2), m (p + 3)]"
  by (simp add: block_def numeral_nat)

lemma load_int_block: "load_int m p = int_of_bytes (block m p 4)"
  unfolding block_4 by (simp add: load_int_def int_of_bytes_def numeral_nat)

interpretation ints: element_order 4 compare_ints cmp_ints
  by unfold_locales (auto simp: compare_ints_def cmp_ints_def load_int_block split: if_splits)

section \<open>Parsing numbers\<close>

lemma uint_byte: "0 \<le> uint (c :: u8) \<and> uint c < 256"
  using uint_range_size [of c] by (simp add: word_size)

lemma sint_byte: "sint (c :: u8) = (if uint c < 128 then uint c else uint c - 256)"
proof -
  have s: "sint c = (uint c + 128) mod 256 - 128"
    using int_word_sint [where ?'a = 8, of "uint c"] by simp
  show ?thesis
  proof (cases "uint c < 128")
    case True
    then have "(uint c + 128) mod 256 = uint c + 128" using uint_byte [of c] by (intro mod_pos_pos_trivial) simp_all
    then have "sint c = uint c" using s by linarith
    then show ?thesis using True by simp
  next
    case False
    have "(uint c + 128) mod 256 = (uint c - 128 + 256) mod 256" by (simp add: algebra_simps)
    also have "\<dots> = (uint c - 128) mod 256" by (rule mod_add_self2)
    also have "\<dots> = uint c - 128" using False uint_byte [of c] by (intro mod_pos_pos_trivial) linarith+
    finally have "sint c = uint c - 256" using s by linarith
    then show ?thesis using False by simp
  qed
qed

lemma isdigit_byte: "isdigit (sint (c :: u8)) \<longleftrightarrow> 48 \<le> uint c \<and> uint c \<le> 57"
  using uint_byte [of c] by (auto simp: isdigit_def sint_byte)

text \<open>The decimal digits of a number, and the value the digit loop computes from them.\<close>

fun decimal :: "nat \<Rightarrow> u8 list" where
  "decimal n = (if n < 10 then [48 + of_nat n] else decimal (n div 10) @ [48 + of_nat (n mod 10)])"

declare decimal.simps [simp del]

lemma digit_byte:
  assumes "d < 10"
  shows "uint (48 + of_nat d :: u8) = 48 + int d" and "(48 + of_nat d :: u8) \<noteq> 0"
proof -
  have "unat (of_nat d :: u8) = d" using assms by (simp add: unat_of_nat)
  then have u: "unat (48 + of_nat d :: u8) = 48 + d" using assms by (simp add: unat_word_ariths)
  have "uint (48 + of_nat d :: u8) = int (unat (48 + of_nat d :: u8))" by (rule uint_nat)
  then show "uint (48 + of_nat d :: u8) = 48 + int d" unfolding u by simp
  show "(48 + of_nat d :: u8) \<noteq> 0"
  proof
    assume "(48 + of_nat d :: u8) = 0"
    then show False using u by (simp only: unsigned_0)
  qed
qed

lemma decimal_digits: "c \<in> set (decimal n) \<Longrightarrow> isdigit (sint c) \<and> c \<noteq> 0"
proof (induction n rule: decimal.induct)
  case (1 n)
  show ?case
  proof (cases "n < 10")
    case True
    then show ?thesis using 1(2) digit_byte [of n] by (simp add: decimal.simps [of n] isdigit_byte)
  next
    case False
    then show ?thesis using 1 digit_byte [of "n mod 10"] by (auto simp: decimal.simps [of n] isdigit_byte)
  qed
qed

lemma decimal_nonempty: "decimal n \<noteq> []"
  by (subst decimal.simps) simp

abbreviation next_value :: "u32 \<Rightarrow> u8 \<Rightarrow> u32" where
  "next_value v c \<equiv> v * 10 - word_of_int (sint c - 48)"

lemma decimal_value: "foldl next_value 0 (decimal n) = - of_nat n"
proof (induction n rule: decimal.induct)
  case (1 n)
  have d: "scast (48 + of_nat d :: u8) = (48 + of_nat d :: u32)" if "d < 10" for d
  proof -
    have "sint (48 + of_nat d :: u8) = 48 + int d" unfolding sint_byte digit_byte(1) [OF that] using that by simp
    moreover have "(word_of_int (sint (48 + of_nat d :: u8)) :: u32) = scast (48 + of_nat d :: u8)" by simp
    ultimately show ?thesis by simp
  qed
  show ?case
  proof (cases "n < 10")
    case True
    then show ?thesis using d [of n] by (simp add: decimal.simps [of n])
  next
    case False
    have "(of_nat n :: u32) = of_nat (n div 10 * 10 + n mod 10)" by simp
    also have "\<dots> = of_nat (n div 10) * 10 + of_nat (n mod 10)" by (simp only: of_nat_add of_nat_mult of_nat_numeral)
    finally show ?thesis using 1 False d [of "n mod 10"] by (simp add: decimal.simps [of n])
  qed
qed

lemma atoi_digits:
  assumes "cstr m s (ds @ rest)" and "\<And>c. c \<in> set ds \<Longrightarrow> isdigit (sint c)"
    and "rest = [] \<or> \<not> isdigit (sint (hd rest))"
  shows "loop (\<lambda>(value, s). if isdigit (sint (m s))
          then ret (Inl (value * 10 - word_of_int (sint (m s) - 48), s + 1)) else ret (Inr value)) (v, s) =
    ret (foldl next_value v ds)"
  using assms
proof (induction ds arbitrary: s v)
  case Nil
  have "\<not> isdigit (sint (m s))"
  proof (cases rest)
    case Nil
    then show ?thesis using \<open>cstr m s ([] @ rest)\<close> by (simp add: cstr_Nil isdigit_def)
  next
    case (Cons c cs)
    then show ?thesis using Nil.prems(1,3) cstr_Cons(1) [of m s c cs] by simp
  qed
  then show ?case by (subst loop.simps) simp
next
  case (Cons d ds)
  have c: "m s = d" "cstr m (s + 1) (ds @ rest)" using cstr_Cons [of m s d "ds @ rest"] Cons.prems(1) by auto
  then show ?case using Cons.IH [OF c(2), of "next_value v d"] Cons.prems by (subst loop.simps) simp
qed

lemma atoi_spaces:
  assumes "cstr m s (ws @ cs)" and "\<And>c. c \<in> set ws \<Longrightarrow> isspace (uint c)" and "cs \<noteq> []" and "\<not> isspace (uint (hd cs))"
  shows "loop (\<lambda>s. if isspace (uint (m s)) then ret (Inl (s + 1)) else ret (Inr s)) s = ret (s + of_nat (length ws))"
  using assms
proof (induction ws arbitrary: s)
  case Nil
  then have "m s = hd cs" using cstr_Cons(1) [of m s "hd cs" "tl cs"] by simp
  then show ?case using Nil by (subst loop.simps) simp
next
  case (Cons w ws)
  have c: "m s = w" "cstr m (s + 1) (ws @ cs)" using cstr_Cons [of m s w "ws @ cs"] Cons.prems(1) by auto
  then show ?case using Cons.IH [OF c(2)] Cons.prems by (subst loop.simps) (simp add: add.assoc)
qed

lemma atoi_cstr:
  assumes "cstr m s (ws @ sign @ decimal n @ rest)" and ws: "\<And>c. c \<in> set ws \<Longrightarrow> isspace (uint c)"
    and sign: "sign \<in> {[], [43], [45]}" and rest: "rest = [] \<or> \<not> isdigit (sint (hd rest))"
  shows "atoi m s = ret (if sign = [45] then - of_nat n else of_nat n)"
proof -
  obtain d ds where dec: "decimal n = d # ds" using decimal_nonempty [of n] by (cases "decimal n") auto
  then have d: "isdigit (sint d)" using decimal_digits [of d n] by simp
  then have du: "48 \<le> uint d" "uint d \<le> 57" by (simp_all add: isdigit_byte)
  define p where "p = s + of_nat (length ws)"
  have "\<not> isspace (uint (hd (sign @ decimal n @ rest)))" using sign du by (auto simp: dec isspace_def)
  then have sp: "loop (\<lambda>s. if isspace (uint (m s)) then ret (Inl (s + 1)) else ret (Inr s)) s = ret p"
    using atoi_spaces [OF assms(1) ws] dec by (simp add: p_def)
  have p: "cstr m p (sign @ decimal n @ rest)" unfolding p_def by (rule cstr_append(1) [OF assms(1)])
  define q where "q = p + of_nat (length sign)"
  have q: "cstr m q (decimal n @ rest)" unfolding q_def by (rule cstr_append(1) [OF p])
  have sg: "(if m p = 43 then (False, p + 1) else if m p = 45 then (True, p + 1) else (False, p)) = (sign = [45], q)"
  proof (cases "sign = []")
    case True
    then have "m p = d" using p dec cstr_Cons(1) [of m p d] by simp
    then show ?thesis using True du by (auto simp: q_def)
  next
    case False
    then obtain c where "sign = [c]" "c = 43 \<or> c = 45" using sign by auto
    then show ?thesis using p cstr_Cons(1) [of m p c] by (auto simp: q_def)
  qed
  have "loop (\<lambda>(value, s). if isdigit (sint (m s))
          then ret (Inl (value * 10 - word_of_int (sint (m s) - 48), s + 1)) else ret (Inr value)) (0 :: u32, q) = ret (- of_nat n)"
    using atoi_digits [OF q _ rest, of 0] decimal_digits unfolding decimal_value by blast
  then show ?thesis
    unfolding atoi_def sp andthen_simps sg Let_def prod.case using cstr_NULL [OF assms(1)] by simp
qed

section \<open>Properties\<close>

text \<open>The two \<^verbatim>\<open>int\<close>s 5 and 3 at 100, and in order at 200; the key 5 at 300.\<close>

definition sample_ints :: mem where
  "sample_ints = (\<lambda>_. 0)(100 := 5, 104 := 3, 200 := 3, 204 := 5, 300 := 5)"

lemma sample_ints_blocks:
  "array_of sample_ints 100 4 2 = [[5, 0, 0, 0], [3, 0, 0, 0]]" "array_of sample_ints 200 4 2 = [[3, 0, 0, 0], [5, 0, 0, 0]]"
  "block sample_ints 300 4 = [5, 0, 0, 0]" "cmp_ints [3, 0, 0, 0] [5, 0, 0, 0] = - 1" "cmp_ints [5, 0, 0, 0] [3, 0, 0, 0] = 1"
proof -
  have two: "array_of m p 4 2 = [block m p 4, block m (p + 4) 4]" for m p by (simp add: array_of_def numeral_2_eq_2)
  show "array_of sample_ints 100 4 2 = [[5, 0, 0, 0], [3, 0, 0, 0]]" "array_of sample_ints 200 4 2 = [[3, 0, 0, 0], [5, 0, 0, 0]]"
    "block sample_ints 300 4 = [5, 0, 0, 0]"
    by (simp_all add: two block_4 sample_ints_def)
  show "cmp_ints [3, 0, 0, 0] [5, 0, 0, 0] = - 1" "cmp_ints [5, 0, 0, 0] [3, 0, 0, 0] = 1"
    by (simp_all add: cmp_ints_def int_of_bytes_def)
qed

text \<open>
  C23: \<^verbatim>\<open>qsort\<close> sorts. For a comparison function that depends on the bytes of the elements alone
  and is a total preorder, an array of fewer than $2^{31}$ elements that lies inside the address space
  is sorted after the call, with the same elements as before, and no byte outside the array
  has changed; the heap sort terminates and none of its assertions fails.
\<close>

theorem qsort_sorts:
  assumes "element_order sz compare cmp" and "p \<noteq> NULL \<or> cnt = 0"
    and "unat p + unat cnt * unat sz \<le> 4294967296" and "unat cnt < 2147483648"
  shows "returns (qsort m p cnt sz compare) (\<lambda>m'.
    mset (array_of m' p (unat sz) (unat cnt)) = mset (array_of m p (unat sz) (unat cnt)) \<and>
    sorted_wrt (\<lambda>x y. cmp x y \<le> 0) (array_of m' p (unat sz) (unat cnt)) \<and> unchanged m m' p (unat cnt * unat sz))"
proof -
  have "compare_thunk compare = compare" by (simp add: compare_thunk_def fun_eq_iff)
  then show ?thesis
    using element_order.sort_spec [OF assms, of m] by (auto simp: qsort_def elim!: returns_mono)
qed

theorem qsort_sorts_witness:
  "returns (qsort sample_ints 100 2 4 compare_ints) (\<lambda>m'. mset (array_of m' 100 4 2) = {#[5, 0, 0, 0], [3, 0, 0, 0]#} \<and>
     sorted_wrt (\<lambda>x y. cmp_ints x y \<le> 0) (array_of m' 100 4 2) \<and> m' 108 = sample_ints 108)"
  using qsort_sorts [OF ints.element_order_axioms, of 100 2 sample_ints]
  by (auto simp: sample_ints_blocks unchanged_def elim!: returns_mono)

text \<open>
  C24: \<^verbatim>\<open>bsearch\<close> finds a match exactly if there is one. In a sorted array it terminates,
  returns the address of an element that compares equal to the key, and a null pointer
  only if no element of the array does.
\<close>

theorem bsearch_finds:
  assumes "element_order sz compare cmp" and "unat p + unat cnt * unat sz < 4294967296"
    and "sorted_wrt (\<lambda>x y. cmp x y \<le> 0) (array_of m p (unat sz) (unat cnt))"
  shows "returns (bsearch m key p cnt sz compare) (\<lambda>r.
    (\<exists>k < unat cnt. r = p + of_nat (k * unat sz) \<and> cmp (block m key (unat sz)) (array_of m p (unat sz) (unat cnt) ! k) = 0) \<or>
    r = NULL \<and> (\<forall>k < unat cnt. cmp (block m key (unat sz)) (array_of m p (unat sz) (unat cnt) ! k) \<noteq> 0))"
proof -
  have "compare_thunk compare = compare" by (simp add: compare_thunk_def fun_eq_iff)
  then show ?thesis
    using element_order.binary_search_spec [OF assms, of key] by (simp add: bsearch_def)
qed

theorem bsearch_finds_witness:
  "bsearch sample_ints 300 200 2 4 compare_ints = ret 204"
proof -
  have eq: "cmp_ints [5, 0, 0, 0] [5, 0, 0, 0] = 0" by (simp add: cmp_ints_def)
  have "returns (bsearch sample_ints 300 200 2 4 compare_ints) (\<lambda>r.
    (\<exists>k < 2. r = 200 + of_nat (k * 4) \<and> cmp_ints [5, 0, 0, 0] ([[3, 0, 0, 0], [5, 0, 0, 0]] ! k) = 0) \<or>
    r = NULL \<and> (\<forall>k < 2. cmp_ints [5, 0, 0, 0] ([[3, 0, 0, 0], [5, 0, 0, 0]] ! k) \<noteq> 0))"
    using bsearch_finds [OF ints.element_order_axioms, of 200 2 sample_ints 300] by (simp add: sample_ints_blocks)
  then obtain r where r: "bsearch sample_ints 300 200 2 4 compare_ints = ret r"
    and "(\<exists>k < 2. r = 200 + of_nat (k * 4) \<and> cmp_ints [5, 0, 0, 0] ([[3, 0, 0, 0], [5, 0, 0, 0]] ! k) = 0) \<or>
    r = NULL \<and> (\<forall>k < 2. cmp_ints [5, 0, 0, 0] ([[3, 0, 0, 0], [5, 0, 0, 0]] ! k) \<noteq> 0)" by (rule returnsE)
  from this(2) have "r = 204"
  proof (elim disjE exE conjE)
    fix k :: nat assume k: "k < 2" "r = 200 + of_nat (k * 4)" "cmp_ints [5, 0, 0, 0] ([[3, 0, 0, 0], [5, 0, 0, 0]] ! k) = 0"
    then have "k = 0 \<or> k = 1" by linarith
    then show "r = 204" using k(2,3) sample_ints_blocks(5) by (elim disjE) simp_all
  next
    assume "\<forall>k < 2. cmp_ints [5, 0, 0, 0] ([[3, 0, 0, 0], [5, 0, 0, 0]] ! k) \<noteq> 0"
    from this [THEN spec, of 1] show "r = 204" using eq by simp
  qed
  then show ?thesis using r by (simp only:)
qed

text \<open>
  C35: \<^verbatim>\<open>atoi\<close> reads what decimal notation means. After any white space and an optional
  sign, the decimal digits of a number up to the first character that is no digit give that number,
  or its negative, for every number an \<^verbatim>\<open>int\<close> can hold, the smallest included, and modulo
  $2^{32}$ for others.
\<close>

theorem atoi_decimal:
  assumes "cstr m s (ws @ sign @ decimal n @ rest)" and "\<forall>c \<in> set ws. isspace (uint c)"
    and "sign \<in> {[], [43], [45]}" and "rest = [] \<or> \<not> isdigit (sint (hd rest))"
  shows "atoi m s = ret (word_of_int (if sign = [45] then - int n else int n))"
  using atoi_cstr [OF assms(1) _ assms(3,4)] assms(2) by simp

theorem atoi_decimal_witness:
  "atoi ((\<lambda>_. 0)(100 := 32, 101 := 45, 102 := 52, 103 := 50, 104 := 120)) 100 = ret (- 42)"
proof -
  have "decimal 4 = [52]" by (subst decimal.simps) simp
  then have "decimal 42 = [52, 50]" by (subst decimal.simps) simp
  then have "cstr ((\<lambda>_. 0)(100 := 32, 101 := 45, 102 := 52, 103 := 50, 104 := 120)) 100 ([32] @ [45] @ decimal 42 @ [120])"
    by (simp add: cstr_def)
  from atoi_decimal [OF this] show ?thesis by (simp add: isspace_def isdigit_def)
qed

end
