(* ===== verification/Thread.thy ===== *)
theory Thread
  imports Palloc
begin

section \<open>Threads (\<^verbatim>\<open>threads/thread.c\<close>)\<close>

text \<open>
  The operations of the thread system over the state of the kernel and of the page allocator.
  A thread is named by the address of its page. The structures at the start of these pages are
  the map \<^const>\<open>thr\<close>; the stack frames that \<^verbatim>\<open>thread_create\<close> writes are bytes of the memory.

  A call of \<^verbatim>\<open>schedule\<close> begins in one thread and ends in another one: the definition follows the
  processor, so that the state after it is the one in which the next thread continues, with
  \<^verbatim>\<open>thread_schedule_tail\<close> done. What the suspended thread still has to do when it is resumed (for
  instance the last line of \<^verbatim>\<open>thread_yield\<close>) is not part of the call here; the theory
  \<open>Scheduler\<close> keeps it as the thread's continuation. A thread that has to wait for the lock of
  the thread identifiers or of a page pool makes a call stop with \<^const>\<open>Sleeps\<close>.
\<close>

definition TIME_SLICE :: u32 where "TIME_SLICE = 4"
definition PRI_MIN :: int where "PRI_MIN = 0"
definition PRI_DEFAULT :: int where "PRI_DEFAULT = 31"
definition PRI_MAX :: int where "PRI_MAX = 63"
definition TID_ERROR :: u32 where "TID_ERROR = - 1"

definition init_thread :: "kernel \<Rightarrow> addr \<Rightarrow> string option \<Rightarrow> int \<Rightarrow> kernel res" where
  "init_thread k t nm pri = ASSERT (t \<noteq> NULL) (ASSERT (PRI_MIN \<le> pri \<and> pri \<le> PRI_MAX) (ASSERT (nm \<noteq> None)
     (ret (k\<lparr>thr := (thr k)(t := \<lparr>tid = 0, status = THREAD_BLOCKED, name = take 15 (the nm),
                stack = t + PGSIZE, priority = pri, magic = THREAD_MAGIC\<rparr>),
             all_list := all_list k @ [t]\<rparr>))))"

definition alloc_frame :: "kernel \<Rightarrow> addr \<Rightarrow> size_t \<Rightarrow> (addr \<times> kernel) res" where
  "alloc_frame k t sz = ASSERT (is_thread k t) (ASSERT (sz mod 4 = 0)
     (let s = stack (thr k t) - sz
      in ret (s, k\<lparr>thr := (thr k)(t := (thr k t)\<lparr>stack := s\<rparr>)\<rparr>)))"

definition next_thread_to_run :: "kernel \<Rightarrow> addr \<times> kernel" where
  "next_thread_to_run k = (case ready_list k of
       [] \<Rightarrow> (idle_thread k, k)
     | t # ts \<Rightarrow> (t, k\<lparr>ready_list := ts\<rparr>))"

text \<open>
  Freeing the page of a dead thread fills it with \<^verbatim>\<open>0xcc\<close>; this also destroys the magic number
  of the structure at its start.
\<close>

definition thread_schedule_tail :: "kernel \<Rightarrow> palloc \<Rightarrow> addr \<Rightarrow> (kernel \<times> palloc) res" where
  "thread_schedule_tail k st prev = (let cur = running_thread k in
     ASSERT (intr_get_level k = INTR_OFF)
       (let k = set_status cur THREAD_RUNNING k; k = k\<lparr>thread_ticks := 0\<rparr> in
        if prev \<noteq> NULL \<and> status (thr k prev) = THREAD_DYING \<and> prev \<noteq> initial_thread k then
          ASSERT (prev \<noteq> cur)
            (andthen (palloc_free_page k st prev) (\<lambda>(k, st).
               ret (k\<lparr>thr := (thr k)(prev := (thr k prev)\<lparr>magic := 0xcccccccc\<rparr>)\<rparr>, st)))
        else ret (k, st)))"

definition schedule :: "kernel \<Rightarrow> palloc \<Rightarrow> (kernel \<times> palloc) res" where
  "schedule k st = (let cur = running_thread k; (nxt, k) = next_thread_to_run k in
     ASSERT (intr_get_level k = INTR_OFF) (ASSERT (status (thr k cur) \<noteq> THREAD_RUNNING)
       (ASSERT (is_thread k nxt)
         (if cur \<noteq> nxt then thread_schedule_tail (k\<lparr>running := nxt\<rparr>) st cur
          else thread_schedule_tail k st NULL))))"

definition allocate_tid :: "kernel \<Rightarrow> (u32 \<times> kernel) res" where
  "allocate_tid k =
     andthen (lock_acquire k (tid_lock k)) (\<lambda>w. case w of
        Asleep _ \<Rightarrow> stop Sleeps
      | Done (k, l) \<Rightarrow>
          (let t = next_tid k; k = k\<lparr>next_tid := next_tid k + 1\<rparr> in
           andthen (lock_release k l) (\<lambda>(k, l). ret (t, k\<lparr>tid_lock := l\<rparr>))))"

definition set_tid :: "addr \<Rightarrow> u32 \<Rightarrow> kernel \<Rightarrow> kernel" where
  "set_tid t i k = k\<lparr>thr := (thr k)(t := (thr k t)\<lparr>tid := i\<rparr>)\<rparr>"

definition thread_init :: "kernel \<Rightarrow> kernel res" where
  "thread_init k = ASSERT (intr_get_level k = INTR_OFF)
     (let k = k\<lparr>tid_lock := lock_init, ready_list := [], all_list := []\<rparr>;
          t = running_thread k; k = k\<lparr>initial_thread := t\<rparr>
      in andthen (init_thread k t (Some ''main'') PRI_DEFAULT) (\<lambda>k.
         let k = set_status t THREAD_RUNNING k in
         andthen (allocate_tid k) (\<lambda>(i, k). ret (set_tid t i k))))"

text \<open>
  Words are stored with the least significant byte first. \<open>kernel_thread\<close> and \<open>switch_entry\<close>
  are the addresses of these routines.
\<close>

definition store_word :: "mem \<Rightarrow> addr \<Rightarrow> u32 \<Rightarrow> mem" where
  "store_word m a w = m(a := ucast w, a + 1 := ucast (drop_bit 8 w), a + 2 := ucast (drop_bit 16 w), a + 3 := ucast (drop_bit 24 w))"

definition thread_create :: "addr \<Rightarrow> addr \<Rightarrow> kernel \<Rightarrow> palloc \<Rightarrow> string option \<Rightarrow> int \<Rightarrow> addr \<Rightarrow> addr \<Rightarrow> (u32 \<times> kernel \<times> palloc) res" where
  "thread_create kernel_thread switch_entry k st nm pri function aux =
     ASSERT (function \<noteq> NULL)
       (andthen (palloc_get_page k st PAL_ZERO) (\<lambda>(t, k, st).
        if t = NULL then ret (TID_ERROR, k, st)
        else
          andthen (init_thread k t nm pri) (\<lambda>k.
          andthen (allocate_tid k) (\<lambda>(i, k). let k = set_tid t i k in
          andthen (intr_disable k) (\<lambda>(old_level, k).
          andthen (alloc_frame k t 12) (\<lambda>(kf, k).
          let m = store_word (memory st) kf NULL;
              m = store_word m (kf + 4) function;
              m = store_word m (kf + 8) aux in
          andthen (alloc_frame k t 4) (\<lambda>(ef, k).
          let m = store_word m ef kernel_thread in
          andthen (alloc_frame k t 28) (\<lambda>(sf, k).
          let m = store_word m (sf + 16) switch_entry;
              m = store_word m (sf + 8) 0 in
          andthen (intr_set_level old_level k) (\<lambda>(_, k).
          andthen (thread_unblock k t) (\<lambda>k.
            ret (i, k, st\<lparr>memory := m\<rparr>)))))))))))"

definition thread_block :: "kernel \<Rightarrow> palloc \<Rightarrow> (kernel \<times> palloc) res" where
  "thread_block k st = andthen (thread_block_begin k) (\<lambda>k. schedule k st)"

definition thread_exit :: "kernel \<Rightarrow> palloc \<Rightarrow> (kernel \<times> palloc) res" where
  "thread_exit k st = ASSERT (\<not> intr_context k)
     (andthen (intr_disable k) (\<lambda>(_, k).
      andthen (thread_current k) (\<lambda>cur. let k = k\<lparr>all_list := remove1 cur (all_list k)\<rparr> in
      andthen (thread_current k) (\<lambda>cur. schedule (set_status cur THREAD_DYING k) st))))"

text \<open>\<^verbatim>\<open>thread_yield\<close> up to its return from \<^verbatim>\<open>schedule\<close>, with the level that it will restore.\<close>

definition thread_yield :: "kernel \<Rightarrow> palloc \<Rightarrow> (intr_level \<times> kernel \<times> palloc) res" where
  "thread_yield k st =
     andthen (thread_current k) (\<lambda>cur. ASSERT (\<not> intr_context k)
       (andthen (intr_disable k) (\<lambda>(old_level, k).
        let k = (if cur \<noteq> idle_thread k then k\<lparr>ready_list := ready_list k @ [cur]\<rparr> else k);
            k = set_status cur THREAD_READY k
        in andthen (schedule k st) (\<lambda>(k, st). ret (old_level, k, st)))))"

definition thread_tick :: "kernel \<Rightarrow> kernel res" where
  "thread_tick k =
     andthen (thread_current k) (\<lambda>t.
      let k = (if t = idle_thread k then k\<lparr>idle_ticks := idle_ticks k + 1\<rparr> else k\<lparr>kernel_ticks := kernel_ticks k + 1\<rparr>);
          k = k\<lparr>thread_ticks := thread_ticks k + 1\<rparr>
      in if TIME_SLICE \<le> thread_ticks k then intr_yield_on_return k else ret k)"

definition thread_name :: "kernel \<Rightarrow> string res" where
  "thread_name k = andthen (thread_current k) (\<lambda>t. ret (name (thr k t)))"

definition thread_tid :: "kernel \<Rightarrow> u32 res" where
  "thread_tid k = andthen (thread_current k) (\<lambda>t. ret (tid (thr k t)))"

definition thread_foreach :: "kernel \<Rightarrow> (addr \<Rightarrow> kernel \<Rightarrow> kernel res) \<Rightarrow> kernel res" where
  "thread_foreach k func = ASSERT (intr_get_level k = INTR_OFF) (for_each func (all_list k) k)"

definition thread_set_priority :: "int \<Rightarrow> kernel \<Rightarrow> kernel res" where
  "thread_set_priority new_priority k = andthen (thread_current k) (\<lambda>t.
     ret (k\<lparr>thr := (thr k)(t := (thr k t)\<lparr>priority := new_priority\<rparr>)\<rparr>))"

definition thread_get_priority :: "kernel \<Rightarrow> int res" where
  "thread_get_priority k = andthen (thread_current k) (\<lambda>t. ret (priority (thr k t)))"

definition thread_set_nice :: "int \<Rightarrow> kernel \<Rightarrow> kernel res" where
  "thread_set_nice nice k = ret k"

definition thread_get_nice :: "kernel \<Rightarrow> int res" where
  "thread_get_nice k = ret 0"

definition thread_get_load_avg :: "kernel \<Rightarrow> int res" where
  "thread_get_load_avg k = ret 0"

definition thread_get_recent_cpu :: "kernel \<Rightarrow> int res" where
  "thread_get_recent_cpu k = ret 0"

end
