(* ===== verification/Thread_Inv.thy ===== *)
theory Thread_Inv
  imports Thread
begin

section \<open>The invariant of the thread system\<close>

text \<open>
  The ready list holds exactly the live threads that are ready, the idle thread apart; between
  two calls exactly one live thread is running. \<open>queued\<close> is what also holds while a thread
  is giving up the processor.
\<close>

abbreviation live :: "kernel \<Rightarrow> addr set" where
  "live k \<equiv> set (all_list k)"

abbreviation stat :: "kernel \<Rightarrow> addr \<Rightarrow> thread_status" where
  "stat k t \<equiv> status (thr k t)"

definition queued :: "kernel \<Rightarrow> bool" where
  "queued k \<longleftrightarrow> \<not> intr_context k \<and> distinct (ready_list k) \<and> distinct (all_list k) \<and>
     (\<forall>t\<in>live k. is_thread k t \<and> stat k t \<noteq> THREAD_DYING) \<and> idle_thread k \<in> live k \<and>
     (\<forall>t. t \<in> set (ready_list k) \<longleftrightarrow> t \<in> live k \<and> stat k t = THREAD_READY \<and> t \<noteq> idle_thread k) \<and>
     tid_lock k = lock_init"

definition wf_kernel :: "kernel \<Rightarrow> bool" where
  "wf_kernel k \<longleftrightarrow> queued k \<and> running k \<in> live k \<and>
     (\<forall>t\<in>live k. stat k t = THREAD_RUNNING \<longleftrightarrow> t = running k)"

definition descheduled :: "kernel \<Rightarrow> bool" where
  "descheduled k \<longleftrightarrow> queued k \<and> level k = INTR_OFF \<and> stat k (running k) \<noteq> THREAD_RUNNING \<and>
     (\<forall>t\<in>live k. stat k t \<noteq> THREAD_RUNNING)"

lemma wf_kernel_runs: "wf_kernel k \<Longrightarrow> runs k"
  by (simp add: wf_kernel_def queued_def runs_def)

lemma wf_kernel_level [simp]: "wf_kernel (k\<lparr>level := l\<rparr>) = wf_kernel k"
  by (simp add: wf_kernel_def queued_def intr_context_def is_thread_def)

lemma set_status_simps [simp]:
  "thr (set_status t v k) u = (if u = t then (thr k t)\<lparr>status := v\<rparr> else thr k u)"
  "running (set_status t v k) = running k" "ready_list (set_status t v k) = ready_list k"
  "all_list (set_status t v k) = all_list k" "idle_thread (set_status t v k) = idle_thread k"
  "initial_thread (set_status t v k) = initial_thread k" "level (set_status t v k) = level k"
  "in_external_intr (set_status t v k) = in_external_intr k" "thread_ticks (set_status t v k) = thread_ticks k"
  "tid_lock (set_status t v k) = tid_lock k" "yield_on_return (set_status t v k) = yield_on_return k"
  by (simp_all add: set_status_def)

section \<open>Switching threads\<close>

text \<open>What \<^verbatim>\<open>schedule\<close> does to the kernel, a dead thread's page apart.\<close>

definition upcoming :: "kernel \<Rightarrow> addr" where
  "upcoming k = (case ready_list k of [] \<Rightarrow> idle_thread k | t # _ \<Rightarrow> t)"

definition dispatched :: "kernel \<Rightarrow> kernel" where
  "dispatched k = (set_status (upcoming k) THREAD_RUNNING
     (k\<lparr>ready_list := tl (ready_list k), running := upcoming k\<rparr>))\<lparr>thread_ticks := 0\<rparr>"

lemma dispatched_simps [simp]:
  "thr (dispatched k) u = (if u = upcoming k then (thr k u)\<lparr>status := THREAD_RUNNING\<rparr> else thr k u)"
  "running (dispatched k) = upcoming k" "ready_list (dispatched k) = tl (ready_list k)"
  "all_list (dispatched k) = all_list k" "idle_thread (dispatched k) = idle_thread k"
  "initial_thread (dispatched k) = initial_thread k" "level (dispatched k) = level k"
  "in_external_intr (dispatched k) = in_external_intr k" "thread_ticks (dispatched k) = 0"
  "tid_lock (dispatched k) = tid_lock k" "yield_on_return (dispatched k) = yield_on_return k"
  by (simp_all add: dispatched_def)

lemma upcoming_live: "queued k \<Longrightarrow> upcoming k \<in> live k"
  by (auto simp: queued_def upcoming_def split: list.splits)

lemma wf_dispatched:
  assumes "descheduled k"
  shows "wf_kernel (dispatched k)"
proof -
  have q: "queued k" using assms by (simp add: descheduled_def)
  have "t \<in> set (tl (ready_list k)) \<longleftrightarrow> t \<in> set (ready_list k) \<and> t \<noteq> upcoming k" for t
    using q by (cases "ready_list k") (auto simp: queued_def upcoming_def)
  moreover have "distinct (tl (ready_list k))"
    using q by (simp add: queued_def distinct_tl)
  ultimately show ?thesis
    using assms upcoming_live [OF q] unfolding wf_kernel_def descheduled_def queued_def
    by (auto simp: intr_context_def is_thread_def)
qed

lemma schedule_dispatches:
  assumes "descheduled k" and "stat k (running k) \<noteq> THREAD_DYING \<or> running k = initial_thread k"
  shows "schedule k st = ret (dispatched k, st)"
proof -
  have n: "next_thread_to_run k = (upcoming k, k\<lparr>ready_list := tl (ready_list k)\<rparr>)"
    by (cases "ready_list k") (simp_all add: next_thread_to_run_def upcoming_def)
  have "is_thread k (upcoming k)"
    using assms(1) upcoming_live by (auto simp: descheduled_def queued_def)
  then have u: "is_thread (k\<lparr>ready_list := tl (ready_list k)\<rparr>) (upcoming k)" "upcoming k \<noteq> NULL"
    by (simp_all add: is_thread_def)
  show ?thesis
    using assms u unfolding schedule_def n running_thread_def descheduled_def
    by (auto simp: thread_schedule_tail_def running_thread_def intr_get_level_def Let_def dispatched_def set_status_def)
qed

section \<open>The pages of the threads\<close>

text \<open>
  The page of every live thread is a page of the kernel pool that is in use, the initial
  thread apart, whose page is not in the pool.
\<close>

definition pool_index :: "palloc \<Rightarrow> (bool \<Rightarrow> bool list) \<Rightarrow> addr \<Rightarrow> nat \<Rightarrow> bool" where
  "pool_index st B t i \<longleftrightarrow> i < length (B False) \<and> unat t = unat (base (kernel_pool st)) + 4096 * i"

definition pages_of :: "palloc \<Rightarrow> (bool \<Rightarrow> bool list) \<Rightarrow> addr \<Rightarrow> addr set \<Rightarrow> bool" where
  "pages_of st B t0 A \<longleftrightarrow> wf_palloc st B \<and> (\<forall>i. \<not> pool_index st B t0 i) \<and>
     (\<forall>t\<in>A. t \<noteq> t0 \<longrightarrow> (\<exists>i. pool_index st B t i \<and> B False ! i))"

definition wf_pages :: "kernel \<Rightarrow> palloc \<Rightarrow> bool" where
  "wf_pages k st \<longleftrightarrow> (\<exists>B. pages_of st B (initial_thread k) (live k))"

lemma wf_pages_cong:
  "all_list k' = all_list k \<Longrightarrow> initial_thread k' = initial_thread k \<Longrightarrow> wf_pages k' st = wf_pages k st"
  by (simp add: wf_pages_def)

lemma pages_of_free:
  assumes k: "runs k" and A: "pages_of st B t0 A" and t: "t \<in> A" "t \<noteq> t0"
  obtains st' B' where "palloc_free_page k st t = ret (k, st')" "pages_of st' B' t0 (A - {t})"
proof -
  obtain i where i: "pool_index st B t i" "B False ! i"
    using A t by (auto simp: pages_of_def)
  have wf: "wf_palloc st B" using A by (simp add: pages_of_def)
  have run: "run_at True (unat (1 :: u32)) (B False) i"
    using i by (simp add: run_at_def pool_index_def)
  have "get_pool False st = kernel_pool st" by (simp add: get_pool_def)
  then obtain st' where st': "palloc_free_page k st t = ret (k, st')"
    "wf_palloc st' (B(False := set_range i (unat (1 :: u32)) False (B False)))" "base (kernel_pool st') = base (kernel_pool st)"
    using palloc_free_multiple_in_pool [OF k wf, of i False 1 t] i run
    by (auto simp: pool_index_def palloc_free_page_def get_pool_def elim!: returnsE)
  let ?B = "B(False := set_range i (unat (1 :: u32)) False (B False))"
  have len: "length (?B False) = length (B False)"
    using run run_at_le [OF run] by (simp add: length_set_range)
  have idx: "pool_index st' ?B u j \<longleftrightarrow> pool_index st B u j" for u j
    using len st'(3) by (simp add: pool_index_def)
  have "\<exists>j. pool_index st' ?B u j \<and> ?B False ! j" if u: "u \<in> A - {t}" "u \<noteq> t0" for u
  proof -
    obtain j where j: "pool_index st B u j" "B False ! j" using A u by (auto simp: pages_of_def)
    then have "j \<noteq> i" using i(1) u by (auto simp: pool_index_def word_unat_eq_iff)
    moreover have "j < length (B False)" "i < length (B False)" using i j by (simp_all add: pool_index_def)
    ultimately have "?B False ! j" using j(2) by (simp add: nth_set_range)
    then show ?thesis using j(1) idx by blast
  qed
  then have "pages_of st' ?B t0 (A - {t})"
    using A st'(2) idx by (simp add: pages_of_def)
  then show thesis using that st'(1) by blast
qed

lemma pages_of_get:
  assumes k: "runs k" and A: "pages_of st B t0 A"
  obtains (none) "palloc_get_page k st PAL_ZERO = ret (NULL, k, st)"
  | (page) t st' B' where "palloc_get_page k st PAL_ZERO = ret (t, k, st')" "t \<noteq> NULL" "t \<notin> A" "t \<noteq> t0"
      "pages_of st' B' t0 (insert t A)"
proof -
  have wf: "wf_palloc st B" using A by (simp add: pages_of_def)
  have flags: "PAL_ZERO AND PAL_USER = 0" "PAL_ZERO AND PAL_ASSERT = 0"
    by (simp_all add: PAL_ZERO_def PAL_USER_def PAL_ASSERT_def)
  show thesis
  proof (rule palloc_get_multiple_cases [OF k wf, of 1 PAL_ZERO])
    show "(0 :: u32) < 1" by simp
  next
    assume "palloc_get_multiple k st PAL_ZERO 1 = (if PAL_ZERO AND PAL_ASSERT \<noteq> 0 then stop Kernel_panic else ret (NULL, k, st))"
    then show thesis using flags none by (simp add: palloc_get_page_def)
  next
    fix r p'
    assume "returns (palloc_get_multiple k st PAL_ZERO 1) (\<lambda>(pages, k', st'). pages \<noteq> NULL \<and> k' = k \<and>
         pages = base (get_pool (PAL_ZERO AND PAL_USER \<noteq> 0) st) + 4096 * r \<and> gets_pages st B PAL_ZERO 1 pages st' \<and>
         next_fit_start_idx (get_pool (PAL_ZERO AND PAL_USER \<noteq> 0) st') = next_fit_start_idx p')"
    then obtain t st' where t: "palloc_get_page k st PAL_ZERO = ret (t, k, st')" "t \<noteq> NULL" "gets_pages st B PAL_ZERO 1 t st'"
      by (auto simp: palloc_get_page_def elim!: returnsE)
    then obtain i where i: "run_at False (unat (1 :: u32)) (B False) i" "unat t = unat (base (kernel_pool st)) + 4096 * i"
      "wf_palloc st' (B(False := set_range i (unat (1 :: u32)) True (B False)))" "base (kernel_pool st') = base (kernel_pool st)"
      using flags by (auto simp: gets_pages_def Let_def get_pool_def)
    let ?B = "B(False := set_range i (unat (1 :: u32)) True (B False))"
    have lt: "i < length (B False)" "\<not> B False ! i" using i(1) by (auto simp: run_at_def)
    have len: "length (?B False) = length (B False)" using run_at_le [OF i(1)] by (simp add: length_set_range)
    have idx: "pool_index st' ?B u j \<longleftrightarrow> pool_index st B u j" for u j
      using len i(4) by (simp add: pool_index_def)
    have ti: "pool_index st B t i" using lt i by (simp add: pool_index_def)
    have "\<exists>j. pool_index st' ?B u j \<and> ?B False ! j" if u: "u \<in> insert t A" "u \<noteq> t0" for u
    proof (cases "u = t")
      case True
      then show ?thesis using ti idx lt by (auto simp: nth_set_range)
    next
      case False
      then obtain j where j: "pool_index st B u j" "B False ! j" using A u by (auto simp: pages_of_def)
      then have "?B False ! j" using lt by (auto simp: nth_set_range pool_index_def)
      then show ?thesis using j(1) idx by blast
    qed
    then have p: "pages_of st' ?B t0 (insert t A)"
      using A i(3) idx by (simp add: pages_of_def)
    have "t \<noteq> t0" using A ti by (auto simp: pages_of_def)
    moreover have "t \<notin> A"
    proof
      assume "t \<in> A"
      then obtain j where "pool_index st B t j" "B False ! j"
        using A \<open>t \<noteq> t0\<close> by (auto simp: pages_of_def)
      then show False using ti lt by (auto simp: pool_index_def)
    qed
    ultimately show thesis using page t p by blast
  qed
qed

section \<open>Blocking, yielding and waking\<close>

definition asleep :: "kernel \<Rightarrow> kernel" where
  "asleep k = dispatched (set_status (running k) THREAD_BLOCKED (k\<lparr>level := INTR_OFF\<rparr>))"

definition requeued :: "kernel \<Rightarrow> kernel" where
  "requeued k = set_status (running k) THREAD_READY (k\<lparr>level := INTR_OFF,
     ready_list := (if running k = idle_thread k then ready_list k else ready_list k @ [running k])\<rparr>)"

definition readied :: "addr \<Rightarrow> kernel \<Rightarrow> kernel" where
  "readied t k = set_status t THREAD_READY (k\<lparr>ready_list := ready_list k @ [t]\<rparr>)"

lemma running_not_ready: "wf_kernel k \<Longrightarrow> running k \<notin> set (ready_list k)"
  by (auto simp: wf_kernel_def queued_def)

lemma descheduled_blocked:
  "wf_kernel k \<Longrightarrow> descheduled (set_status (running k) THREAD_BLOCKED (k\<lparr>level := INTR_OFF\<rparr>))"
  by (auto simp: wf_kernel_def descheduled_def queued_def intr_context_def is_thread_def)

lemma descheduled_requeued: "wf_kernel k \<Longrightarrow> descheduled (requeued k)"
  using running_not_ready [of k]
  by (auto simp: requeued_def wf_kernel_def descheduled_def queued_def intr_context_def is_thread_def)

lemma wf_asleep: "wf_kernel k \<Longrightarrow> wf_kernel (asleep k)"
  by (simp add: asleep_def wf_dispatched descheduled_blocked)

lemma wf_yielded: "wf_kernel k \<Longrightarrow> wf_kernel (dispatched (requeued k))"
  by (simp add: wf_dispatched descheduled_requeued)

lemma schedule_blocked:
  "wf_kernel k \<Longrightarrow> schedule (set_status (running k) THREAD_BLOCKED (k\<lparr>level := INTR_OFF\<rparr>)) st = ret (asleep k, st)"
  by (simp add: schedule_dispatches descheduled_blocked asleep_def)

lemma thread_block_begin_blocked:
  "wf_kernel k \<Longrightarrow> thread_block_begin (k\<lparr>level := INTR_OFF\<rparr>) = ret (set_status (running k) THREAD_BLOCKED (k\<lparr>level := INTR_OFF\<rparr>))"
  using wf_kernel_runs [of k]
  by (simp add: thread_block_begin_def intr_get_level_def runs_def intr_context_def is_thread_def thread_current_def running_thread_def)

lemma thread_block_sleeps: "wf_kernel k \<Longrightarrow> thread_block (k\<lparr>level := INTR_OFF\<rparr>) st = ret (asleep k, st)"
  by (simp add: thread_block_def thread_block_begin_blocked schedule_blocked)

lemma thread_yield_dispatches:
  assumes "wf_kernel k"
  shows "thread_yield k st = ret (level k, dispatched (requeued k), st)"
proof -
  have c: "\<not> intr_context k" "thread_current k = ret (running k)"
    using wf_kernel_runs [OF assms] by (auto simp: runs_def)
  have "(let k = (if running k \<noteq> idle_thread k then k\<lparr>level := INTR_OFF, ready_list := ready_list k @ [running k]\<rparr> else k\<lparr>level := INTR_OFF\<rparr>)
      in set_status (running k) THREAD_READY k) = requeued k"
    by (simp add: requeued_def set_status_def Let_def)
  moreover have "schedule (requeued k) st = ret (dispatched (requeued k), st)"
    using descheduled_requeued [OF assms] by (rule schedule_dispatches) (simp add: requeued_def)
  ultimately show ?thesis
    using c by (simp add: thread_yield_def intr_disable_def intr_get_level_def Let_def cong: if_cong split: if_splits)
qed

lemma readied_simps [simp]:
  "thr (readied t k) u = (if u = t then (thr k t)\<lparr>status := THREAD_READY\<rparr> else thr k u)"
  "running (readied t k) = running k" "ready_list (readied t k) = ready_list k @ [t]"
  "all_list (readied t k) = all_list k" "idle_thread (readied t k) = idle_thread k"
  "initial_thread (readied t k) = initial_thread k" "level (readied t k) = level k"
  "thread_ticks (readied t k) = thread_ticks k" "(readied t k)\<lparr>level := l\<rparr> = readied t (k\<lparr>level := l\<rparr>)"
  "intr_context (readied t k) = intr_context k"
  by (simp_all add: readied_def set_status_def intr_context_def)

lemma wf_readied:
  "wf_kernel k \<Longrightarrow> t \<in> live k \<Longrightarrow> stat k t = THREAD_BLOCKED \<Longrightarrow> t \<noteq> idle_thread k \<Longrightarrow> wf_kernel (readied t k)"
  by (auto simp: wf_kernel_def queued_def readied_def intr_context_def is_thread_def)

lemma thread_unblock_readies:
  assumes "\<not> intr_context k" "is_thread k t" "stat k t = THREAD_BLOCKED"
  shows "thread_unblock k t = ret (readied t k)"
proof -
  have "intr_set_level (level k) (readied t (k\<lparr>level := INTR_OFF\<rparr>)) = ret (INTR_OFF, readied t k)"
    using restore_level [of "readied t k" INTR_OFF] assms(1) by simp
  then show ?thesis
    using assms by (simp add: thread_unblock_def intr_disable_def intr_get_level_def readied_def)
qed

lemma sema_up_wakes:
  assumes "\<not> intr_context k" "waiters s = t # ts" "is_thread k t" "stat k t = THREAD_BLOCKED"
  shows "sema_up k s = ret (readied t k, s\<lparr>sema_value := sema_value s + 1, waiters := ts\<rparr>)"
proof -
  have "thread_unblock (k\<lparr>level := INTR_OFF\<rparr>) t = ret (readied t (k\<lparr>level := INTR_OFF\<rparr>))"
    using assms by (intro thread_unblock_readies) (simp_all add: is_thread_def intr_context_def)
  moreover have "intr_set_level (level k) (readied t (k\<lparr>level := INTR_OFF\<rparr>)) = ret (INTR_OFF, readied t k)"
    using restore_level [of "readied t k" INTR_OFF] assms(1) by simp
  ultimately show ?thesis
    using assms(1, 2) by (simp add: sema_up_def intr_disable_def intr_get_level_def Let_def)
qed

lemma sema_down_pass_sleeps:
  assumes "wf_kernel k" "sema_value s = 0"
  shows "sema_down_pass (k\<lparr>level := INTR_OFF\<rparr>) s =
    ret (Asleep (set_status (running k) THREAD_BLOCKED (k\<lparr>level := INTR_OFF\<rparr>), s\<lparr>waiters := waiters s @ [running k]\<rparr>))"
  using assms wf_kernel_runs [OF assms(1)]
  by (simp add: sema_down_pass_def thread_block_begin_blocked)

lemma sema_down_sleeps:
  assumes "wf_kernel k" "sema_value s = 0"
  shows "sema_down k s =
    ret (Asleep (set_status (running k) THREAD_BLOCKED (k\<lparr>level := INTR_OFF\<rparr>), s\<lparr>waiters := waiters s @ [running k]\<rparr>))"
  using assms wf_kernel_runs [OF assms(1)]
  by (simp add: sema_down_def sema_down_pass_sleeps intr_disable_def intr_get_level_def runs_def)

section \<open>Exit\<close>

definition buried :: "addr \<Rightarrow> kernel \<Rightarrow> kernel" where
  "buried t k = k\<lparr>thr := (thr k)(t := (thr k t)\<lparr>magic := 0xcccccccc\<rparr>)\<rparr>"

lemma buried_simps [simp]:
  "status (thr (buried t k) u) = stat k u" "running (buried t k) = running k" "ready_list (buried t k) = ready_list k"
  "all_list (buried t k) = all_list k" "idle_thread (buried t k) = idle_thread k"
  "initial_thread (buried t k) = initial_thread k" "level (buried t k) = level k" "thread_ticks (buried t k) = thread_ticks k"
  by (simp_all add: buried_def)

lemma wf_buried: "wf_kernel k \<Longrightarrow> t \<notin> live k \<Longrightarrow> wf_kernel (buried t k)"
  by (auto simp: wf_kernel_def queued_def buried_def intr_context_def is_thread_def)

lemma schedule_buries:
  assumes k: "descheduled k" and t: "stat k (running k) = THREAD_DYING" "running k \<noteq> initial_thread k"
    "running k \<notin> live k" "running k \<noteq> NULL"
    and p: "pages_of st B (initial_thread k) (insert (running k) (live k))"
  obtains st' B' where "schedule k st = ret (buried (running k) (dispatched k), st')"
    "pages_of st' B' (initial_thread k) (live k)"
proof -
  let ?t = "running k"
  have u: "upcoming k \<in> live k" using k upcoming_live by (simp add: descheduled_def)
  then have ne: "?t \<noteq> upcoming k" using t(3) by auto
  have th: "is_thread k (upcoming k)" using k u by (auto simp: descheduled_def queued_def)
  have n: "next_thread_to_run k = (upcoming k, k\<lparr>ready_list := tl (ready_list k)\<rparr>)"
    by (cases "ready_list k") (simp_all add: next_thread_to_run_def upcoming_def)
  have r: "runs (dispatched k)" using wf_dispatched [OF k] by (rule wf_kernel_runs)
  obtain st' B' where f: "palloc_free_page (dispatched k) st ?t = ret (dispatched k, st')"
    "pages_of st' B' (initial_thread k) (insert ?t (live k) - {?t})"
    using pages_of_free [OF r p _ t(2)] by auto
  have "schedule k st = thread_schedule_tail (k\<lparr>ready_list := tl (ready_list k), running := upcoming k\<rparr>) st ?t"
    using k th ne unfolding schedule_def n running_thread_def descheduled_def
    by (simp add: is_thread_def intr_get_level_def Let_def)
  also have "\<dots> = andthen (palloc_free_page (dispatched k) st ?t) (\<lambda>(k, st). ret (buried ?t k, st))"
    using k t ne unfolding thread_schedule_tail_def running_thread_def dispatched_def [symmetric] Let_def buried_def
    by (simp add: intr_get_level_def descheduled_def dispatched_def)
  finally show thesis using f t(3) that by simp
qed

lemma thread_exit_exits:
  assumes k: "wf_kernel k" and p: "wf_pages k st" and i: "running k \<noteq> idle_thread k"
  obtains k' st' where "thread_exit k st = ret (k', st')" "wf_kernel k'" "wf_pages k' st'"
    "all_list k' = remove1 (running k) (all_list k)" "running k' = upcoming k" "ready_list k' = tl (ready_list k)"
    "idle_thread k' = idle_thread k" "initial_thread k' = initial_thread k" "level k' = INTR_OFF" "thread_ticks k' = 0"
    "\<And>t. stat k' t = (if t = upcoming k then THREAD_RUNNING else if t = running k then THREAD_DYING else stat k t)"
proof -
  define d where "d = set_status (running k) THREAD_DYING (k\<lparr>level := INTR_OFF, all_list := remove1 (running k) (all_list k)\<rparr>)"
  have r: "runs k" using k by (rule wf_kernel_runs)
  have dist: "distinct (all_list k)" using k by (simp add: wf_kernel_def queued_def)
  have lv: "live d = live k - {running k}" using dist by (simp add: d_def)
  have d: "descheduled d"
    using k i dist by (auto simp: d_def wf_kernel_def descheduled_def queued_def intr_context_def is_thread_def)
  have up: "upcoming d = upcoming k" by (simp add: d_def upcoming_def split: list.split)
  have ds: "stat d t = (if t = running k then THREAD_DYING else stat k t)" for t by (simp add: d_def)
  have e: "thread_exit k st = schedule d st"
    using r by (simp add: thread_exit_def d_def intr_disable_def runs_def intr_context_def thread_current_def running_thread_def is_thread_def)
  show thesis
  proof (cases "running k = initial_thread k")
    case True
    then have "thread_exit k st = ret (dispatched d, st)"
      using e schedule_dispatches [OF d] by (simp add: d_def)
    moreover have "wf_pages (dispatched d) st"
      using p lv by (auto simp: wf_pages_def pages_of_def d_def)
    ultimately show thesis
      using that [of "dispatched d" st] wf_dispatched [OF d] up ds by (simp add: d_def)
  next
    case False
    obtain B where B: "pages_of st B (initial_thread k) (live k)" using p by (auto simp: wf_pages_def)
    have "running k \<in> live k" "running k \<noteq> NULL" using k r running_not_NULL by (auto simp: wf_kernel_def)
    moreover have "insert (running d) (live d) = live k" using lv calculation by (auto simp: d_def)
    ultimately obtain st' B' where s: "schedule d st = ret (buried (running d) (dispatched d), st')"
      "pages_of st' B' (initial_thread d) (live d)"
      using schedule_buries [OF d, of st B] False B lv by (auto simp: d_def)
    have "wf_kernel (buried (running d) (dispatched d))"
      using wf_dispatched [OF d] lv by (intro wf_buried) (simp_all add: d_def)
    moreover have "wf_pages (buried (running d) (dispatched d)) st'"
      using s(2) by (auto simp: wf_pages_def)
    ultimately show thesis
      using that [of "buried (running d) (dispatched d)" st'] e s up ds by (simp add: d_def)
  qed
qed

section \<open>Creation\<close>

lemma allocate_tid_next:
  assumes "runs k" "tid_lock k = lock_init"
  shows "allocate_tid k = ret (next_tid k, k\<lparr>next_tid := next_tid k + 1\<rparr>)"
proof -
  have "runs (k\<lparr>next_tid := next_tid k + 1\<rparr>)"
    using assms(1) by (simp add: runs_def intr_context_def is_thread_def)
  from lock_release_held [OF this]
  have "lock_release (k\<lparr>next_tid := next_tid k + 1\<rparr>) (lock_held (running k)) = ret (k\<lparr>next_tid := next_tid k + 1\<rparr>, lock_init)"
    by simp
  then show ?thesis
    using assms by (simp add: allocate_tid_def lock_acquire_free)
qed

definition created :: "addr \<Rightarrow> string \<Rightarrow> int \<Rightarrow> kernel \<Rightarrow> kernel" where
  "created t nm pri k = k\<lparr>thr := (thr k)(t := \<lparr>tid = next_tid k, status = THREAD_READY, name = take 15 nm,
       stack = t + 4052, priority = pri, magic = THREAD_MAGIC\<rparr>),
     all_list := all_list k @ [t], ready_list := ready_list k @ [t], next_tid := next_tid k + 1\<rparr>"

text \<open>The stack of a new thread: frames of \<^verbatim>\<open>switch_threads\<close>, \<^verbatim>\<open>switch_entry\<close> and \<^verbatim>\<open>kernel_thread\<close>.\<close>

definition first_frames :: "addr \<Rightarrow> addr \<Rightarrow> addr \<Rightarrow> addr \<Rightarrow> addr \<Rightarrow> mem \<Rightarrow> mem" where
  "first_frames kernel_thread switch_entry t function aux m =
     (let m = store_word (store_word (store_word m (t + 4084) NULL) (t + 4088) function) (t + 4092) aux;
          m = store_word m (t + 4080) kernel_thread
      in store_word (store_word m (t + 4068) switch_entry) (t + 4060) 0)"

lemma alloc_frame_pushes:
  "is_thread k t \<Longrightarrow> sz mod 4 = 0 \<Longrightarrow> alloc_frame k t sz =
     ret (stack (thr k t) - sz, k\<lparr>thr := (thr k)(t := (thr k t)\<lparr>stack := stack (thr k t) - sz\<rparr>)\<rparr>)"
  by (simp add: alloc_frame_def Let_def)

lemma thread_create_creates:
  assumes k: "wf_kernel k" and get: "palloc_get_page k st PAL_ZERO = ret (t, k, st')" and t: "t \<noteq> NULL" "t \<notin> live k"
    and c: "nm \<noteq> None" "PRI_MIN \<le> pri" "pri \<le> PRI_MAX" "function \<noteq> NULL"
  shows "thread_create kernel_thread switch_entry k st nm pri function aux =
    ret (next_tid k, created t (the nm) pri k,
      st'\<lparr>memory := first_frames kernel_thread switch_entry t function aux (memory st')\<rparr>)"
proof -
  define nt where "nt i = \<lparr>tid = i, status = THREAD_BLOCKED, name = take 15 (the nm), stack = t + 4096,
      priority = pri, magic = THREAD_MAGIC\<rparr>" for i :: u32
  define k1 where "k1 = k\<lparr>thr := (thr k)(t := nt 0), all_list := all_list k @ [t]\<rparr>"
  have r: "runs k" "running k \<noteq> t" "tid_lock k = lock_init"
    using k t(2) wf_kernel_runs by (auto simp: wf_kernel_def queued_def)
  have "runs k1" "tid_lock k1 = lock_init" "\<not> intr_context k1" "next_tid k1 = next_tid k"
    using r by (simp_all add: k1_def runs_def intr_context_def is_thread_def)
  then have tid: "allocate_tid k1 = ret (next_tid k, k1\<lparr>next_tid := next_tid k + 1\<rparr>)"
    using allocate_tid_next [of k1] by simp
  have ini: "init_thread k t nm pri = ret k1"
    using t c by (simp add: init_thread_def k1_def nt_def)
  define k2 where "k2 = set_tid t (next_tid k) (k1\<lparr>next_tid := next_tid k + 1\<rparr>)"
  define k5 where "k5 = k2\<lparr>thr := (thr k2)(t := (thr k2 t)\<lparr>stack := t + 4052\<rparr>)\<rparr>"
  have k2: "thr k2 t = nt (next_tid k)" by (simp add: k2_def k1_def set_tid_def nt_def)
  have 1: "alloc_frame (k2\<lparr>level := l\<rparr>) t 12 = ret (t + 4084, (k2\<lparr>level := l\<rparr>)\<lparr>thr := (thr k2)(t := (thr k2 t)\<lparr>stack := t + 4084\<rparr>)\<rparr>)" for l
    using t(1) k2 by (simp add: alloc_frame_pushes is_thread_def nt_def add.commute [of t])
  have 2: "alloc_frame ((k2\<lparr>level := l\<rparr>)\<lparr>thr := (thr k2)(t := (thr k2 t)\<lparr>stack := t + 4084\<rparr>)\<rparr>) t 4
      = ret (t + 4080, (k2\<lparr>level := l\<rparr>)\<lparr>thr := (thr k2)(t := (thr k2 t)\<lparr>stack := t + 4080\<rparr>)\<rparr>)" for l
    using t(1) k2 by (simp add: alloc_frame_pushes is_thread_def nt_def add.commute [of t])
  have 3: "alloc_frame ((k2\<lparr>level := l\<rparr>)\<lparr>thr := (thr k2)(t := (thr k2 t)\<lparr>stack := t + 4080\<rparr>)\<rparr>) t 28
      = ret (t + 4052, k5\<lparr>level := l\<rparr>)" for l
    using t(1) k2 by (simp add: alloc_frame_pushes is_thread_def nt_def k5_def add.commute [of t])
  have lv: "level k2 = level k5" "\<not> intr_context k5"
    using r(1) by (simp_all add: k5_def k2_def k1_def set_tid_def runs_def intr_context_def)
  have 4: "intr_set_level (level k2) (k5\<lparr>level := INTR_OFF\<rparr>) = ret (INTR_OFF, k5)"
    using restore_level [of k5] lv by simp
  have 5: "thread_unblock k5 t = ret (readied t k5)"
    using lv t(1) k2 by (intro thread_unblock_readies) (simp_all add: is_thread_def k5_def nt_def)
  have fin: "readied t k5 = created t (the nm) pri k"
    by (simp add: readied_def k5_def created_def k2_def k1_def set_tid_def set_status_def nt_def)
  show ?thesis
    using c(4) t(1) unfolding thread_create_def get
    by (simp add: ini tid k2_def [symmetric] intr_disable_def intr_get_level_def 1 2 3 4 5 fin Let_def first_frames_def)
      (simp add: add.commute)
qed

lemma created_simps [simp]:
  "stat (created t nm pri k) u = (if u = t then THREAD_READY else stat k u)"
  "running (created t nm pri k) = running k" "ready_list (created t nm pri k) = ready_list k @ [t]"
  "all_list (created t nm pri k) = all_list k @ [t]" "idle_thread (created t nm pri k) = idle_thread k"
  "initial_thread (created t nm pri k) = initial_thread k" "level (created t nm pri k) = level k"
  "thread_ticks (created t nm pri k) = thread_ticks k"
  by (simp_all add: created_def)

lemma wf_created: "wf_kernel k \<Longrightarrow> t \<noteq> NULL \<Longrightarrow> t \<notin> live k \<Longrightarrow> wf_kernel (created t nm pri k)"
  by (auto simp: wf_kernel_def queued_def created_def intr_context_def is_thread_def)

lemma pages_of_memory [simp]: "pages_of (st\<lparr>memory := m\<rparr>) B t0 A = pages_of st B t0 A"
  by (simp add: pages_of_def pool_index_def)

lemma thread_create_cases:
  assumes k: "wf_kernel k" and p: "wf_pages k st"
    and c: "nm \<noteq> None" "PRI_MIN \<le> pri" "pri \<le> PRI_MAX" "function \<noteq> NULL"
  obtains (none) "thread_create kt se k st nm pri function aux = ret (TID_ERROR, k, st)"
  | (page) t st' where "thread_create kt se k st nm pri function aux = ret (next_tid k, created t (the nm) pri k, st')"
      "t \<noteq> NULL" "t \<notin> live k" "wf_pages (created t (the nm) pri k) st'"
proof -
  obtain B where B: "pages_of st B (initial_thread k) (live k)" using p by (auto simp: wf_pages_def)
  show thesis
  proof (rule pages_of_get [OF wf_kernel_runs [OF k] B])
    assume "palloc_get_page k st PAL_ZERO = ret (NULL, k, st)"
    then show thesis using none c(4) by (simp add: thread_create_def)
  next
    fix t st' B'
    assume t: "palloc_get_page k st PAL_ZERO = ret (t, k, st')" "t \<noteq> NULL" "t \<notin> live k"
      and B': "pages_of st' B' (initial_thread k) (insert t (live k))"
    have "wf_pages (created t (the nm) pri k) (st'\<lparr>memory := m\<rparr>)" for m
      using B' by (auto simp: wf_pages_def)
    then show thesis using page thread_create_creates [OF k t c] t by blast
  qed
qed

section \<open>Timer ticks\<close>

text \<open>
  In the handler of the timer a tick is counted; when the time slice is used up the handler
  asks for a switch of threads.
\<close>

definition ticked :: "kernel \<Rightarrow> kernel" where
  "ticked k = (if running k = idle_thread k then k\<lparr>idle_ticks := idle_ticks k + 1, thread_ticks := thread_ticks k + 1\<rparr>
     else k\<lparr>kernel_ticks := kernel_ticks k + 1, thread_ticks := thread_ticks k + 1\<rparr>)"

lemma ticked_simps [simp]:
  "thr (ticked k) = thr k" "running (ticked k) = running k" "ready_list (ticked k) = ready_list k"
  "all_list (ticked k) = all_list k" "idle_thread (ticked k) = idle_thread k"
  "initial_thread (ticked k) = initial_thread k" "level (ticked k) = level k"
  "in_external_intr (ticked k) = in_external_intr k" "thread_ticks (ticked k) = thread_ticks k + 1"
  "tid_lock (ticked k) = tid_lock k" "yield_on_return (ticked k) = yield_on_return k"
  by (simp_all add: ticked_def)

lemma thread_tick_ticks:
  assumes "is_thread k (running k)" "stat k (running k) = THREAD_RUNNING" "intr_context k"
  shows "thread_tick k = ret (if TIME_SLICE \<le> thread_ticks k + 1 then (ticked k)\<lparr>yield_on_return := True\<rparr> else ticked k)"
  using assms
  by (simp add: thread_tick_def thread_current_def running_thread_def ticked_def intr_yield_on_return_def intr_context_def Let_def)

end
