(* ===== verification/Interrupt.thy ===== *)
theory Interrupt
  imports Thread
begin

unbundle bit_operations_syntax

section \<open>Interrupt handling (\<^verbatim>\<open>threads/interrupt.c\<close>)\<close>

text \<open>
  The descriptor table, the registration of handlers, the interrupt controllers and the common
  handler. The state \<open>'d\<close> is that of the devices whose handlers are registered. Writes to
  ports are logged in the order they are made, and so are the vectors of the messages that
  \<^verbatim>\<open>unexpected_interrupt\<close> prints. \<open>intr_stubs\<close>, the array of entry points in \<^verbatim>\<open>intr-stubs.S\<close>, is
  an argument.
\<close>

type_synonym 'd handler = "kernel \<Rightarrow> 'd \<Rightarrow> (kernel \<times> 'd) res"

record 'd intr =
  idt :: "u8 \<Rightarrow> u64"
  intr_handlers :: "u8 \<Rightarrow> 'd handler option"
  intr_names :: "u8 \<Rightarrow> string"
  unexpected_cnt :: "u8 \<Rightarrow> u32"
  port_log :: "(16 word \<times> u8) list"
  message_log :: "u8 list"

definition outb :: "16 word \<Rightarrow> u8 \<Rightarrow> 'd intr \<Rightarrow> 'd intr" where
  "outb port data is = is\<lparr>port_log := port_log is @ [(port, data)]\<rparr>"

definition PIC0_CTRL :: "16 word" where "PIC0_CTRL = 0x20"
definition PIC0_DATA :: "16 word" where "PIC0_DATA = 0x21"
definition PIC1_CTRL :: "16 word" where "PIC1_CTRL = 0xa0"
definition PIC1_DATA :: "16 word" where "PIC1_DATA = 0xa1"
definition SEL_KCSEG :: u32 where "SEL_KCSEG = 0x08"

definition make_gate :: "addr \<Rightarrow> u32 \<Rightarrow> u32 \<Rightarrow> u64 res" where
  "make_gate function dpl type =
     ASSERT (function \<noteq> NULL) (ASSERT (0 \<le> sint dpl \<and> sint dpl \<le> 3) (ASSERT (0 \<le> sint type \<and> sint type \<le> 15)
       (let e0 = (function AND 0xffff) OR push_bit 16 SEL_KCSEG;
            e1 = (function AND 0xffff0000) OR push_bit 15 1 OR push_bit 13 dpl OR push_bit 12 0 OR push_bit 8 type
        in ret (ucast e0 OR push_bit 32 (ucast e1)))))"

definition make_intr_gate :: "addr \<Rightarrow> u32 \<Rightarrow> u64 res" where
  "make_intr_gate function dpl = make_gate function dpl 14"

definition make_trap_gate :: "addr \<Rightarrow> u32 \<Rightarrow> u64 res" where
  "make_trap_gate function dpl = make_gate function dpl 15"

definition make_idtr_operand :: "16 word \<Rightarrow> addr \<Rightarrow> u64" where
  "make_idtr_operand limit b = ucast limit OR push_bit 16 (ucast b)"

definition pic_init :: "'d intr \<Rightarrow> 'd intr" where
  "pic_init is =
     (let is = outb PIC0_DATA 0xff is; is = outb PIC1_DATA 0xff is;
          is = outb PIC0_CTRL 0x11 is; is = outb PIC0_DATA 0x20 is;
          is = outb PIC0_DATA 0x04 is; is = outb PIC0_DATA 0x01 is;
          is = outb PIC1_CTRL 0x11 is; is = outb PIC1_DATA 0x28 is;
          is = outb PIC1_DATA 0x02 is; is = outb PIC1_DATA 0x01 is;
          is = outb PIC0_DATA 0x00 is
      in outb PIC1_DATA 0x00 is)"

definition pic_end_of_interrupt :: "u8 \<Rightarrow> 'd intr \<Rightarrow> 'd intr res" where
  "pic_end_of_interrupt irq is = ASSERT (0x20 \<le> irq \<and> irq < 0x30)
     (let is = outb 0x20 0x20 is in ret (if 0x28 \<le> irq then outb 0xa0 0x20 is else is))"

definition trap_names :: "u8 \<Rightarrow> string" where
  "trap_names = ((\<lambda>_. ''unknown'')
     (0 := ''#DE Divide Error'', 1 := ''#DB Debug Exception'', 2 := ''NMI Interrupt'',
      3 := ''#BP Breakpoint Exception'', 4 := ''#OF Overflow Exception'',
      5 := ''#BR BOUND Range Exceeded Exception'', 6 := ''#UD Invalid Opcode Exception'',
      7 := ''#NM Device Not Available Exception'', 8 := ''#DF Double Fault Exception'',
      9 := ''Coprocessor Segment Overrun'', 10 := ''#TS Invalid TSS Exception'',
      11 := ''#NP Segment Not Present'', 12 := ''#SS Stack Fault Exception'',
      13 := ''#GP General Protection Exception'', 14 := ''#PF Page-Fault Exception'',
      16 := ''#MF x87 FPU Floating-Point Error'', 17 := ''#AC Alignment Check Exception'',
      18 := ''#MC Machine-Check Exception'', 19 := ''#XF SIMD Floating-Point Exception''))"

text \<open>Loading the descriptor table register is the value of \<^verbatim>\<open>idtr_operand\<close>, the second result.\<close>

definition intr_init :: "(u8 \<Rightarrow> addr) \<Rightarrow> addr \<Rightarrow> 'd intr \<Rightarrow> ('d intr \<times> u64) res" where
  "intr_init intr_stubs idt_addr is =
     andthen (for_range 0 256 (\<lambda>i is.
         andthen (make_intr_gate (intr_stubs (ucast i)) 0) (\<lambda>g. ret (is\<lparr>idt := (idt is)(ucast i := g)\<rparr>)))
       (pic_init is)) (\<lambda>is.
     let idtr_operand = make_idtr_operand (2048 - 1) idt_addr
     in ret (is\<lparr>intr_names := trap_names\<rparr>, idtr_operand))"

definition register_handler :: "(u8 \<Rightarrow> addr) \<Rightarrow> u8 \<Rightarrow> u32 \<Rightarrow> intr_level \<Rightarrow> 'd handler \<Rightarrow> string \<Rightarrow> 'd intr \<Rightarrow> 'd intr res" where
  "register_handler intr_stubs vec_no dpl lev h nm is =
     ASSERT (intr_handlers is vec_no = None)
       (andthen (if lev = INTR_ON then make_trap_gate (intr_stubs vec_no) dpl
                 else make_intr_gate (intr_stubs vec_no) dpl) (\<lambda>g.
        ret (is\<lparr>idt := (idt is)(vec_no := g), intr_handlers := (intr_handlers is)(vec_no := Some h),
                intr_names := (intr_names is)(vec_no := nm)\<rparr>)))"

definition intr_register_ext :: "(u8 \<Rightarrow> addr) \<Rightarrow> u8 \<Rightarrow> 'd handler \<Rightarrow> string \<Rightarrow> 'd intr \<Rightarrow> 'd intr res" where
  "intr_register_ext intr_stubs vec_no h nm is = ASSERT (0x20 \<le> vec_no \<and> vec_no \<le> 0x2f)
     (register_handler intr_stubs vec_no 0 INTR_OFF h nm is)"

definition intr_register_int :: "(u8 \<Rightarrow> addr) \<Rightarrow> u8 \<Rightarrow> u32 \<Rightarrow> intr_level \<Rightarrow> 'd handler \<Rightarrow> string \<Rightarrow> 'd intr \<Rightarrow> 'd intr res" where
  "intr_register_int intr_stubs vec_no dpl lev h nm is = ASSERT (vec_no < 0x20 \<or> 0x2f < vec_no)
     (register_handler intr_stubs vec_no dpl lev h nm is)"

definition intr_name :: "'d intr \<Rightarrow> u8 \<Rightarrow> string" where
  "intr_name is vec = intr_names is vec"

definition unexpected_interrupt :: "u8 \<Rightarrow> 'd intr \<Rightarrow> 'd intr" where
  "unexpected_interrupt vec_no is =
     (let n = unexpected_cnt is vec_no + 1; is = is\<lparr>unexpected_cnt := (unexpected_cnt is)(vec_no := n)\<rparr>
      in if n AND (n - 1) = 0 then is\<lparr>message_log := message_log is @ [vec_no]\<rparr> else is)"

text \<open>
  The common handler. If it yields, the first result is the interrupt level that the suspended
  thread will restore on its return.
\<close>

definition intr_handler :: "u8 \<Rightarrow> 'd intr \<Rightarrow> kernel \<Rightarrow> palloc \<Rightarrow> 'd \<Rightarrow> (intr_level option \<times> 'd intr \<times> kernel \<times> palloc \<times> 'd) res" where
  "intr_handler vec_no is k st d =
     (let external = (0x20 \<le> vec_no \<and> vec_no < 0x30) in
      andthen (if external then
          ASSERT (intr_get_level k = INTR_OFF) (ASSERT (\<not> intr_context k)
            (ret (k\<lparr>in_external_intr := True, yield_on_return := False\<rparr>)))
        else ret k) (\<lambda>k.
      andthen (case intr_handlers is vec_no of
          Some h \<Rightarrow> andthen (h k d) (\<lambda>(k, d). ret (is, k, d))
        | None \<Rightarrow> if vec_no = 0x27 \<or> vec_no = 0x2f then ret (is, k, d)
            else ret (unexpected_interrupt vec_no is, k, d)) (\<lambda>(is, k, d).
      if external then
        ASSERT (intr_get_level k = INTR_OFF) (ASSERT (intr_context k)
          (let k = k\<lparr>in_external_intr := False\<rparr> in
           andthen (pic_end_of_interrupt vec_no is) (\<lambda>is.
             if yield_on_return k then andthen (thread_yield k st) (\<lambda>(l, k, st). ret (Some l, is, k, st, d))
             else ret (None, is, k, st, d))))
      else ret (None, is, k, st, d))))"

section \<open>The timer (\<^verbatim>\<open>devices/timer.c\<close>, \<^verbatim>\<open>devices/pit.c\<close>)\<close>

record timer =
  ticks :: u64
  loops_per_tick :: u32

definition TIMER_FREQ :: int where "TIMER_FREQ = 100"
definition PIT_HZ :: int where "PIT_HZ = 1193180"

definition timer_interrupt :: "timer handler" where
  "timer_interrupt k d = (let d = d\<lparr>ticks := ticks d + 1\<rparr> in andthen (thread_tick k) (\<lambda>k. ret (k, d)))"

definition pit_count :: "int \<Rightarrow> 16 word" where
  "pit_count frequency =
     (if frequency < 19 then 0
      else if PIT_HZ < frequency then 2
      else of_int ((PIT_HZ + frequency div 2) div frequency))"

definition pit_configure_channel :: "u32 \<Rightarrow> u32 \<Rightarrow> int \<Rightarrow> kernel \<Rightarrow> 'd intr \<Rightarrow> (kernel \<times> 'd intr) res" where
  "pit_configure_channel channel mode frequency k is =
     ASSERT (channel = 0 \<or> channel = 2) (ASSERT (mode = 2 \<or> mode = 3)
       (let count = pit_count frequency in
        andthen (intr_disable k) (\<lambda>(old_level, k).
        let is = outb 0x43 (ucast (push_bit 6 channel OR 0x30 OR push_bit 1 mode)) is;
            is = outb (ucast (0x40 + channel)) (ucast count) is;
            is = outb (ucast (0x40 + channel)) (ucast (drop_bit 8 count)) is
        in andthen (intr_set_level old_level k) (\<lambda>(_, k). ret (k, is)))))"

definition timer_init :: "(u8 \<Rightarrow> addr) \<Rightarrow> kernel \<Rightarrow> timer intr \<Rightarrow> (kernel \<times> timer intr) res" where
  "timer_init intr_stubs k is =
     andthen (pit_configure_channel 0 2 TIMER_FREQ k is) (\<lambda>(k, is).
     andthen (intr_register_ext intr_stubs 0x20 timer_interrupt ''8254 Timer'' is) (\<lambda>is. ret (k, is)))"

definition timer_ticks :: "kernel \<Rightarrow> timer \<Rightarrow> (u64 \<times> kernel) res" where
  "timer_ticks k d =
     andthen (intr_disable k) (\<lambda>(old_level, k). let t = ticks d in
     andthen (intr_set_level old_level k) (\<lambda>(_, k). ret (t, k)))"

definition timer_elapsed :: "kernel \<Rightarrow> timer \<Rightarrow> u64 \<Rightarrow> (u64 \<times> kernel) res" where
  "timer_elapsed k d thn = andthen (timer_ticks k d) (\<lambda>(t, k). ret (t - thn, k))"

end
