(* ===== verification/Interrupt_Inv.thy ===== *)
theory Interrupt_Inv
  imports Interrupt Thread_Inv
begin

section \<open>Timer interrupts\<close>

text \<open>
  What the common handler does for a timer interrupt: it counts the tick, acknowledges the
  interrupt and, when the time slice is used up, switches threads. \<open>interrupted\<close> is the kernel
  after the handler of the timer, when \<^verbatim>\<open>intr_handler\<close> decides whether to yield.
\<close>

definition interrupted :: "bool \<Rightarrow> kernel \<Rightarrow> kernel" where
  "interrupted y k = (ticked k)\<lparr>level := INTR_OFF, in_external_intr := False, yield_on_return := y\<rparr>"

lemma timer_interrupt_handled:
  assumes k: "wf_kernel k" and h: "intr_handlers is 0x20 = Some timer_interrupt"
  shows "intr_handler 0x20 is (k\<lparr>level := INTR_OFF\<rparr>) st d =
    (let is' = outb 0x20 0x20 is; d' = d\<lparr>ticks := ticks d + 1\<rparr> in
     if TIME_SLICE \<le> thread_ticks k + 1 then ret (Some INTR_OFF, is', dispatched (requeued (interrupted True k)), st, d')
     else ret (None, is', interrupted False k, st, d'))"
proof -
  let ?k = "k\<lparr>level := INTR_OFF, in_external_intr := True, yield_on_return := False\<rparr>"
  have r: "is_thread k (running k)" "stat k (running k) = THREAD_RUNNING" "\<not> in_external_intr k"
    using wf_kernel_runs [OF k] by (simp_all add: runs_def intr_context_def)
  have t: "thread_tick ?k = ret (if TIME_SLICE \<le> thread_ticks k + 1 then (ticked ?k)\<lparr>yield_on_return := True\<rparr> else ticked ?k)"
    using thread_tick_ticks [of ?k] r by (simp add: is_thread_def intr_context_def)
  have wf: "wf_kernel (interrupted True k)"
    using k by (simp add: interrupted_def wf_kernel_def queued_def is_thread_def intr_context_def)
  have y: "thread_yield (interrupted True k) st = ret (INTR_OFF, dispatched (requeued (interrupted True k)), st)"
    using thread_yield_dispatches [OF wf] by (simp add: interrupted_def)
  have s: "((ticked ?k)\<lparr>yield_on_return := True\<rparr>)\<lparr>in_external_intr := False\<rparr> = interrupted True k"
    "(ticked ?k)\<lparr>in_external_intr := False\<rparr> = interrupted False k"
    by (simp_all add: interrupted_def ticked_def)
  have u: "yield_on_return (interrupted b k) = b" for b by (simp add: interrupted_def)
  show ?thesis
    using r h unfolding intr_handler_def Let_def
    by (simp add: intr_get_level_def intr_context_def timer_interrupt_def t s y u pic_end_of_interrupt_def Let_def)
qed

end
