(* ===== verification/Gates.thy ===== *)
theory Gates
  imports Interrupt
begin

section \<open>Gates as the processor reads them\<close>

text \<open>
  The fields of a gate descriptor at the bit positions that the processor prescribes, and the
  registration of handlers.
\<close>

definition gate_offset :: "u64 \<Rightarrow> addr" where
  "gate_offset g = take_bit 16 (ucast g) OR push_bit 16 (ucast (drop_bit 48 g))"

definition gate_selector :: "u64 \<Rightarrow> u32" where
  "gate_selector g = take_bit 16 (ucast (drop_bit 16 g))"

definition gate_type :: "u64 \<Rightarrow> u32" where
  "gate_type g = take_bit 5 (ucast (drop_bit 40 g))"

definition gate_dpl :: "u64 \<Rightarrow> u32" where
  "gate_dpl g = take_bit 2 (ucast (drop_bit 45 g))"

definition gate_present :: "u64 \<Rightarrow> bool" where
  "gate_present g = bit g 47"

lemma small_bits: "unat (x :: u32) < 2 ^ n \<Longrightarrow> n \<le> m \<Longrightarrow> \<not> bit x m"
proof -
  assume "unat x < 2 ^ n" "n \<le> m"
  then have "unat x < 2 ^ m" by (meson less_le_trans one_le_numeral power_increasing)
  then have "\<not> bit (unat x) m" by (simp add: bit_iff_odd)
  then show ?thesis by (simp add: bit_unsigned_iff)
qed

definition e0 :: "addr \<Rightarrow> u32" where
  "e0 function = (function AND 0xffff) OR push_bit 16 SEL_KCSEG"

definition e1 :: "addr \<Rightarrow> u32 \<Rightarrow> u32 \<Rightarrow> u32" where
  "e1 function dpl type = (function AND 0xffff0000) OR push_bit 15 1 OR push_bit 13 dpl OR push_bit 12 0 OR push_bit 8 type"

lemma bit_masks:
  "bit (0xffff :: u32) n \<longleftrightarrow> n < 16" "bit (0xffff0000 :: u32) n \<longleftrightarrow> 16 \<le> n \<and> n < 32" "bit SEL_KCSEG n \<longleftrightarrow> n = 3"
proof -
  have 1: "(0xffff :: u32) = mask 16" "(0xffff0000 :: u32) = push_bit 16 (mask 16)" "SEL_KCSEG = push_bit 3 1"
    by (simp_all add: mask_eq_exp_minus_1 SEL_KCSEG_def)
  show "bit (0xffff :: u32) n \<longleftrightarrow> n < 16" unfolding 1(1) by (auto simp: bit_mask_iff)
  show "bit (0xffff0000 :: u32) n \<longleftrightarrow> 16 \<le> n \<and> n < 32" unfolding 1(2) by (auto simp: bit_push_bit_iff bit_mask_iff)
  show "bit SEL_KCSEG n \<longleftrightarrow> n = 3" unfolding 1(3) by (auto simp only: bit_push_bit_iff bit_1_iff) simp_all
qed

lemma bit_e0: "bit (e0 function) n \<longleftrightarrow> n < 16 \<and> bit function n \<or> n = 19"
  unfolding e0_def bit_or_iff bit_and_iff bit_push_bit_iff bit_masks by auto

lemma bit_e1:
  assumes "dpl < 4" "type < 16"
  shows "bit (e1 function dpl type) n \<longleftrightarrow> 16 \<le> n \<and> n < 32 \<and> bit function n \<or> n = 15 \<or>
    13 \<le> n \<and> n < 15 \<and> bit dpl (n - 13) \<or> 8 \<le> n \<and> n < 12 \<and> bit type (n - 8)"
proof -
  have "\<not> bit dpl (n - 13)" if "15 \<le> n" using small_bits [of dpl 2 "n - 13"] assms(1) that by (simp add: word_less_nat_alt)
  then have d: "bit (push_bit 13 dpl) n \<longleftrightarrow> 13 \<le> n \<and> n < 15 \<and> bit dpl (n - 13)"
    unfolding bit_push_bit_iff by (cases "n < 15") simp_all
  have "\<not> bit type (n - 8)" if "12 \<le> n" using small_bits [of type 4 "n - 8"] assms(2) that by (simp add: word_less_nat_alt)
  then have t: "bit (push_bit 8 type) n \<longleftrightarrow> 8 \<le> n \<and> n < 12 \<and> bit type (n - 8)"
    unfolding bit_push_bit_iff by (cases "n < 12") simp_all
  have p: "bit (push_bit 15 (1 :: u32)) n \<longleftrightarrow> n = 15"
    unfolding bit_push_bit_iff bit_1_iff by auto
  have z: "\<not> bit (push_bit 12 (0 :: u32)) n" by simp
  show ?thesis
    unfolding e1_def bit_or_iff bit_and_iff bit_masks d t p using z by blast
qed

definition gate :: "addr \<Rightarrow> u32 \<Rightarrow> u32 \<Rightarrow> u64" where
  "gate function dpl type = ucast (e0 function) OR push_bit 32 (ucast (e1 function dpl type))"

lemma bit_gate: "bit (gate function dpl type) n \<longleftrightarrow> n < 32 \<and> bit (e0 function) n \<or> 32 \<le> n \<and> n < 64 \<and> bit (e1 function dpl type) (n - 32)"
  unfolding gate_def bit_or_iff bit_push_bit_iff bit_unsigned_iff
  using bit_imp_le_length [of "e0 function" n] by auto

lemma gate_fields:
  assumes "dpl < 4" "type < 16"
  shows "gate_offset (gate function dpl type) = function" "gate_selector (gate function dpl type) = SEL_KCSEG"
    "gate_type (gate function dpl type) = type" "gate_dpl (gate function dpl type) = dpl" "gate_present (gate function dpl type)"
proof -
  note b = bit_gate bit_e0 bit_e1 [OF assms]
  have nd: "n < 2" if "bit dpl n" for n using small_bits [of dpl 2 n] assms(1) that by (cases "2 \<le> n") (simp_all add: word_less_nat_alt)
  have nt: "n < 4" if "bit type n" for n using small_bits [of type 4 n] assms(2) that by (cases "4 \<le> n") (simp_all add: word_less_nat_alt)
  show "gate_offset (gate function dpl type) = function"
    by (rule bit_eqI) (auto simp: gate_offset_def bit_or_iff bit_take_bit_iff bit_push_bit_iff bit_unsigned_iff bit_drop_bit_eq b dest: bit_imp_le_length)
  show "gate_selector (gate function dpl type) = SEL_KCSEG"
    by (rule bit_eqI) (auto simp: gate_selector_def bit_take_bit_iff bit_unsigned_iff bit_drop_bit_eq bit_masks b)
  show "gate_type (gate function dpl type) = type"
    by (rule bit_eqI) (auto simp: gate_type_def bit_take_bit_iff bit_unsigned_iff bit_drop_bit_eq b dest: nt)
  show "gate_dpl (gate function dpl type) = dpl"
    by (rule bit_eqI) (auto simp: gate_dpl_def bit_take_bit_iff bit_unsigned_iff bit_drop_bit_eq b dest: nd)
  show "gate_present (gate function dpl type)"
    by (simp add: gate_present_def b)
qed

lemma sint_small:
  assumes "0 \<le> sint (x :: u32)" "sint x < 16"
  shows "uint x = sint x"
proof -
  have "uint (word_of_int i :: u32) = i mod 4294967296" for i by (simp add: uint_word_of_int)
  from this [of "sint x"] show ?thesis using assms by simp
qed

lemma make_gate_eq:
  assumes "function \<noteq> NULL" "0 \<le> sint dpl" "sint dpl \<le> 3" "type = 14 \<or> type = 15"
  shows "make_gate function dpl type = ret (gate function dpl type)" "dpl < 4" "type < 16"
proof -
  have "uint dpl = sint dpl" using sint_small [of dpl] assms by simp
  then have "uint dpl < 4" using assms by simp
  then show "dpl < 4" by (simp add: word_less_def)
  show "type < 16" using assms(4) by auto
  show "make_gate function dpl type = ret (gate function dpl type)"
    using assms by (auto simp: make_gate_def gate_def e0_def e1_def Let_def)
qed

text \<open>
  C26: Registering a handler installs it and nothing else. For a vector with no handler and a
  legal privilege level the registration succeeds; the descriptor it writes is one that the
  processor reads as a present gate to the vector's stub in the kernel code segment, with the
  given privilege level, and of a type that keeps interrupts on or turns them off as requested;
  the tables change for this vector alone. A second registration fails an assertion.
\<close>

theorem register_handler_installs:
  assumes "intr_handlers is vec = None" and "intr_stubs vec \<noteq> NULL" and "0 \<le> sint dpl" "sint dpl \<le> 3"
  shows "returns (register_handler intr_stubs vec dpl lev h nm is) (\<lambda>is'.
    (let g = idt is' vec in gate_present g \<and> gate_offset g = intr_stubs vec \<and> gate_selector g = SEL_KCSEG \<and>
       gate_dpl g = dpl \<and> gate_type g = (if lev = INTR_ON then 15 else 14)) \<and>
    intr_handlers is' = (intr_handlers is)(vec := Some h) \<and> intr_name is' vec = nm \<and>
    (\<forall>v. v \<noteq> vec \<longrightarrow> idt is' v = idt is v \<and> intr_name is' v = intr_name is v) \<and>
    register_handler intr_stubs vec dpl' lev' h' nm' is' = stop Assert_fail)"
proof -
  let ?type = "if lev = INTR_ON then 15 else 14 :: u32"
  have ty: "?type = 14 \<or> ?type = 15" by simp
  note g = make_gate_eq [OF assms(2-4) ty]
  have "(if lev = INTR_ON then make_trap_gate (intr_stubs vec) dpl else make_intr_gate (intr_stubs vec) dpl)
      = ret (gate (intr_stubs vec) dpl ?type)"
    using g(1) by (cases lev) (simp_all add: make_trap_gate_def make_intr_gate_def)
  then show ?thesis
    using assms(1) gate_fields [OF g(2, 3)] unfolding register_handler_def
    by (simp add: intr_name_def Let_def)
qed

theorem register_handler_installs_witness:
  "returns (register_handler (\<lambda>_. 0xc0021234) 0x30 3 INTR_ON (\<lambda>k d. ret (k, d)) ''test''
     \<lparr>idt = (\<lambda>_. 0), intr_handlers = (\<lambda>_. None), intr_names = trap_names, unexpected_cnt = (\<lambda>_. 0), port_log = [], message_log = []\<rparr>)
    (\<lambda>is'. gate_offset (idt is' 0x30) = 0xc0021234 \<and> gate_dpl (idt is' 0x30) = 3 \<and> gate_type (idt is' 0x30) = 15)"
  by (rule returns_mono [OF register_handler_installs [where dpl' = 0 and lev' = INTR_ON and h' = "\<lambda>k d. ret (k, d)" and nm' = "[]"]])
    (auto simp: Let_def)

end
