(* ===== verification/Intq.thy ===== *)
theory Intq
  imports Thread_Inv
begin

section \<open>Interrupt queues (\<^verbatim>\<open>devices/intq.c\<close>)\<close>

text \<open>
  The circular buffer shared by device drivers and interrupt handlers, and its refinement of a
  bounded queue of bytes. \<^verbatim>\<open>intq_getc\<close> and \<^verbatim>\<open>intq_putc\<close> are modelled up to the point where the
  caller falls asleep; \<open>intq_getc_resume\<close> and \<open>intq_putc_resume\<close> are what it does when it
  has been woken. A condition is named by the member that it belongs to.
\<close>

definition INTQ_BUFSIZE :: int where "INTQ_BUFSIZE = 64"

record intq =
  q_lock :: lock
  not_full :: addr
  not_empty :: addr
  buf :: "u8 list"
  head :: int
  tail :: int

datatype condition_of = Not_full | Not_empty

definition intq_init :: "intq \<Rightarrow> intq" where
  "intq_init q = q\<lparr>q_lock := lock_init, not_full := NULL, not_empty := NULL, head := 0, tail := 0\<rparr>"

definition intq_next :: "int \<Rightarrow> int" where
  "intq_next pos = (pos + 1) mod INTQ_BUFSIZE"

definition intq_empty :: "kernel \<Rightarrow> intq \<Rightarrow> bool res" where
  "intq_empty k q = ASSERT (intr_get_level k = INTR_OFF) (ret (head q = tail q))"

definition intq_full :: "kernel \<Rightarrow> intq \<Rightarrow> bool res" where
  "intq_full k q = ASSERT (intr_get_level k = INTR_OFF) (ret (intq_next (head q) = tail q))"

definition waiter :: "condition_of \<Rightarrow> intq \<Rightarrow> addr" where
  "waiter c q = (case c of Not_full \<Rightarrow> not_full q | Not_empty \<Rightarrow> not_empty q)"

definition set_waiter :: "condition_of \<Rightarrow> addr \<Rightarrow> intq \<Rightarrow> intq" where
  "set_waiter c t q = (case c of Not_full \<Rightarrow> q\<lparr>not_full := t\<rparr> | Not_empty \<Rightarrow> q\<lparr>not_empty := t\<rparr>)"

definition intq_wait :: "kernel \<Rightarrow> intq \<Rightarrow> condition_of \<Rightarrow> (kernel \<times> intq) res" where
  "intq_wait k q c =
     ASSERT (\<not> intr_context k) (ASSERT (intr_get_level k = INTR_OFF)
       (andthen (case c of Not_empty \<Rightarrow> intq_empty k q | Not_full \<Rightarrow> intq_full k q) (\<lambda>ok. ASSERT ok
         (andthen (thread_current k) (\<lambda>t. let q = set_waiter c t q in
          andthen (thread_block_begin k) (\<lambda>k. ret (k, q)))))))"

definition intq_signal :: "kernel \<Rightarrow> intq \<Rightarrow> condition_of \<Rightarrow> (kernel \<times> intq) res" where
  "intq_signal k q c = ASSERT (intr_get_level k = INTR_OFF)
     (andthen (case c of Not_empty \<Rightarrow> intq_empty k q | Not_full \<Rightarrow> intq_full k q) (\<lambda>no. ASSERT (\<not> no)
       (if waiter c q \<noteq> NULL then
          andthen (thread_unblock k (waiter c q)) (\<lambda>k. ret (k, set_waiter c NULL q))
        else ret (k, q))))"

text \<open>The body of the loops: wait for the condition, or for the lock that allows to wait.\<close>

definition intq_sleep :: "kernel \<Rightarrow> intq \<Rightarrow> condition_of \<Rightarrow> (kernel \<times> intq) res" where
  "intq_sleep k q c = ASSERT (\<not> intr_context k)
     (andthen (lock_acquire k (q_lock q)) (\<lambda>w. case w of
        Asleep (k, l) \<Rightarrow> ret (k, q\<lparr>q_lock := l\<rparr>)
      | Done (k, l) \<Rightarrow> intq_wait k (q\<lparr>q_lock := l\<rparr>) c))"

definition intq_getc :: "kernel \<Rightarrow> intq \<Rightarrow> (u8 option \<times> kernel \<times> intq) res" where
  "intq_getc k q = ASSERT (intr_get_level k = INTR_OFF)
     (andthen (intq_empty k q) (\<lambda>empty.
      if empty then andthen (intq_sleep k q Not_empty) (\<lambda>(k, q). ret (None, k, q))
      else
        andthen (rd (buf q) (nat (tail q))) (\<lambda>byte.
        let q = q\<lparr>tail := intq_next (tail q)\<rparr> in
        andthen (intq_signal k q Not_full) (\<lambda>(k, q). ret (Some byte, k, q)))))"

definition intq_putc :: "kernel \<Rightarrow> intq \<Rightarrow> u8 \<Rightarrow> (bool \<times> kernel \<times> intq) res" where
  "intq_putc k q byte = ASSERT (intr_get_level k = INTR_OFF)
     (andthen (intq_full k q) (\<lambda>full.
      if full then andthen (intq_sleep k q Not_full) (\<lambda>(k, q). ret (False, k, q))
      else
        andthen (wr (buf q) (nat (head q)) byte) (\<lambda>b.
        let q = q\<lparr>buf := b, head := intq_next (head q)\<rparr> in
        andthen (intq_signal k q Not_empty) (\<lambda>(k, q). ret (True, k, q)))))"

definition intq_getc_resume :: "kernel \<Rightarrow> intq \<Rightarrow> (u8 option \<times> kernel \<times> intq) res" where
  "intq_getc_resume k q = andthen (lock_release k (q_lock q)) (\<lambda>(k, l). intq_getc k (q\<lparr>q_lock := l\<rparr>))"

definition intq_putc_resume :: "kernel \<Rightarrow> intq \<Rightarrow> u8 \<Rightarrow> (bool \<times> kernel \<times> intq) res" where
  "intq_putc_resume k q byte = andthen (lock_release k (q_lock q)) (\<lambda>(k, l). intq_putc k (q\<lparr>q_lock := l\<rparr>) byte)"

section \<open>The bytes in the queue\<close>

definition wf_intq :: "intq \<Rightarrow> bool" where
  "wf_intq q \<longleftrightarrow> length (buf q) = 64 \<and> 0 \<le> head q \<and> head q < 64 \<and> 0 \<le> tail q \<and> tail q < 64"

definition used :: "intq \<Rightarrow> nat" where
  "used q = nat ((head q - tail q) mod 64)"

definition content :: "intq \<Rightarrow> u8 list" where
  "content q = map (\<lambda>i. buf q ! ((nat (tail q) + i) mod 64)) [0..<used q]"

lemma length_content [simp]: "length (content q) = used q"
  by (simp add: content_def)

lemma used_less: "used q < 64"
  by (simp add: used_def)

lemma mod_64: "0 \<le> (x :: int) \<Longrightarrow> x < 64 \<Longrightarrow> (x + 1) mod 64 = (if x = 63 then 0 else x + 1)"
  by simp

lemma used_cases:
  assumes "wf_intq q"
  shows "used q = nat (if tail q \<le> head q then head q - tail q else head q - tail q + 64)"
proof -
  have "(head q - tail q) mod 64 = (if tail q \<le> head q then head q - tail q else head q - tail q + 64)"
  proof (cases "tail q \<le> head q")
    case False
    have "(head q - tail q) mod 64 = (head q - tail q + 64) mod 64" by simp
    also have "\<dots> = head q - tail q + 64" using assms False by (intro mod_pos_pos_trivial) (simp_all add: wf_intq_def)
    finally show ?thesis using False by simp
  qed (use assms in \<open>simp add: wf_intq_def mod_pos_pos_trivial\<close>)
  then show ?thesis by (simp add: used_def)
qed

lemma full_iff:
  assumes "wf_intq q"
  shows "intq_next (head q) = tail q \<longleftrightarrow> used q = 63"
  using assms mod_64 [of "head q"] unfolding used_cases [OF assms] intq_next_def INTQ_BUFSIZE_def wf_intq_def
  by (auto split: if_splits)

lemma empty_iff: "wf_intq q \<Longrightarrow> head q = tail q \<longleftrightarrow> used q = 0"
  by (auto simp: used_cases wf_intq_def split: if_splits)

lemma tail_used: "wf_intq q \<Longrightarrow> (nat (tail q) + used q) mod 64 = nat (head q)"
proof -
  assume w: "wf_intq q"
  obtain h t where ht: "head q = int h" "tail q = int t" "h < 64" "t < 64"
    using w by (metis wf_intq_def nonneg_int_cases of_nat_less_numeral_iff)
  have "nat (int h - int t + 64) = h + 64 - t" using ht(4) by (simp add: nat_eq_iff)
  then show ?thesis using w ht by (auto simp: used_cases)
qed

lemma put_content:
  assumes q: "wf_intq q" and u: "used q < 63"
    and q': "q' = q\<lparr>buf := (buf q)[nat (head q) := b], head := intq_next (head q)\<rparr>"
  shows "wf_intq q'" "content q' = content q @ [b]"
proof -
  show w: "wf_intq q'" using q by (simp add: q' wf_intq_def intq_next_def INTQ_BUFSIZE_def)
  have "used q' = Suc (used q)"
    using q u mod_64 [of "head q"] unfolding used_cases [OF w] used_cases [OF q]
    by (auto simp: q' intq_next_def INTQ_BUFSIZE_def wf_intq_def split: if_splits)
  moreover have "nat (head q) \<noteq> (nat (tail q) + i) mod 64" if "i < used q" for i
  proof
    assume "nat (head q) = (nat (tail q) + i) mod 64"
    then have "(nat (tail q) + i) mod 64 = (nat (tail q) + used q) mod 64" using tail_used [OF q] by simp
    then have "i mod 64 = used q mod 64" by (simp add: nat_mod_eq_iff)
    then show False using that used_less [of q] by simp
  qed
  moreover have "buf q' ! nat (head q) = b" "nat (head q) < 64" using q by (simp_all add: q' wf_intq_def nat_less_iff)
  ultimately show "content q' = content q @ [b]"
    using tail_used [OF q] by (auto simp: content_def q')
qed

lemma get_content:
  assumes q: "wf_intq q" and u: "0 < used q" and q': "q' = q\<lparr>tail := intq_next (tail q)\<rparr>"
  shows "wf_intq q'" "content q = buf q ! nat (tail q) # content q'"
proof -
  show w: "wf_intq q'" using q by (simp add: q' wf_intq_def intq_next_def INTQ_BUFSIZE_def)
  have n: "Suc (used q') = used q"
    using q u mod_64 [of "tail q"] unfolding used_cases [OF w] used_cases [OF q]
    by (auto simp: q' intq_next_def INTQ_BUFSIZE_def wf_intq_def split: if_splits)
  have t: "(nat (tail q') + i) mod 64 = (nat (tail q) + Suc i) mod 64" for i
    using q mod_64 [of "tail q"] by (auto simp: q' intq_next_def INTQ_BUFSIZE_def wf_intq_def nat_add_distrib)
  have "nat (tail q) < 64" using q by (simp add: wf_intq_def nat_less_iff)
  then have "nat (tail q) mod 64 = nat (tail q)" by simp
  then show "content q = buf q ! nat (tail q) # content q'"
    unfolding content_def n [symmetric] t upt_conv_Cons [OF zero_less_Suc] by (simp add: q' map_Suc_upt [symmetric] del: upt_Suc map_Suc_upt)
qed

section \<open>Operations\<close>

text \<open>With interrupts off a thread can be woken also from an interrupt handler.\<close>

lemma thread_unblock_off:
  assumes "level k = INTR_OFF" "is_thread k t" "stat k t = THREAD_BLOCKED"
  shows "thread_unblock k t = ret (readied t k)"
proof -
  have "(set_status t THREAD_READY (k\<lparr>level := INTR_OFF, ready_list := ready_list k @ [t]\<rparr>))\<lparr>level := INTR_OFF\<rparr> = readied t k"
    using assms(1) by (cases k) (simp add: readied_def set_status_def)
  then show ?thesis
    using assms by (simp add: thread_unblock_def intr_disable_def intr_get_level_def intr_set_level_def)
qed

definition sleeper :: "kernel \<Rightarrow> addr \<Rightarrow> bool" where
  "sleeper k t \<longleftrightarrow> t = NULL \<or> is_thread k t \<and> stat k t = THREAD_BLOCKED"

definition wake :: "addr \<Rightarrow> kernel \<Rightarrow> kernel" where
  "wake t k = (if t = NULL then k else readied t k)"

lemma set_waiter_same: "waiter c q = NULL \<Longrightarrow> set_waiter c NULL q = q"
  by (cases q; cases c) (simp_all add: waiter_def set_waiter_def)

lemma content_waiter [simp]: "content (set_waiter c t q) = content q" "wf_intq (set_waiter c t q) = wf_intq q"
  "waiter c (set_waiter c t q) = t"
  by (cases c; simp add: set_waiter_def content_def used_def wf_intq_def waiter_def)+

lemma content_lock [simp]: "content (q\<lparr>q_lock := l\<rparr>) = content q"
  by (simp add: content_def used_def)

lemma intq_signal_wakes:
  assumes "level k = INTR_OFF" "sleeper k (waiter c q)" "case c of Not_empty \<Rightarrow> head q \<noteq> tail q | Not_full \<Rightarrow> intq_next (head q) \<noteq> tail q"
  shows "intq_signal k q c = ret (wake (waiter c q) k, set_waiter c NULL q)"
proof -
  have "(case c of Not_empty \<Rightarrow> intq_empty k q | Not_full \<Rightarrow> intq_full k q) = ret False"
    using assms(1, 3) by (cases c) (simp_all add: intq_empty_def intq_full_def intr_get_level_def)
  then show ?thesis
    using assms(1, 2) set_waiter_same [of c q]
    by (auto simp: intq_signal_def intr_get_level_def thread_unblock_off sleeper_def wake_def)
qed

lemma intq_putc_room:
  assumes q: "wf_intq q" and u: "used q < 63" and k: "level k = INTR_OFF" "sleeper k (not_empty q)"
  shows "returns (intq_putc k q b) (\<lambda>(done, k', q'). done \<and> k' = wake (not_empty q) k \<and> wf_intq q' \<and>
    content q' = content q @ [b] \<and> not_empty q' = NULL)"
proof -
  define q' where "q' = q\<lparr>buf := (buf q)[nat (head q) := b], head := intq_next (head q)\<rparr>"
  note c = put_content [OF q u q'_def]
  have "used q' = Suc (used q)" using arg_cong [OF c(2), of length] by simp
  then have ne: "head q' \<noteq> tail q'" using empty_iff [OF c(1)] by simp
  have w: "waiter Not_empty q' = not_empty q" by (simp add: waiter_def q'_def)
  have s: "intq_signal k q' Not_empty = ret (wake (not_empty q) k, set_waiter Not_empty NULL q')"
    using intq_signal_wakes [of k Not_empty q'] k ne w by simp
  have "wr (buf q) (nat (head q)) b = ret ((buf q)[nat (head q) := b])"
    using q by (simp add: wr_def wf_intq_def nat_less_iff)
  then have "intq_putc k q b = ret (True, wake (not_empty q) k, set_waiter Not_empty NULL q')"
    using k(1) full_iff [OF q] u s unfolding intq_putc_def q'_def
    by (simp add: intq_full_def intr_get_level_def Let_def)
  then show ?thesis using c content_waiter(3) [of Not_empty NULL q'] by (simp add: waiter_def)
qed

lemma intq_getc_some:
  assumes q: "wf_intq q" and u: "content q = b # bs" and k: "level k = INTR_OFF" "sleeper k (not_full q)"
  shows "returns (intq_getc k q) (\<lambda>(r, k', q'). r = Some b \<and> k' = wake (not_full q) k \<and> wf_intq q' \<and>
    content q' = bs \<and> not_full q' = NULL)"
proof -
  define q' where "q' = q\<lparr>tail := intq_next (tail q)\<rparr>"
  have pos: "0 < used q" using arg_cong [OF u, of length] by simp
  note c = get_content [OF q pos q'_def]
  have b: "buf q ! nat (tail q) = b" "content q' = bs" using c(2) u by simp_all
  have "used q = Suc (used q')" using arg_cong [OF c(2), of length] by simp
  then have nf: "intq_next (head q') \<noteq> tail q'" using full_iff [OF c(1)] used_less [of q] by simp
  have w: "waiter Not_full q' = not_full q" by (simp add: waiter_def q'_def)
  have s: "intq_signal k q' Not_full = ret (wake (not_full q) k, set_waiter Not_full NULL q')"
    using intq_signal_wakes [of k Not_full q'] k nf w by simp
  have "rd (buf q) (nat (tail q)) = ret b"
    using q b(1) by (simp add: rd_def wf_intq_def nat_less_iff)
  then have "intq_getc k q = ret (Some b, wake (not_full q) k, set_waiter Not_full NULL q')"
    using k(1) empty_iff [OF q] pos s unfolding intq_getc_def q'_def
    by (simp add: intq_empty_def intr_get_level_def Let_def)
  then show ?thesis using c(1) b(2) content_waiter(3) [of Not_full NULL q'] by (simp add: waiter_def)
qed

lemma intq_sleep_blocks:
  assumes k: "wf_kernel k" "level k = INTR_OFF" and q: "q_lock q = lock_init"
    and c: "case c of Not_empty \<Rightarrow> head q = tail q | Not_full \<Rightarrow> intq_next (head q) = tail q"
  shows "intq_sleep k q c = ret (set_status (running k) THREAD_BLOCKED k, set_waiter c (running k) (q\<lparr>q_lock := lock_held (running k)\<rparr>))"
proof -
  have r: "runs k" "\<not> intr_context k" using wf_kernel_runs [OF k(1)] by (simp_all add: runs_def)
  have e: "k\<lparr>level := INTR_OFF\<rparr> = k" using k(2) by (cases k) simp
  have "(case c of Not_empty \<Rightarrow> intq_empty k (q\<lparr>q_lock := l\<rparr>) | Not_full \<Rightarrow> intq_full k (q\<lparr>q_lock := l\<rparr>)) = ret True" for l
    using k(2) c by (cases c) (simp_all add: intq_empty_def intq_full_def intr_get_level_def)
  then show ?thesis
    using r q k(2) thread_block_begin_blocked [OF k(1)] e
    by (simp add: intq_sleep_def lock_acquire_free intq_wait_def intr_get_level_def Let_def)
qed

section \<open>Properties\<close>

text \<open>
  C25: An interrupt queue is a queue of at most 63 bytes. With interrupts off, in a thread or in
  a handler, \<^verbatim>\<open>intq_putc\<close> appends its byte if there is room and wakes the thread that waits for
  data, if there is one; \<^verbatim>\<open>intq_getc\<close> removes and returns the oldest byte if there is one and wakes
  the thread that waits for room. A thread that calls \<^verbatim>\<open>intq_getc\<close> for an empty queue, or
  \<^verbatim>\<open>intq_putc\<close> for a full one, goes to sleep as the one registered waiter, with the bytes
  unchanged.
\<close>

theorem intq_fifo:
  assumes "wf_intq q" and "level k = INTR_OFF" and "sleeper k (not_empty q)" "sleeper k (not_full q)"
  shows "(length (content q) < 63 \<longrightarrow> returns (intq_putc k q b) (\<lambda>(done, k', q'). done \<and> k' = wake (not_empty q) k \<and>
      wf_intq q' \<and> content q' = content q @ [b] \<and> not_empty q' = NULL)) \<and>
    (\<forall>c cs. content q = c # cs \<longrightarrow> returns (intq_getc k q) (\<lambda>(r, k', q'). r = Some c \<and> k' = wake (not_full q) k \<and>
      wf_intq q' \<and> content q' = cs \<and> not_full q' = NULL)) \<and> length (content q) \<le> 63 \<and>
    (wf_kernel k \<and> q_lock q = lock_init \<longrightarrow>
      (content q = [] \<longrightarrow> returns (intq_getc k q) (\<lambda>(r, k', q'). r = None \<and> k' = set_status (running k) THREAD_BLOCKED k \<and>
        content q' = [] \<and> not_empty q' = running k)) \<and>
      (length (content q) = 63 \<longrightarrow> returns (intq_putc k q b) (\<lambda>(done, k', q'). \<not> done \<and> k' = set_status (running k) THREAD_BLOCKED k \<and>
        content q' = content q \<and> not_full q' = running k)))"
proof (intro conjI allI impI; (elim conjE)?)
  show "length (content q) \<le> 63" using used_less [of q] by simp
  show "returns (intq_getc k q) (\<lambda>(r, k', q'). r = None \<and> k' = set_status (running k) THREAD_BLOCKED k \<and>
      content q' = [] \<and> not_empty q' = running k)"
    if "content q = []" "wf_kernel k" "q_lock q = lock_init"
  proof -
    have e: "head q = tail q" using arg_cong [OF that(1), of length] empty_iff [OF assms(1)] by simp
    then have "intq_sleep k q Not_empty = ret (set_status (running k) THREAD_BLOCKED k, set_waiter Not_empty (running k) (q\<lparr>q_lock := lock_held (running k)\<rparr>))"
      using intq_sleep_blocks [OF that(2) assms(2) that(3), of Not_empty] by simp
    moreover have "content (set_waiter Not_empty (running k) (q\<lparr>q_lock := lock_held (running k)\<rparr>)) = []"
      using that(1) by simp
    ultimately show ?thesis
      using e assms(2) by (simp add: intq_getc_def intq_empty_def intr_get_level_def) (simp add: set_waiter_def)
  qed
  show "returns (intq_putc k q b) (\<lambda>(done, k', q'). \<not> done \<and> k' = set_status (running k) THREAD_BLOCKED k \<and>
      content q' = content q \<and> not_full q' = running k)"
    if "length (content q) = 63" "wf_kernel k" "q_lock q = lock_init"
  proof -
    have e: "intq_next (head q) = tail q" using that(1) full_iff [OF assms(1)] by simp
    then have "intq_sleep k q Not_full = ret (set_status (running k) THREAD_BLOCKED k, set_waiter Not_full (running k) (q\<lparr>q_lock := lock_held (running k)\<rparr>))"
      using intq_sleep_blocks [OF that(2) assms(2) that(3), of Not_full] by simp
    moreover have "content (set_waiter Not_full (running k) (q\<lparr>q_lock := lock_held (running k)\<rparr>)) = content q"
      by simp
    ultimately show ?thesis
      using e assms(2) by (simp add: intq_putc_def intq_full_def intr_get_level_def) (simp add: set_waiter_def)
  qed
qed (use assms intq_putc_room intq_getc_some in simp_all)

theorem intq_fifo_witness:
  "\<exists>k q. returns (intq_putc k q 7) (\<lambda>(done, k', q'). done \<and> content q' = [7])"
proof -
  let ?k = "sample_kernel\<lparr>level := INTR_OFF\<rparr>"
  let ?q = "intq_init \<lparr>q_lock = lock_init, not_full = 5, not_empty = 5, buf = replicate 64 0, head = 3, tail = 7\<rparr>"
  have "wf_intq ?q" "content ?q = []" "sleeper ?k (not_empty ?q)" "sleeper ?k (not_full ?q)" "level ?k = INTR_OFF"
    by (simp_all add: wf_intq_def intq_init_def content_def used_def sleeper_def)
  then have "returns (intq_putc ?k ?q 7) (\<lambda>(done, k', q'). done \<and> k' = wake (not_empty ?q) ?k \<and>
      wf_intq q' \<and> content q' = content ?q @ [7] \<and> not_empty q' = NULL)"
    using intq_fifo [of ?q ?k 7] by simp
  then have "returns (intq_putc ?k ?q 7) (\<lambda>(done, k', q'). done \<and> content q' = [7])"
    by (rule returns_mono) (use \<open>content ?q = []\<close> in auto)
  then show ?thesis by blast
qed

end
