(* ===== verification/Scheduler.thy ===== *)
theory Scheduler
  imports Interrupt
begin

section \<open>Interleaved execution of threads\<close>

text \<open>
  The kernel as a system of interleaved threads. Every thread has a stack of frames that say
  what it still has to execute; the frame on top is executed by \<open>exec\<close> when the thread runs.
  A frame stands for a call of a function of \<^verbatim>\<open>synch.c\<close>, \<^verbatim>\<open>thread.c\<close> or \<^verbatim>\<open>timer.c\<close>, or for the
  rest of such a function behind a point where the thread may lose the processor: in
  \<open>Sema_loop\<close> it has just returned from \<^verbatim>\<open>thread_block\<close> inside the loop of \<^verbatim>\<open>sema_down\<close>, in
  \<open>Set_level\<close> it has returned from \<^verbatim>\<open>schedule\<close> in \<^verbatim>\<open>thread_yield\<close>, in \<open>Set_holder\<close> it has
  returned from \<^verbatim>\<open>sema_down\<close> in \<^verbatim>\<open>lock_acquire\<close>, and in \<open>Iret\<close> it is about to leave an interrupt
  handler. With an empty stack a thread runs code of its own and may make any call. A timer
  interrupt may come between any two frames while interrupts are on.

  Semaphores are named by \<open>sref\<close>: those of clients and of locks by their address, and the one
  that a thread keeps on its stack during \<^verbatim>\<open>cond_wait\<close> by the thread.
\<close>

datatype sref = Sema addr | Lock_sema addr | Waiter addr

datatype frame =
    Sema_down sref
  | Sema_loop sref intr_level
  | Sema_try_down sref
  | Sema_up sref
  | Lock_acquire addr
  | Set_holder addr
  | Lock_try_acquire addr
  | Lock_release addr
  | Cond_wait addr addr
  | Cond_signal addr addr
  | Cond_broadcast addr addr
  | Intr_set_level intr_level
  | Thread_yield
  | Set_level intr_level
  | Thread_exit
  | Thread_create "string option" int addr addr
  | Kernel_thread addr addr
  | Timer_sleep u64
  | Timer_wait u64 u64
  | Iret
  | Idle_start sref
  | Idle_block
  | Idle_hlt

record system =
  kern :: kernel
  pal :: palloc
  intr :: "timer intr"
  tmr :: timer
  sems :: "sref \<Rightarrow> semaphore"
  holders :: "addr \<Rightarrow> addr"
  conds :: "addr \<Rightarrow> addr list"
  frames :: "addr \<Rightarrow> frame list"
  kernel_thread_eip :: addr
  switch_entry_eip :: addr
  idle_eip :: addr

abbreviation cur :: "system \<Rightarrow> addr" where
  "cur s \<equiv> running (kern s)"

definition lock_at :: "system \<Rightarrow> addr \<Rightarrow> lock" where
  "lock_at s a = \<lparr>holder = holders s a, sema = sems s (Lock_sema a)\<rparr>"

definition goto :: "frame list \<Rightarrow> system \<Rightarrow> system" where
  "goto fs s = s\<lparr>frames := (frames s)(cur s := fs)\<rparr>"

text \<open>The running thread goes on with the frames \<open>fs\<close>, now or when it is resumed.\<close>

definition exec_sema_down :: "sref \<Rightarrow> frame list \<Rightarrow> system \<Rightarrow> system res" where
  "exec_sema_down r fs s = andthen (sema_down (kern s) (sems s r)) (\<lambda>w. case w of
       Done (k, x) \<Rightarrow> ret ((goto fs s)\<lparr>kern := k, sems := (sems s)(r := x)\<rparr>)
     | Asleep (k, x) \<Rightarrow> andthen (schedule k (pal s)) (\<lambda>(k, st).
         ret ((goto (Sema_loop r (intr_get_level (kern s)) # fs) s)\<lparr>kern := k, pal := st, sems := (sems s)(r := x)\<rparr>)))"

definition exec_sema_loop :: "sref \<Rightarrow> intr_level \<Rightarrow> frame list \<Rightarrow> system \<Rightarrow> system res" where
  "exec_sema_loop r old_level fs s = andthen (sema_down_pass (kern s) (sems s r)) (\<lambda>w. case w of
       Done (k, x) \<Rightarrow> andthen (intr_set_level old_level k) (\<lambda>(_, k).
         ret ((goto fs s)\<lparr>kern := k, sems := (sems s)(r := x)\<rparr>))
     | Asleep (k, x) \<Rightarrow> andthen (schedule k (pal s)) (\<lambda>(k, st).
         ret ((goto (Sema_loop r old_level # fs) s)\<lparr>kern := k, pal := st, sems := (sems s)(r := x)\<rparr>)))"

definition exec_sema_try_down :: "sref \<Rightarrow> frame list \<Rightarrow> frame list \<Rightarrow> system \<Rightarrow> system res" where
  "exec_sema_try_down r fs gs s = andthen (sema_try_down (kern s) (sems s r)) (\<lambda>(success, k, x).
     ret ((goto (if success then fs else gs) s)\<lparr>kern := k, sems := (sems s)(r := x)\<rparr>))"

definition exec_sema_up :: "sref \<Rightarrow> frame list \<Rightarrow> system \<Rightarrow> system res" where
  "exec_sema_up r fs s = andthen (sema_up (kern s) (sems s r)) (\<lambda>(k, x).
     ret ((goto fs s)\<lparr>kern := k, sems := (sems s)(r := x)\<rparr>))"

definition exec_lock_acquire :: "addr \<Rightarrow> frame list \<Rightarrow> system \<Rightarrow> system res" where
  "exec_lock_acquire a fs s = ASSERT (\<not> intr_context (kern s))
     (andthen (lock_held_by_current_thread (kern s) (lock_at s a)) (\<lambda>held. ASSERT (\<not> held)
       (ret (goto (Sema_down (Lock_sema a) # Set_holder a # fs) s))))"

definition exec_set_holder :: "addr \<Rightarrow> frame list \<Rightarrow> system \<Rightarrow> system res" where
  "exec_set_holder a fs s = andthen (thread_current (kern s)) (\<lambda>t.
     ret ((goto fs s)\<lparr>holders := (holders s)(a := t)\<rparr>))"

definition exec_lock_try_acquire :: "addr \<Rightarrow> frame list \<Rightarrow> system \<Rightarrow> system res" where
  "exec_lock_try_acquire a fs s =
     andthen (lock_held_by_current_thread (kern s) (lock_at s a)) (\<lambda>held. ASSERT (\<not> held)
       (exec_sema_try_down (Lock_sema a) (Set_holder a # fs) fs s))"

definition exec_lock_release :: "addr \<Rightarrow> frame list \<Rightarrow> system \<Rightarrow> system res" where
  "exec_lock_release a fs s =
     andthen (lock_held_by_current_thread (kern s) (lock_at s a)) (\<lambda>held. ASSERT held
       (ret ((goto (Sema_up (Lock_sema a) # fs) s)\<lparr>holders := (holders s)(a := NULL)\<rparr>)))"

definition cond_init :: "addr \<Rightarrow> system \<Rightarrow> system" where
  "cond_init c s = s\<lparr>conds := (conds s)(c := [])\<rparr>"

definition exec_cond_wait :: "addr \<Rightarrow> addr \<Rightarrow> frame list \<Rightarrow> system \<Rightarrow> system res" where
  "exec_cond_wait c a fs s = ASSERT (\<not> intr_context (kern s))
     (andthen (lock_held_by_current_thread (kern s) (lock_at s a)) (\<lambda>held. ASSERT held
       (let w = cur s in
        ret ((goto (Lock_release a # Sema_down (Waiter w) # Lock_acquire a # fs) s)
          \<lparr>sems := (sems s)(Waiter w := sema_init 0), conds := (conds s)(c := conds s c @ [w])\<rparr>))))"

definition exec_cond_signal :: "addr \<Rightarrow> addr \<Rightarrow> frame list \<Rightarrow> system \<Rightarrow> system res" where
  "exec_cond_signal c a fs s = ASSERT (\<not> intr_context (kern s))
     (andthen (lock_held_by_current_thread (kern s) (lock_at s a)) (\<lambda>held. ASSERT held
       (case conds s c of
          [] \<Rightarrow> ret (goto fs s)
        | w # ws \<Rightarrow> ret ((goto (Sema_up (Waiter w) # fs) s)\<lparr>conds := (conds s)(c := ws)\<rparr>))))"

definition exec_cond_broadcast :: "addr \<Rightarrow> addr \<Rightarrow> frame list \<Rightarrow> system \<Rightarrow> system res" where
  "exec_cond_broadcast c a fs s =
     ret (goto (if conds s c \<noteq> [] then Cond_signal c a # Cond_broadcast c a # fs else fs) s)"

definition exec_intr_set_level :: "intr_level \<Rightarrow> frame list \<Rightarrow> system \<Rightarrow> system res" where
  "exec_intr_set_level l fs s = andthen (intr_set_level l (kern s)) (\<lambda>(_, k). ret ((goto fs s)\<lparr>kern := k\<rparr>))"

definition exec_thread_yield :: "frame list \<Rightarrow> system \<Rightarrow> system res" where
  "exec_thread_yield fs s = andthen (thread_yield (kern s) (pal s)) (\<lambda>(old_level, k, st).
     ret ((goto (Set_level old_level # fs) s)\<lparr>kern := k, pal := st\<rparr>))"

definition exec_thread_exit :: "frame list \<Rightarrow> system \<Rightarrow> system res" where
  "exec_thread_exit fs s = andthen (thread_exit (kern s) (pal s)) (\<lambda>(k, st).
     ret ((goto [] s)\<lparr>kern := k, pal := st\<rparr>))"

text \<open>A new thread is the last of \<^verbatim>\<open>all_list\<close>; it starts in \<^verbatim>\<open>kernel_thread\<close>.\<close>

definition exec_thread_create :: "string option \<Rightarrow> int \<Rightarrow> addr \<Rightarrow> addr \<Rightarrow> frame list \<Rightarrow> system \<Rightarrow> system res" where
  "exec_thread_create nm pri function aux fs s =
     andthen (thread_create (kernel_thread_eip s) (switch_entry_eip s) (kern s) (pal s) nm pri function aux) (\<lambda>(_, k, st).
     let s' = goto fs s in
     ret (s'\<lparr>kern := k, pal := st,
        frames := (if all_list k = all_list (kern s) then frames s'
                   else (frames s')(last (all_list k) := [Kernel_thread function aux]))\<rparr>))"

text \<open>
  \<^verbatim>\<open>kernel_thread\<close> turns interrupts on and calls the function: the idle loop, or code of a client,
  which may make any call and returns by calling \<^verbatim>\<open>thread_exit\<close>.
\<close>

definition exec_kernel_thread :: "addr \<Rightarrow> addr \<Rightarrow> frame list \<Rightarrow> system \<Rightarrow> system res" where
  "exec_kernel_thread function aux fs s = ASSERT (function \<noteq> NULL)
     (andthen (intr_enable (kern s)) (\<lambda>(_, k).
       ret ((goto (if function = idle_eip s then Idle_start (Sema aux) # fs else fs) s)\<lparr>kern := k\<rparr>)))"

definition exec_timer_sleep :: "u64 \<Rightarrow> frame list \<Rightarrow> system \<Rightarrow> system res" where
  "exec_timer_sleep n fs s = andthen (timer_ticks (kern s) (tmr s)) (\<lambda>(start, k).
     ASSERT (intr_get_level k = INTR_ON) (ret ((goto (Timer_wait start n # fs) s)\<lparr>kern := k\<rparr>)))"

definition exec_timer_wait :: "u64 \<Rightarrow> u64 \<Rightarrow> frame list \<Rightarrow> system \<Rightarrow> system res" where
  "exec_timer_wait start n fs s = andthen (timer_elapsed (kern s) (tmr s) start) (\<lambda>(e, k).
     ret ((goto (if sint e < sint n then Thread_yield # Timer_wait start n # fs else fs) s)\<lparr>kern := k\<rparr>))"

definition exec_idle_start :: "sref \<Rightarrow> frame list \<Rightarrow> system \<Rightarrow> system res" where
  "exec_idle_start r fs s = andthen (thread_current (kern s)) (\<lambda>t.
     ret ((goto (Sema_up r # Idle_block # fs) s)\<lparr>kern := (kern s)\<lparr>idle_thread := t\<rparr>\<rparr>))"

definition exec_idle_block :: "frame list \<Rightarrow> system \<Rightarrow> system res" where
  "exec_idle_block fs s = andthen (intr_disable (kern s)) (\<lambda>(_, k).
     andthen (thread_block k (pal s)) (\<lambda>(k, st). ret ((goto (Idle_hlt # fs) s)\<lparr>kern := k, pal := st\<rparr>)))"

definition exec_idle_hlt :: "frame list \<Rightarrow> system \<Rightarrow> system res" where
  "exec_idle_hlt fs s = ret ((goto (Idle_block # fs) s)\<lparr>kern := (kern s)\<lparr>level := INTR_ON\<rparr>\<rparr>)"

text \<open>Returning from an interrupt restores the flags, in which interrupts were on.\<close>

definition exec_iret :: "frame list \<Rightarrow> system \<Rightarrow> system res" where
  "exec_iret fs s = ret ((goto fs s)\<lparr>kern := (kern s)\<lparr>level := INTR_ON\<rparr>\<rparr>)"

definition exec :: "frame \<Rightarrow> frame list \<Rightarrow> system \<Rightarrow> system res" where
  "exec f fs s = (case f of
       Sema_down r \<Rightarrow> exec_sema_down r fs s
     | Sema_loop r l \<Rightarrow> exec_sema_loop r l fs s
     | Sema_try_down r \<Rightarrow> exec_sema_try_down r fs fs s
     | Sema_up r \<Rightarrow> exec_sema_up r fs s
     | Lock_acquire a \<Rightarrow> exec_lock_acquire a fs s
     | Set_holder a \<Rightarrow> exec_set_holder a fs s
     | Lock_try_acquire a \<Rightarrow> exec_lock_try_acquire a fs s
     | Lock_release a \<Rightarrow> exec_lock_release a fs s
     | Cond_wait c a \<Rightarrow> exec_cond_wait c a fs s
     | Cond_signal c a \<Rightarrow> exec_cond_signal c a fs s
     | Cond_broadcast c a \<Rightarrow> exec_cond_broadcast c a fs s
     | Intr_set_level l \<Rightarrow> exec_intr_set_level l fs s
     | Thread_yield \<Rightarrow> exec_thread_yield fs s
     | Set_level l \<Rightarrow> exec_intr_set_level l fs s
     | Thread_exit \<Rightarrow> exec_thread_exit fs s
     | Thread_create nm pri function aux \<Rightarrow> exec_thread_create nm pri function aux fs s
     | Kernel_thread function aux \<Rightarrow> exec_kernel_thread function aux fs s
     | Timer_sleep n \<Rightarrow> exec_timer_sleep n fs s
     | Timer_wait start n \<Rightarrow> exec_timer_wait start n fs s
     | Iret \<Rightarrow> exec_iret fs s
     | Idle_start r \<Rightarrow> exec_idle_start r fs s
     | Idle_block \<Rightarrow> exec_idle_block fs s
     | Idle_hlt \<Rightarrow> exec_idle_hlt fs s)"

text \<open>
  A timer interrupt: the processor enters the handler through an interrupt gate, which turns
  interrupts off, and leaves it at once or, after a switch of threads, when the interrupted
  thread is resumed.
\<close>

definition timer_tick :: "system \<Rightarrow> system res" where
  "timer_tick s = andthen (intr_handler 0x20 (intr s) ((kern s)\<lparr>level := INTR_OFF\<rparr>) (pal s) (tmr s)) (\<lambda>(y, is, k, st, d).
     let s' = s\<lparr>pal := st, intr := is, tmr := d\<rparr> in
     case y of
       None \<Rightarrow> ret (s'\<lparr>kern := k\<lparr>level := INTR_ON\<rparr>\<rparr>)
     | Some l \<Rightarrow> ret ((goto (Set_level l # Iret # frames s (cur s)) s')\<lparr>kern := k\<rparr>))"

text \<open>
  The calls that clients make, and what the calls demand of them: a lock is acquired only by a
  thread that does not hold it and released, waited for or signalled only by its holder, a
  thread that exits holds no lock, sleeping on the timer needs interrupts on, and new threads
  have a name, a function and a priority in range.
\<close>

fun client_call :: "system \<Rightarrow> frame \<Rightarrow> bool" where
  "client_call s (Sema_down r) = (\<exists>a. r = Sema a)"
| "client_call s (Sema_try_down r) = (\<exists>a. r = Sema a)"
| "client_call s (Sema_up r) = (\<exists>a. r = Sema a)"
| "client_call s (Lock_acquire a) = (holders s a \<noteq> cur s)"
| "client_call s (Lock_try_acquire a) = (holders s a \<noteq> cur s)"
| "client_call s (Lock_release a) = (holders s a = cur s)"
| "client_call s (Cond_wait c a) = (holders s a = cur s)"
| "client_call s (Cond_signal c a) = (holders s a = cur s)"
| "client_call s (Cond_broadcast c a) = (holders s a = cur s)"
| "client_call s (Intr_set_level l) = True"
| "client_call s Thread_yield = True"
| "client_call s Thread_exit = (\<forall>a. holders s a \<noteq> cur s)"
| "client_call s (Thread_create nm pri function aux) =
     (nm \<noteq> None \<and> PRI_MIN \<le> pri \<and> pri \<le> PRI_MAX \<and> function \<noteq> NULL \<and> function \<noteq> idle_eip s)"
| "client_call s (Timer_sleep n) = (level (kern s) = INTR_ON)"
| "client_call s _ = False"

datatype event = Call frame | Continue | Timer_tick

inductive step :: "event \<Rightarrow> system \<Rightarrow> system \<Rightarrow> bool" where
  call: "frames s (cur s) = [] \<Longrightarrow> client_call s f \<Longrightarrow> step (Call f) s (goto [f] s)"
| continue: "frames s (cur s) = f # fs \<Longrightarrow> exec f fs s = ret s' \<Longrightarrow> step Continue s s'"
| timer: "level (kern s) = INTR_ON \<Longrightarrow> timer_tick s = ret s' \<Longrightarrow> step Timer_tick s s'"

inductive_cases step_callE: "step (Call f) s s'"
inductive_cases step_continueE: "step Continue s s'"
inductive_cases step_timerE: "step Timer_tick s s'"

text \<open>An execution with its events and the states after each of them.\<close>

inductive trace :: "system \<Rightarrow> (event \<times> system) list \<Rightarrow> bool" where
  nil: "trace s []"
| cons: "step e s s' \<Longrightarrow> trace s' es \<Longrightarrow> trace s ((e, s') # es)"

end
