(* ===== verification/Scheduler_Inv.thy ===== *)
theory Scheduler_Inv
  imports Scheduler Interrupt_Inv
begin

text \<open>
  The invariant of the system of threads, in four parts: the stacks of frames, the semaphores
  and their waiters, the locks and their owners, and the kernel itself; and how each part
  changes in the transitions that the system can make.
\<close>

section \<open>What the stack of a thread may look like\<close>

text \<open>
  A thread that does not run is at a point where it lost the processor. Frames of this kind
  are on top of a stack, except for \<open>Iret\<close>, which \<open>Set_level\<close> may precede.
\<close>

fun resume_point :: "frame \<Rightarrow> bool" where
  "resume_point (Sema_loop r l) = True"
| "resume_point (Set_level l) = True"
| "resume_point (Kernel_thread function aux) = True"
| "resume_point Iret = True"
| "resume_point Idle_hlt = True"
| "resume_point _ = False"

fun quiet :: "frame \<Rightarrow> bool" where
  "quiet (Set_holder a) = False"
| "quiet (Sema_up r) = (\<forall>a. r \<noteq> Lock_sema a)"
| "quiet (Timer_sleep n) = False"
| "quiet f = (\<not> resume_point f)"

definition calm :: "frame list \<Rightarrow> bool" where
  "calm fs \<longleftrightarrow> (case fs of [] \<Rightarrow> True | f # _ \<Rightarrow> quiet f)"

text \<open>What may lie below a frame.\<close>

fun follows :: "frame \<Rightarrow> frame list \<Rightarrow> bool" where
  "follows (Sema_down (Lock_sema a)) fs = (\<exists>gs. fs = Set_holder a # gs)"
| "follows (Sema_loop (Lock_sema a) l) fs = (\<exists>gs. fs = Set_holder a # gs)"
| "follows Iret fs = (case fs of [] \<Rightarrow> True | f # _ \<Rightarrow> \<not> resume_point f)"
| "follows (Set_level l) fs = (calm fs \<or> l = INTR_OFF \<and> (\<exists>gs. fs = Iret # gs))"
| "follows (Lock_try_acquire a) fs = (fs = [])"
| "follows f fs = calm fs"

primrec linked :: "frame list \<Rightarrow> bool" where
  "linked [] = True"
| "linked (f # fs) = (follows f fs \<and> linked fs)"

text \<open>
  What the frames of thread \<open>t\<close> demand of the locks \<open>h\<close> that it holds, when \<open>e\<close> is the address
  of the idle loop, and which locks it holds after a frame.
\<close>

fun demands :: "addr \<Rightarrow> addr \<Rightarrow> (addr \<Rightarrow> bool) \<Rightarrow> frame \<Rightarrow> bool" where
  "demands t e h (Sema_down r) = (\<forall>u. r = Waiter u \<longrightarrow> u = t)"
| "demands t e h (Sema_loop r l) = (\<forall>u. r = Waiter u \<longrightarrow> u = t)"
| "demands t e h (Sema_try_down r) = (\<exists>a. r = Sema a)"
| "demands t e h (Sema_up r) = (\<forall>a. r = Lock_sema a \<longrightarrow> \<not> h a)"
| "demands t e h (Lock_acquire a) = (\<not> h a)"
| "demands t e h (Set_holder a) = (\<not> h a)"
| "demands t e h (Lock_try_acquire a) = (\<not> h a)"
| "demands t e h (Lock_release a) = h a"
| "demands t e h (Cond_wait c a) = h a"
| "demands t e h (Cond_signal c a) = h a"
| "demands t e h (Cond_broadcast c a) = h a"
| "demands t e h Thread_exit = (\<forall>a. \<not> h a)"
| "demands t e h (Thread_create nm pri function aux) =
     (nm \<noteq> None \<and> PRI_MIN \<le> pri \<and> pri \<le> PRI_MAX \<and> function \<noteq> NULL \<and> function \<noteq> e)"
| "demands t e h (Kernel_thread function aux) = (function \<noteq> NULL \<and> function \<noteq> e)"
| "demands t e h (Idle_start r) = False"
| "demands t e h Idle_block = False"
| "demands t e h Idle_hlt = False"
| "demands t e h _ = True"

fun holding :: "(addr \<Rightarrow> bool) \<Rightarrow> frame \<Rightarrow> addr \<Rightarrow> bool" where
  "holding h (Lock_acquire a) = h(a := True)"
| "holding h (Set_holder a) = h(a := True)"
| "holding h (Lock_release a) = h(a := False)"
| "holding h f = h"

primrec safe :: "addr \<Rightarrow> addr \<Rightarrow> (addr \<Rightarrow> bool) \<Rightarrow> frame list \<Rightarrow> bool" where
  "safe t e h [] = True"
| "safe t e h (f # fs) = (demands t e h f \<and> safe t e (holding h f) fs)"

text \<open>The stacks of the idle thread.\<close>

definition idle_stacks :: "frame list set" where
  "idle_stacks = {[Idle_hlt], [Idle_block], [Iret, Idle_block], [Set_level INTR_OFF, Iret, Idle_block]}"

section \<open>The invariant\<close>

definition wf_stack :: "addr \<Rightarrow> addr \<Rightarrow> addr \<Rightarrow> (addr \<Rightarrow> addr) \<Rightarrow> addr \<Rightarrow> frame list \<Rightarrow> bool" where
  "wf_stack run idle e H t fs \<longleftrightarrow> linked fs \<and> (t \<noteq> run \<longrightarrow> (\<exists>f gs. fs = f # gs \<and> resume_point f)) \<and>
     (if t = idle then fs \<in> idle_stacks else safe t e (\<lambda>a. H a = t) fs)"

definition wf_top :: "intr_level \<Rightarrow> frame list \<Rightarrow> bool" where
  "wf_top l fs \<longleftrightarrow> (case fs of [] \<Rightarrow> True
     | f # _ \<Rightarrow> (resume_point f \<longrightarrow> l = INTR_OFF) \<and> ((\<exists>n. f = Timer_sleep n) \<longrightarrow> l = INTR_ON))"

text \<open>
  Threads sleep in the lists of the semaphores they wait for, and every thread that sleeps is
  in such a list or idle. While threads wait for a semaphore, its value is at most the number
  of threads that have been woken to take it: no wake-up is lost.
\<close>

definition in_loop :: "(addr \<Rightarrow> frame list) \<Rightarrow> addr \<Rightarrow> sref \<Rightarrow> bool" where
  "in_loop F t r \<longleftrightarrow> (case F t of Sema_loop r' l # fs \<Rightarrow> r' = r | _ \<Rightarrow> False)"

definition woken :: "addr set \<Rightarrow> (addr \<Rightarrow> thread_status) \<Rightarrow> (addr \<Rightarrow> frame list) \<Rightarrow> sref \<Rightarrow> addr set" where
  "woken A S F r = {t \<in> A. S t \<noteq> THREAD_BLOCKED \<and> in_loop F t r}"

definition wf_waits :: "addr set \<Rightarrow> addr \<Rightarrow> (addr \<Rightarrow> thread_status) \<Rightarrow> (sref \<Rightarrow> semaphore) \<Rightarrow> (addr \<Rightarrow> frame list) \<Rightarrow> bool" where
  "wf_waits A idle S X F \<longleftrightarrow>
     (\<forall>r. distinct (waiters (X r)) \<and> (\<forall>t\<in>set (waiters (X r)). t \<in> A \<and> t \<noteq> idle \<and> S t = THREAD_BLOCKED \<and> in_loop F t r)) \<and>
     (\<forall>t\<in>A. S t = THREAD_BLOCKED \<longrightarrow> t = idle \<or> (\<exists>r. t \<in> set (waiters (X r)))) \<and>
     (\<forall>r. waiters (X r) \<noteq> [] \<longrightarrow> unat (sema_value (X r)) \<le> card (woken A S F r))"

text \<open>
  A thread owns a lock from the moment it has taken the lock's semaphore in \<^verbatim>\<open>lock_acquire\<close> to
  the moment it gives it back in \<^verbatim>\<open>lock_release\<close>, interrupted or not.
\<close>

definition taken :: "frame list \<Rightarrow> addr \<Rightarrow> bool" where
  "taken fs a \<longleftrightarrow> (case dropWhile (\<lambda>f. f = Iret \<or> (\<exists>l. f = Set_level l)) fs of
       f # _ \<Rightarrow> f = Set_holder a \<or> f = Sema_up (Lock_sema a) | [] \<Rightarrow> False)"

definition owns :: "(addr \<Rightarrow> frame list) \<Rightarrow> (addr \<Rightarrow> addr) \<Rightarrow> addr \<Rightarrow> addr \<Rightarrow> bool" where
  "owns F H t a \<longleftrightarrow> H a = t \<or> taken (F t) a"

definition wf_locks :: "addr set \<Rightarrow> (sref \<Rightarrow> semaphore) \<Rightarrow> (addr \<Rightarrow> frame list) \<Rightarrow> (addr \<Rightarrow> addr) \<Rightarrow> bool" where
  "wf_locks A X F H \<longleftrightarrow> (\<forall>a. H a = NULL \<or> H a \<in> A) \<and>
     (\<forall>a. \<forall>t\<in>A. \<forall>u\<in>A. owns F H t a \<longrightarrow> owns F H u a \<longrightarrow> t = u) \<and>
     (\<forall>a. sema_value (X (Lock_sema a)) = (if \<exists>t\<in>A. owns F H t a then 0 else 1))"

definition wf_system :: "system \<Rightarrow> bool" where
  "wf_system s \<longleftrightarrow> wf_kernel (kern s) \<and> thread_ticks (kern s) < TIME_SLICE \<and> wf_pages (kern s) (pal s) \<and>
     intr_handlers (intr s) 0x20 = Some timer_interrupt \<and>
     (\<forall>t\<in>live (kern s). wf_stack (cur s) (idle_thread (kern s)) (idle_eip s) (holders s) t (frames s t)) \<and>
     wf_top (level (kern s)) (frames s (cur s)) \<and>
     wf_waits (live (kern s)) (idle_thread (kern s)) (stat (kern s)) (sems s) (frames s) \<and>
     wf_locks (live (kern s)) (sems s) (frames s) (holders s)"

section \<open>How the parts of the invariant change\<close>

lemma calm_simps [simp]: "calm []" "calm (f # fs) = quiet f"
  by (simp_all add: calm_def)

lemma quiet_not_resume: "quiet f \<Longrightarrow> \<not> resume_point f"
  by (cases f) auto

lemma taken_skip [simp]: "taken (Set_level l # fs) a = taken fs a" "taken (Iret # fs) a = taken fs a"
  by (simp_all add: taken_def)

lemma taken_frame: "f \<noteq> Iret \<Longrightarrow> (\<And>l. f \<noteq> Set_level l) \<Longrightarrow> taken (f # fs) a \<longleftrightarrow> f = Set_holder a \<or> f = Sema_up (Lock_sema a)"
  by (simp add: taken_def)

lemma taken_Nil [simp]: "\<not> taken [] a"
  by (simp add: taken_def)

lemma taken_calm: "calm fs \<Longrightarrow> \<not> taken fs a"
proof (cases fs)
  case (Cons f gs)
  moreover assume "calm fs"
  ultimately show ?thesis using taken_frame [of f gs a] by (cases f) auto
qed simp

lemma in_loop_upd: "in_loop (F(c := fs)) t r = (if t = c then (\<exists>l gs. fs = Sema_loop r l # gs) else in_loop F t r)"
  by (auto simp: in_loop_def split: list.splits frame.splits)

lemma in_loop_iff: "in_loop F t r \<longleftrightarrow> (\<exists>l gs. F t = Sema_loop r l # gs)"
  by (auto simp: in_loop_def split: list.splits frame.splits)

lemma waits_local:
  assumes "wf_waits A idle S X F" and "\<And>r. in_loop (F(c := fs)) c r = in_loop F c r"
  shows "wf_waits A idle S X (F(c := fs))"
proof -
  have "in_loop (F(c := fs)) t r = in_loop F t r" for t r
    using assms(2) [of r] by (cases "t = c") (simp_all add: in_loop_upd)
  then show ?thesis using assms(1) by (simp add: wf_waits_def woken_def)
qed

lemma waits_sema:
  assumes "wf_waits A idle S X F" and "waiters x = waiters (X r)"
    and "waiters x \<noteq> [] \<Longrightarrow> unat (sema_value x) \<le> card (woken A S F r)"
  shows "wf_waits A idle S (X(r := x)) F"
proof -
  have "waiters ((X(r := x)) q) = waiters (X q)" for q using assms(2) by simp
  then show ?thesis using assms unfolding wf_waits_def by simp
qed

lemma waits_status:
  assumes "wf_waits A idle S X F" and "\<And>t. t \<in> A \<Longrightarrow> t \<noteq> idle \<Longrightarrow> S' t = THREAD_BLOCKED \<longleftrightarrow> S t = THREAD_BLOCKED"
    and "\<And>r. \<not> in_loop F idle r"
  shows "wf_waits A idle S' X F"
proof -
  have "woken A S' F r = woken A S F r" for r
    using assms(2, 3) by (auto simp: woken_def)
  moreover have "\<forall>t\<in>A. t \<noteq> idle \<longrightarrow> (S' t = THREAD_BLOCKED \<longleftrightarrow> S t = THREAD_BLOCKED)"
    using assms(2) by blast
  ultimately show ?thesis using assms(1) unfolding wf_waits_def by metis
qed

lemma locks_local:
  assumes "wf_locks A X F H" and "\<And>a. taken fs a = taken (F c) a"
  shows "wf_locks A X (F(c := fs)) H"
proof -
  have "owns (F(c := fs)) H t a = owns F H t a" for t a
    using assms(2) by (simp add: owns_def)
  then show ?thesis using assms(1) by (simp add: wf_locks_def)
qed

lemma locks_sema:
  assumes "wf_locks A X F H" and "\<And>a. r \<noteq> Lock_sema a"
  shows "wf_locks A (X(r := x)) F H"
proof -
  have "(X(r := x)) (Lock_sema a) = X (Lock_sema a)" for a
    using assms(2) [of a] by auto
  then show ?thesis using assms(1) unfolding wf_locks_def by simp
qed

lemma wf_stack_switch:
  "wf_stack run idle e H t fs \<Longrightarrow> t \<noteq> run \<Longrightarrow> wf_stack run' idle e H t fs"
  by (simp add: wf_stack_def)

lemma wf_top_resume: "wf_stack run idle e H t fs \<Longrightarrow> t \<noteq> run \<Longrightarrow> wf_top INTR_OFF fs"
  by (auto simp: wf_stack_def wf_top_def)

lemma waits_sleep:
  assumes w: "wf_waits A idle S X F" and c: "c \<in> A" "c \<noteq> idle" "S c \<noteq> THREAD_BLOCKED"
    and n: "n \<noteq> c" "n = idle \<or> S n \<noteq> THREAD_BLOCKED" "\<And>r. \<not> in_loop F idle r"
    and x: "waiters x = waiters (X r) @ [c]" "sema_value x = 0"
    and l: "\<And>q. q \<noteq> r \<Longrightarrow> \<not> in_loop F c q"
    and S': "\<And>t. S' t = (if t = n then THREAD_RUNNING else if t = c then THREAD_BLOCKED else S t)"
  shows "wf_waits A idle S' (X(r := x)) (F(c := Sema_loop r l # fs))" (is "wf_waits _ _ _ ?X ?F")
proof -
  have loop: "in_loop ?F t q = (if t = c then q = r else in_loop F t q)" for t q
    by (auto simp: in_loop_upd)
  have old: "S t = THREAD_BLOCKED" "in_loop F t q" "t \<in> A" "t \<noteq> idle" if "t \<in> set (waiters (X q))" for t q
    using w that by (auto simp: wf_waits_def)
  have B: "S' t = THREAD_BLOCKED \<longleftrightarrow> t = c \<or> t \<noteq> n \<and> S t = THREAD_BLOCKED" for t
    using S' n(1) by auto
  have ws: "set (waiters (?X q)) = (if q = r then insert c (set (waiters (X r))) else set (waiters (X q)))" for q
    using x by simp
  have nc: "t \<noteq> c" "t \<noteq> n" if "t \<in> set (waiters (X q))" for t q
    using old [OF that] c(3) n(2) by auto
  have 1: "distinct (waiters (?X q)) \<and> (\<forall>t\<in>set (waiters (?X q)). t \<in> A \<and> t \<noteq> idle \<and> S' t = THREAD_BLOCKED \<and> in_loop ?F t q)" for q
  proof
    show "distinct (waiters (?X q))"
      using w x nc(1) by (auto simp: wf_waits_def)
    show "\<forall>t\<in>set (waiters (?X q)). t \<in> A \<and> t \<noteq> idle \<and> S' t = THREAD_BLOCKED \<and> in_loop ?F t q"
      using old nc c B loop unfolding ws by auto
  qed
  have 2: "t = idle \<or> (\<exists>q. t \<in> set (waiters (?X q)))" if t: "t \<in> A" "S' t = THREAD_BLOCKED" for t
  proof (cases "t = c")
    case True
    then show ?thesis using ws [of r] by auto
  next
    case False
    then have "t = idle \<or> (\<exists>q. t \<in> set (waiters (X q)))" using w t B by (auto simp: wf_waits_def)
    then show ?thesis using ws by (metis insertCI)
  qed
  have 3: "unat (sema_value (?X q)) \<le> card (woken A S' ?F q)" if "waiters (?X q) \<noteq> []" for q
  proof (cases "q = r")
    case False
    then have "woken A S' ?F q = woken A S F q"
      using B loop l n by (auto simp: woken_def)
    then show ?thesis using False w that by (auto simp: wf_waits_def)
  qed (simp add: x)
  show ?thesis unfolding wf_waits_def using 1 2 3 by blast
qed

lemma waits_wake:
  assumes w: "wf_waits A idle S X F" and fin: "finite A" and x: "waiters (X r) = t # ts"
    and y: "y = X r\<lparr>sema_value := sema_value (X r) + 1, waiters := ts\<rparr>"
    and S': "\<And>u. S' u = (if u = t then THREAD_READY else S u)"
  shows "wf_waits A idle S' (X(r := y)) F" (is "wf_waits _ _ _ ?X _")
proof -
  have t: "S t = THREAD_BLOCKED" "in_loop F t r" "t \<in> A" "t \<notin> set ts"
    using w x unfolding wf_waits_def by (metis list.set_intros(1) distinct.simps(2))+
  have ws: "waiters (?X q) = (if q = r then ts else waiters (X q))" for q using y by simp
  have only: "q = r" if "t \<in> set (waiters (X q))" for q
  proof -
    have "in_loop F t q" using w that unfolding wf_waits_def by blast
    then show ?thesis using t(2) by (auto simp: in_loop_iff)
  qed
  have sub: "set (waiters (?X q)) = set (waiters (X q)) - {t}" for q
  proof (cases "q = r")
    case True
    then show ?thesis using x y t(4) by simp
  next
    case False
    then have "t \<notin> set (waiters (X q))" using only by blast
    then show ?thesis using False by (simp add: ws)
  qed
  have 1: "distinct (waiters (?X q)) \<and> (\<forall>u\<in>set (waiters (?X q)). u \<in> A \<and> u \<noteq> idle \<and> S' u = THREAD_BLOCKED \<and> in_loop F u q)" for q
  proof
    have "distinct (waiters (X q))" "distinct (waiters (X r))" using w by (simp_all add: wf_waits_def)
    then show "distinct (waiters (?X q))" using x y by (cases "q = r") simp_all
    have "\<forall>u\<in>set (waiters (X q)). u \<in> A \<and> u \<noteq> idle \<and> S u = THREAD_BLOCKED \<and> in_loop F u q"
      using w by (simp add: wf_waits_def)
    then show "\<forall>u\<in>set (waiters (?X q)). u \<in> A \<and> u \<noteq> idle \<and> S' u = THREAD_BLOCKED \<and> in_loop F u q"
      unfolding sub S' by simp
  qed
  have 2: "u = idle \<or> (\<exists>q. u \<in> set (waiters (?X q)))" if u: "u \<in> A" "S' u = THREAD_BLOCKED" for u
  proof -
    have "u \<noteq> t" "S u = THREAD_BLOCKED" using u S' by (auto split: if_splits)
    then show ?thesis using w u(1) unfolding sub wf_waits_def by blast
  qed
  have 3: "unat (sema_value (?X q)) \<le> card (woken A S' F q)" if "waiters (?X q) \<noteq> []" for q
  proof (cases "q = r")
    case False
    then have "woken A S' F q = woken A S F q"
      using t S' by (auto simp: woken_def in_loop_iff)
    then show ?thesis using False w that by (auto simp: wf_waits_def)
  next
    case True
    have "woken A S' F r = insert t (woken A S F r)" using t S' by (auto simp: woken_def)
    moreover have "t \<notin> woken A S F r" "finite (woken A S F r)" using t fin by (auto simp: woken_def)
    moreover have "unat (sema_value (X r)) \<le> card (woken A S F r)" using w x by (simp add: wf_waits_def)
    moreover have "unat (sema_value (X r) + 1) \<le> unat (sema_value (X r)) + 1" by (simp add: unat_word_ariths)
    ultimately show ?thesis using True y by simp
  qed
  show ?thesis unfolding wf_waits_def using 1 2 3 by blast
qed

lemma waits_take:
  assumes w: "wf_waits A idle S X F" and fin: "finite A" and c: "c \<in> A" "S c \<noteq> THREAD_BLOCKED"
    and l: "F c = Sema_loop r l # fs" "\<And>q l gs. fs \<noteq> Sema_loop q l # gs" and v: "sema_value (X r) \<noteq> 0"
  shows "wf_waits A idle S (X(r := X r\<lparr>sema_value := sema_value (X r) - 1\<rparr>)) (F(c := fs))" (is "wf_waits _ _ _ ?X ?F")
proof -
  have loop: "in_loop ?F t q \<longleftrightarrow> t \<noteq> c \<and> in_loop F t q" for t q
    using l(2) by (auto simp: in_loop_upd)
  have ws: "waiters (?X q) = waiters (X q)" for q by simp
  have nc: "c \<notin> set (waiters (X q))" for q using w c by (auto simp: wf_waits_def)
  have "unat (sema_value (?X q)) \<le> card (woken A S ?F q)" if "waiters (?X q) \<noteq> []" for q
  proof (cases "q = r")
    case False
    then have "woken A S ?F q = woken A S F q" using loop l by (auto simp: woken_def in_loop_iff)
    then show ?thesis using False w that by (auto simp: wf_waits_def)
  next
    case True
    have "woken A S ?F r = woken A S F r - {c}" using loop by (auto simp: woken_def)
    moreover have "c \<in> woken A S F r" "finite (woken A S F r)"
      using c l(1) fin by (auto simp: woken_def in_loop_iff)
    moreover have "unat (sema_value (X r)) \<le> card (woken A S F r)" using w that True by (simp add: wf_waits_def)
    moreover have "unat (sema_value (X r) - 1) = unat (sema_value (X r)) - 1" using v by (simp add: unat_minus_one)
    ultimately show ?thesis using True by (simp add: card_Diff_singleton)
  qed
  then show ?thesis
    using w nc unfolding wf_waits_def ws loop by blast
qed

lemma locks_unique: "wf_locks A X F H \<Longrightarrow> t \<in> A \<Longrightarrow> u \<in> A \<Longrightarrow> owns F H t a \<Longrightarrow> owns F H u a \<Longrightarrow> t = u"
  by (simp add: wf_locks_def)

lemma locks_value: "wf_locks A X F H \<Longrightarrow> sema_value (X (Lock_sema a)) = (if \<exists>t\<in>A. owns F H t a then 0 else 1)"
  by (simp only: wf_locks_def)

lemma locks_owns:
  assumes "wf_locks A X F H" and "\<And>t a. t \<in> A \<Longrightarrow> owns F' H' t a = owns F H t a"
    and "\<And>a. H' a = NULL \<or> H' a \<in> A"
  shows "wf_locks A X F' H'"
  using assms unfolding wf_locks_def by simp

lemma locks_hold:
  assumes w: "wf_locks A X F H" and c: "c \<in> A" and F: "\<And>b. taken (F c) b \<longleftrightarrow> b = a" "\<And>b. \<not> taken fs b"
  shows "wf_locks A X (F(c := fs)) (H(a := c))"
proof (rule locks_owns [OF w])
  fix t b
  assume t: "t \<in> A"
  have "owns F H c a" using F(1) by (simp add: owns_def)
  then have "owns F H t a \<longleftrightarrow> t = c" using locks_unique [OF w t c] by blast
  then show "owns (F(c := fs)) (H(a := c)) t b = owns F H t b"
    using F by (auto simp: owns_def)
next
  show "(H(a := c)) b = NULL \<or> (H(a := c)) b \<in> A" for b
    using w c by (simp add: wf_locks_def)
qed

lemma locks_unhold:
  assumes w: "wf_locks A X F H" and c: "c \<in> A" "H a = c" "NULL \<notin> A"
    and F: "\<And>b. \<not> taken (F c) b" "\<And>b. taken fs b \<longleftrightarrow> b = a"
  shows "wf_locks A X (F(c := fs)) (H(a := NULL))"
proof (rule locks_owns [OF w])
  fix t b
  assume t: "t \<in> A"
  then have "t \<noteq> NULL" using c(3) by auto
  then show "owns (F(c := fs)) (H(a := NULL)) t b = owns F H t b"
    using F c(2) by (auto simp: owns_def)
next
  show "(H(a := NULL)) b = NULL \<or> (H(a := NULL)) b \<in> A" for b
    using w by (simp add: wf_locks_def)
qed

lemma locks_take:
  assumes w: "wf_locks A X F H" and c: "c \<in> A" and v: "sema_value (X (Lock_sema a)) \<noteq> 0"
    and F: "\<And>b. \<not> taken (F c) b" "\<And>b. taken fs b \<longleftrightarrow> b = a"
    and x: "sema_value x = sema_value (X (Lock_sema a)) - 1"
  shows "wf_locks A (X(Lock_sema a := x)) (F(c := fs)) H"
proof -
  have none: "\<not> owns F H t a" if "t \<in> A" for t using locks_value [OF w, of a] v that by (auto split: if_splits)
  have one: "sema_value (X (Lock_sema a)) = 1" using locks_value [OF w, of a] v by (simp split: if_splits)
  have o: "owns (F(c := fs)) H t b \<longleftrightarrow> (if b = a then t = c else owns F H t b)" if "t \<in> A" for t b
    using none [OF that] F by (auto simp: owns_def)
  show ?thesis unfolding wf_locks_def
  proof (intro conjI allI ballI impI)
    show "H b = NULL \<or> H b \<in> A" for b using w by (simp add: wf_locks_def)
    show "t = u" if "t \<in> A" "u \<in> A" "owns (F(c := fs)) H t b" "owns (F(c := fs)) H u b" for b t u
      using that o [of t b] o [of u b] locks_unique [OF w that(1, 2), of b] by (simp split: if_splits)
    show "sema_value ((X(Lock_sema a := x)) (Lock_sema b)) = (if \<exists>t\<in>A. owns (F(c := fs)) H t b then 0 else 1)" for b
    proof (cases "b = a")
      case True
      then show ?thesis using o c one x by auto
    next
      case False
      then show ?thesis using o locks_value [OF w, of b] by simp
    qed
  qed
qed

lemma locks_give:
  assumes w: "wf_locks A X F H" and c: "c \<in> A" "H a \<noteq> c"
    and F: "\<And>b. taken (F c) b \<longleftrightarrow> b = a" "\<And>b. \<not> taken fs b"
    and x: "sema_value x = sema_value (X (Lock_sema a)) + 1"
  shows "wf_locks A (X(Lock_sema a := x)) (F(c := fs)) H"
proof -
  have oc: "owns F H c a" using F(1) by (simp add: owns_def)
  then have one: "t = c" if "t \<in> A" "owns F H t a" for t using locks_unique [OF w that(1) c(1) that(2)] by blast
  have zero: "sema_value (X (Lock_sema a)) = 0" using locks_value [OF w, of a] oc c(1) by auto
  have o: "owns (F(c := fs)) H t b \<longleftrightarrow> (if b = a then False else owns F H t b)" if "t \<in> A" for t b
  proof (cases "t = c")
    case False
    then have "\<not> owns F H t a" using one [OF that] by blast
    then show ?thesis using False by (simp add: owns_def)
  qed (use F c(2) in \<open>auto simp: owns_def\<close>)
  show ?thesis unfolding wf_locks_def
  proof (intro conjI allI ballI impI)
    show "H b = NULL \<or> H b \<in> A" for b using w by (simp add: wf_locks_def)
    show "t = u" if "t \<in> A" "u \<in> A" "owns (F(c := fs)) H t b" "owns (F(c := fs)) H u b" for b t u
      using that o [of t b] o [of u b] locks_unique [OF w that(1, 2), of b] by (simp split: if_splits)
    show "sema_value ((X(Lock_sema a := x)) (Lock_sema b)) = (if \<exists>t\<in>A. owns (F(c := fs)) H t b then 0 else 1)" for b
    proof (cases "b = a")
      case True
      then show ?thesis using o zero x by simp
    next
      case False
      then show ?thesis using o locks_value [OF w, of b] by simp
    qed
  qed
qed

section \<open>Frames that keep the processor\<close>

lemma level_same [simp]: "k\<lparr>level := level k\<rparr> = (k :: kernel)"
  by (cases k) simp

lemma goto_simps [simp]:
  "kern (goto fs s) = kern s" "pal (goto fs s) = pal s" "intr (goto fs s) = intr s" "tmr (goto fs s) = tmr s"
  "sems (goto fs s) = sems s" "holders (goto fs s) = holders s" "conds (goto fs s) = conds s"
  "frames (goto fs s) = (frames s)(cur s := fs)" "idle_eip (goto fs s) = idle_eip s"
  by (simp_all add: goto_def)

lemma wf_system_kernel:
  assumes "wf_system s"
  shows "wf_kernel (kern s)" "runs (kern s)" "cur s \<in> live (kern s)" "NULL \<notin> live (kern s)"
    "stat (kern s) (cur s) = THREAD_RUNNING" "\<not> in_loop (frames s) (idle_thread (kern s)) r"
    "wf_waits (live (kern s)) (idle_thread (kern s)) (stat (kern s)) (sems s) (frames s)"
    "wf_locks (live (kern s)) (sems s) (frames s) (holders s)" "idle_thread (kern s) \<in> live (kern s)"
    "\<not> intr_context (kern s)"
proof -
  show k: "wf_kernel (kern s)" using assms by (simp add: wf_system_def)
  show "runs (kern s)" using k by (rule wf_kernel_runs)
  then show "\<not> intr_context (kern s)" by (simp add: runs_def)
  show "cur s \<in> live (kern s)" using k by (simp add: wf_kernel_def)
  then show "stat (kern s) (cur s) = THREAD_RUNNING" using k by (simp add: wf_kernel_def)
  show "NULL \<notin> live (kern s)" using k by (auto simp: wf_kernel_def queued_def is_thread_def)
  show i: "idle_thread (kern s) \<in> live (kern s)" using k by (simp add: wf_kernel_def queued_def)
  have "frames s (idle_thread (kern s)) \<in> idle_stacks" using assms i by (auto simp: wf_system_def wf_stack_def)
  then show "\<not> in_loop (frames s) (idle_thread (kern s)) r" by (auto simp: idle_stacks_def in_loop_def)
qed (use assms in \<open>simp_all add: wf_system_def\<close>)

lemma wf_system_frame:
  assumes "wf_system s" and "frames s (cur s) = f # fs"
  shows "linked fs" "follows f fs" "resume_point f \<Longrightarrow> level (kern s) = INTR_OFF"
    "cur s = idle_thread (kern s) \<Longrightarrow> f # fs \<in> idle_stacks"
    "cur s \<noteq> idle_thread (kern s) \<Longrightarrow> demands (cur s) (idle_eip s) (\<lambda>a. holders s a = cur s) f"
    "cur s \<noteq> idle_thread (kern s) \<Longrightarrow> safe (cur s) (idle_eip s) (holding (\<lambda>a. holders s a = cur s) f) fs"
proof -
  have st: "wf_stack (cur s) (idle_thread (kern s)) (idle_eip s) (holders s) (cur s) (f # fs)"
    using assms wf_system_kernel(3) [OF assms(1)] unfolding wf_system_def by metis
  show "linked fs" "follows f fs" "cur s = idle_thread (kern s) \<Longrightarrow> f # fs \<in> idle_stacks"
    "cur s \<noteq> idle_thread (kern s) \<Longrightarrow> demands (cur s) (idle_eip s) (\<lambda>a. holders s a = cur s) f"
    "cur s \<noteq> idle_thread (kern s) \<Longrightarrow> safe (cur s) (idle_eip s) (holding (\<lambda>a. holders s a = cur s) f) fs"
    using st by (auto simp: wf_stack_def)
  show "resume_point f \<Longrightarrow> level (kern s) = INTR_OFF"
    using assms by (simp add: wf_system_def wf_top_def)
qed

lemma wf_stay:
  assumes s: "wf_system s"
    and k': "wf_kernel (kern s')" "running (kern s') = cur s" "all_list (kern s') = all_list (kern s)"
      "idle_thread (kern s') = idle_thread (kern s)" "initial_thread (kern s') = initial_thread (kern s)"
      "thread_ticks (kern s') < TIME_SLICE"
    and s': "pal s' = pal s" "intr_handlers (intr s') = intr_handlers (intr s)" "idle_eip s' = idle_eip s"
      "frames s' = (frames s)(cur s := gs)"
    and H: "\<And>t a. t \<in> live (kern s) \<Longrightarrow> t \<noteq> cur s \<Longrightarrow> holders s' a = t \<longleftrightarrow> holders s a = t"
    and gs: "linked gs" "if cur s = idle_thread (kern s) then gs \<in> idle_stacks else safe (cur s) (idle_eip s) (\<lambda>a. holders s' a = cur s) gs"
      "wf_top (level (kern s')) gs"
    and waits: "wf_waits (live (kern s)) (idle_thread (kern s)) (stat (kern s')) (sems s') (frames s')"
    and locks: "wf_locks (live (kern s)) (sems s') (frames s') (holders s')"
  shows "wf_system s'"
proof -
  have "wf_stack (cur s) (idle_thread (kern s)) (idle_eip s) (holders s') t (frames s' t)" if t: "t \<in> live (kern s)" for t
  proof (cases "t = cur s")
    case True
    then show ?thesis using gs(1, 2) s'(4) by (auto simp: wf_stack_def)
  next
    case False
    have "wf_stack (cur s) (idle_thread (kern s)) (idle_eip s) (holders s) t (frames s t)"
      using s t by (simp add: wf_system_def)
    then show ?thesis using False s'(4) H [OF t False] by (auto simp: wf_stack_def split: if_splits)
  qed
  moreover have "wf_pages (kern s') (pal s')"
    using s s'(1) k'(3, 5) by (simp add: wf_system_def wf_pages_def)
  ultimately show ?thesis
    using s k' s' gs(3) waits locks unfolding wf_system_def by simp
qed

lemma wf_local:
  assumes s: "wf_system s"
    and s': "kern s' = (kern s)\<lparr>level := l\<rparr>" "pal s' = pal s" "intr s' = intr s" "idle_eip s' = idle_eip s"
      "frames s' = (frames s)(cur s := gs)"
    and H: "\<And>t a. t \<in> live (kern s) \<Longrightarrow> t \<noteq> cur s \<Longrightarrow> holders s' a = t \<longleftrightarrow> holders s a = t"
    and gs: "linked gs" "if cur s = idle_thread (kern s) then gs \<in> idle_stacks else safe (cur s) (idle_eip s) (\<lambda>a. holders s' a = cur s) gs"
      "wf_top l gs"
    and waits: "wf_waits (live (kern s)) (idle_thread (kern s)) (stat (kern s)) (sems s') (frames s')"
    and locks: "wf_locks (live (kern s)) (sems s') (frames s') (holders s')"
  shows "wf_system s'"
  by (rule wf_stay [OF s, where gs = gs]) (use assms in \<open>simp_all add: wf_system_def\<close>)

lemma wf_top_calm: "calm fs \<Longrightarrow> wf_top l fs"
  by (auto simp: wf_top_def calm_def split: list.splits dest: quiet_not_resume)

end
