(* ===== verification/Scheduler_Steps.thy ===== *)
theory Scheduler_Steps
  imports Scheduler_Inv
begin

section \<open>Frames that use no semaphore\<close>

text \<open>Every frame executes without failing and keeps the invariant: one lemma for each.\<close>

lemma runs_not_intr [simp]: "runs k \<Longrightarrow> \<not> intr_context k"
  by (simp add: runs_def)

lemma lock_held_runs: "runs k \<Longrightarrow> lock_held_by_current_thread k l = ret (holder l = running k)"
  by (simp add: lock_held_by_current_thread_def)

lemma holder_at [simp]: "holder (lock_at s a) = holders s a"
  by (simp add: lock_at_def)

lemma set_level_eq: "\<not> intr_context k \<Longrightarrow> intr_set_level l k = ret (level k, k\<lparr>level := l\<rparr>)"
  by (cases l) (simp_all add: intr_set_level_def intr_enable_def intr_disable_def intr_get_level_def)

lemma not_idle:
  assumes "wf_system s" "frames s (cur s) = f # fs" "f \<notin> {Idle_hlt, Idle_block, Iret}" "\<And>l. f \<noteq> Set_level l"
  shows "cur s \<noteq> idle_thread (kern s)"
  using wf_system_frame(4) [OF assms(1, 2)] assms(3, 4) by (auto simp: idle_stacks_def)

text \<open>Frames that touch neither semaphores nor holders.\<close>

lemma wf_neutral:
  assumes s: "wf_system s" and f: "frames s (cur s) = f # fs"
    and s': "kern s' = (kern s)\<lparr>level := l\<rparr>" "pal s' = pal s" "intr s' = intr s" "idle_eip s' = idle_eip s"
      "frames s' = (frames s)(cur s := gs)" "sems s' = sems s" "holders s' = holders s"
    and gs: "linked gs" "if cur s = idle_thread (kern s) then gs \<in> idle_stacks else safe (cur s) (idle_eip s) (\<lambda>a. holders s a = cur s) gs"
      "wf_top l gs" "\<And>a. taken gs a = taken (f # fs) a"
    and loop: "\<And>r k. f \<noteq> Sema_loop r k" "\<And>r k hs. gs \<noteq> Sema_loop r k # hs"
  shows "wf_system s'"
proof (rule wf_local [OF s s'(1-5)])
  show "wf_waits (live (kern s)) (idle_thread (kern s)) (stat (kern s)) (sems s') (frames s')"
    unfolding s' using wf_system_kernel(7) [OF s] by (rule waits_local) (simp add: in_loop_upd in_loop_iff f loop)
  show "wf_locks (live (kern s)) (sems s') (frames s') (holders s')"
    unfolding s' using wf_system_kernel(8) [OF s] by (rule locks_local) (simp add: f gs(4))
qed (use gs s' in simp_all)

lemma calm_not_loop: "calm fs \<Longrightarrow> fs \<noteq> Sema_loop r l # gs"
  by auto

lemmas calm_facts = taken_calm wf_top_calm calm_not_loop

lemma exec_lock_acquire_wf:
  assumes s: "wf_system s" and f: "frames s (cur s) = Lock_acquire a # fs"
  shows "returns (exec_lock_acquire a fs s) wf_system"
proof -
  have i: "cur s \<noteq> idle_thread (kern s)" using not_idle [OF s f] by simp
  note fr = wf_system_frame [OF s f]
  have "wf_system (goto (Sema_down (Lock_sema a) # Set_holder a # fs) s)"
    by (rule wf_neutral [OF s f, where l = "level (kern s)" and gs = "Sema_down (Lock_sema a) # Set_holder a # fs"])
      (use fr i in \<open>simp_all add: taken_frame wf_top_def\<close>)
  then show ?thesis
    using fr(5) i wf_system_kernel(2) [OF s] by (simp add: exec_lock_acquire_def lock_held_runs)
qed

lemma exec_cond_signal_wf:
  assumes s: "wf_system s" and f: "frames s (cur s) = Cond_signal c a # fs"
  shows "returns (exec_cond_signal c a fs s) wf_system"
proof -
  have i: "cur s \<noteq> idle_thread (kern s)" using not_idle [OF s f] by simp
  note fr = wf_system_frame [OF s f]
  have 1: "wf_system (goto fs s)"
    by (rule wf_neutral [OF s f, where l = "level (kern s)" and gs = "fs"])
      (use fr i in \<open>simp_all add: taken_frame calm_facts\<close>)
  have 2: "wf_system ((goto (Sema_up (Waiter w) # fs) s)\<lparr>conds := c'\<rparr>)" for w c'
    by (rule wf_neutral [OF s f, where l = "level (kern s)" and gs = "Sema_up (Waiter w) # fs"])
      (use fr i in \<open>simp_all add: taken_frame wf_top_def\<close>)
  show ?thesis
    using fr(5) i wf_system_kernel(2) [OF s] 1 2
    by (simp add: exec_cond_signal_def lock_held_runs split: list.split)
qed

lemma exec_cond_broadcast_wf:
  assumes s: "wf_system s" and f: "frames s (cur s) = Cond_broadcast c a # fs"
  shows "returns (exec_cond_broadcast c a fs s) wf_system"
proof -
  have i: "cur s \<noteq> idle_thread (kern s)" using not_idle [OF s f] by simp
  note fr = wf_system_frame [OF s f]
  have 1: "wf_system (goto fs s)"
    by (rule wf_neutral [OF s f, where l = "level (kern s)" and gs = "fs"])
      (use fr i in \<open>simp_all add: taken_frame calm_facts\<close>)
  have 2: "wf_system (goto (Cond_signal c a # Cond_broadcast c a # fs) s)"
    by (rule wf_neutral [OF s f, where l = "level (kern s)" and gs = "Cond_signal c a # Cond_broadcast c a # fs"])
      (use fr i in \<open>simp_all add: taken_frame wf_top_def\<close>)
  show ?thesis using 1 2 by (simp add: exec_cond_broadcast_def)
qed

lemma exec_intr_set_level_wf:
  assumes s: "wf_system s" and f: "frames s (cur s) = Intr_set_level l # fs"
  shows "returns (exec_intr_set_level l fs s) wf_system"
proof -
  have i: "cur s \<noteq> idle_thread (kern s)" using not_idle [OF s f] by simp
  note fr = wf_system_frame [OF s f]
  have "wf_system ((goto fs s)\<lparr>kern := (kern s)\<lparr>level := l\<rparr>\<rparr>)"
    by (rule wf_neutral [OF s f, where l = l and gs = fs]) (use fr i in \<open>simp_all add: taken_frame calm_facts\<close>)
  then show ?thesis
    using wf_system_kernel(10) [OF s] by (simp add: exec_intr_set_level_def set_level_eq)
qed

lemma exec_set_level_wf:
  assumes s: "wf_system s" and f: "frames s (cur s) = Set_level l # fs"
  shows "returns (exec_intr_set_level l fs s) wf_system"
proof -
  note fr = wf_system_frame [OF s f]
  have "wf_system ((goto fs s)\<lparr>kern := (kern s)\<lparr>level := l\<rparr>\<rparr>)"
  proof (rule wf_neutral [OF s f, where l = l and gs = fs])
    show "wf_top l fs" "fs \<noteq> Sema_loop r k # hs" for r k hs
      using fr(2) wf_top_calm [of fs l] by (auto simp: wf_top_def [of _ "Iret # _"])
    show "if cur s = idle_thread (kern s) then fs \<in> idle_stacks else safe (cur s) (idle_eip s) (\<lambda>a. holders s a = cur s) fs"
      using fr(4, 6) by (auto simp: idle_stacks_def)
  qed (use fr(1) in simp_all)
  then show ?thesis
    using wf_system_kernel(10) [OF s] by (simp add: exec_intr_set_level_def set_level_eq)
qed

lemma exec_iret_wf:
  assumes s: "wf_system s" and f: "frames s (cur s) = Iret # fs"
  shows "returns (exec_iret fs s) wf_system"
proof -
  note fr = wf_system_frame [OF s f]
  have "wf_system ((goto fs s)\<lparr>kern := (kern s)\<lparr>level := INTR_ON\<rparr>\<rparr>)"
  proof (rule wf_neutral [OF s f, where l = INTR_ON and gs = fs])
    show "wf_top INTR_ON fs" "fs \<noteq> Sema_loop r k # hs" for r k hs
      using fr(2) by (auto simp: wf_top_def split: list.splits)
    show "if cur s = idle_thread (kern s) then fs \<in> idle_stacks else safe (cur s) (idle_eip s) (\<lambda>a. holders s a = cur s) fs"
      using fr(4, 6) by (auto simp: idle_stacks_def)
  qed (use fr(1) in simp_all)
  then show ?thesis by (simp add: exec_iret_def)
qed

lemma exec_idle_hlt_wf:
  assumes s: "wf_system s" and f: "frames s (cur s) = Idle_hlt # fs"
  shows "returns (exec_idle_hlt fs s) wf_system"
proof -
  note fr = wf_system_frame [OF s f]
  have i: "cur s = idle_thread (kern s)" using fr(5) by auto
  then have "fs = []" using fr(4) by (simp add: idle_stacks_def)
  then have "wf_system ((goto (Idle_block # fs) s)\<lparr>kern := (kern s)\<lparr>level := INTR_ON\<rparr>\<rparr>)"
    by (intro wf_neutral [OF s f, where l = INTR_ON and gs = "Idle_block # fs"])
      (use i in \<open>simp_all add: taken_frame idle_stacks_def wf_top_def\<close>)
  then show ?thesis by (simp add: exec_idle_hlt_def)
qed

lemma exec_kernel_thread_wf:
  assumes s: "wf_system s" and f: "frames s (cur s) = Kernel_thread function aux # fs"
  shows "returns (exec_kernel_thread function aux fs s) wf_system"
proof -
  have i: "cur s \<noteq> idle_thread (kern s)" using not_idle [OF s f] by simp
  note fr = wf_system_frame [OF s f]
  have "wf_system ((goto fs s)\<lparr>kern := (kern s)\<lparr>level := INTR_ON\<rparr>\<rparr>)"
    by (rule wf_neutral [OF s f, where l = INTR_ON and gs = fs]) (use fr i in \<open>simp_all add: taken_frame calm_facts\<close>)
  then show ?thesis
    using fr(5) i wf_system_kernel(10) [OF s] by (simp add: exec_kernel_thread_def intr_enable_def)
qed

lemma timer_ticks_eq: "\<not> intr_context k \<Longrightarrow> timer_ticks k d = ret (ticks d, k)"
  by (simp add: timer_ticks_def intr_disable_def intr_get_level_def Let_def)

lemma exec_timer_sleep_wf:
  assumes s: "wf_system s" and f: "frames s (cur s) = Timer_sleep n # fs"
  shows "returns (exec_timer_sleep n fs s) wf_system"
proof -
  have i: "cur s \<noteq> idle_thread (kern s)" using not_idle [OF s f] by simp
  note fr = wf_system_frame [OF s f]
  have l: "level (kern s) = INTR_ON" using s f by (simp add: wf_system_def wf_top_def)
  have "wf_system (goto (Timer_wait st n # fs) s)" for st
    by (rule wf_neutral [OF s f, where l = "level (kern s)" and gs = "Timer_wait st n # fs"])
      (use fr i in \<open>simp_all add: taken_frame wf_top_def\<close>)
  then show ?thesis
    using wf_system_kernel(10) [OF s] l by (simp add: exec_timer_sleep_def timer_ticks_eq intr_get_level_def goto_def)
qed

lemma exec_timer_wait_wf:
  assumes s: "wf_system s" and f: "frames s (cur s) = Timer_wait st n # fs"
  shows "returns (exec_timer_wait st n fs s) wf_system"
proof -
  have i: "cur s \<noteq> idle_thread (kern s)" using not_idle [OF s f] by simp
  note fr = wf_system_frame [OF s f]
  have 1: "wf_system (goto (Thread_yield # Timer_wait st n # fs) s)"
    by (rule wf_neutral [OF s f, where l = "level (kern s)" and gs = "Thread_yield # Timer_wait st n # fs"])
      (use fr i in \<open>simp_all add: taken_frame wf_top_def\<close>)
  have 2: "wf_system (goto fs s)"
    by (rule wf_neutral [OF s f, where l = "level (kern s)" and gs = fs])
      (use fr i in \<open>simp_all add: taken_frame calm_facts\<close>)
  show ?thesis
    using wf_system_kernel(10) [OF s] 1 2 by (simp add: exec_timer_wait_def timer_elapsed_def timer_ticks_eq goto_def)
qed

section \<open>Locks and condition variables\<close>

lemma exec_set_holder_wf:
  assumes s: "wf_system s" and f: "frames s (cur s) = Set_holder a # fs"
  shows "returns (exec_set_holder a fs s) wf_system"
proof -
  have i: "cur s \<noteq> idle_thread (kern s)" using not_idle [OF s f] by simp
  note fr = wf_system_frame [OF s f] and k = wf_system_kernel [OF s]
  let ?s = "(goto fs s)\<lparr>holders := (holders s)(a := cur s)\<rparr>"
  have c: "calm fs" using fr(2) by simp
  have h: "holding (\<lambda>b. holders s b = cur s) (Set_holder a) = (\<lambda>b. ((holders s)(a := cur s)) b = cur s)" by auto
  have free: "holders s a \<noteq> t" if t: "t \<in> live (kern s)" "t \<noteq> cur s" for t
    using locks_unique [OF k(8) t(1) k(3), of a] t(2) f by (auto simp: owns_def taken_frame)
  have "wf_system ?s"
  proof (rule wf_local [OF s, where l = "level (kern s)" and gs = fs])
    show "(holders ?s b = t) = (holders s b = t)" if "t \<in> live (kern s)" "t \<noteq> cur s" for t b
      using that free by auto
    show "wf_waits (live (kern s)) (idle_thread (kern s)) (stat (kern s)) (sems ?s) (frames ?s)"
      using waits_local [OF k(7), of "cur s" fs] f c by (simp add: in_loop_upd in_loop_iff calm_not_loop)
    show "wf_locks (live (kern s)) (sems ?s) (frames ?s) (holders ?s)"
      using locks_hold [OF k(8, 3), of a fs] f c by (auto simp: taken_frame taken_calm)
    show "if cur s = idle_thread (kern s) then fs \<in> idle_stacks else safe (cur s) (idle_eip s) (\<lambda>a. holders ?s a = cur s) fs"
      using fr(6) i unfolding h by simp
  qed (use fr(1) c in \<open>simp_all add: wf_top_calm\<close>)
  then show ?thesis using k(2) by (simp add: exec_set_holder_def)
qed

lemma exec_lock_release_wf:
  assumes s: "wf_system s" and f: "frames s (cur s) = Lock_release a # fs"
  shows "returns (exec_lock_release a fs s) wf_system"
proof -
  have i: "cur s \<noteq> idle_thread (kern s)" using not_idle [OF s f] by simp
  note fr = wf_system_frame [OF s f] and k = wf_system_kernel [OF s]
  let ?gs = "Sema_up (Lock_sema a) # fs"
  let ?s = "(goto ?gs s)\<lparr>holders := (holders s)(a := NULL)\<rparr>"
  have held: "holders s a = cur s" using fr(5) i by simp
  have n: "cur s \<noteq> NULL" using k(3, 4) by auto
  have h: "holding (\<lambda>b. holders s b = cur s) (Lock_release a) = (\<lambda>b. ((holders s)(a := NULL)) b = cur s)"
    using n by auto
  have "wf_system ?s"
  proof (rule wf_local [OF s, where l = "level (kern s)" and gs = ?gs])
    show "(holders ?s b = t) = (holders s b = t)" if "t \<in> live (kern s)" "t \<noteq> cur s" for t b
      using that held k(4) by auto
    show "wf_waits (live (kern s)) (idle_thread (kern s)) (stat (kern s)) (sems ?s) (frames ?s)"
      using waits_local [OF k(7), of "cur s" ?gs] f by (simp add: in_loop_upd in_loop_iff)
    show "wf_locks (live (kern s)) (sems ?s) (frames ?s) (holders ?s)"
      using locks_unhold [OF k(8, 3) held k(4), of ?gs] f by (auto simp: taken_frame)
    show "if cur s = idle_thread (kern s) then ?gs \<in> idle_stacks else safe (cur s) (idle_eip s) (\<lambda>a. holders ?s a = cur s) ?gs"
      using fr(6) i n unfolding h by simp
  qed (use fr in \<open>simp_all add: wf_top_def\<close>)
  then show ?thesis using k(2) held by (simp add: exec_lock_release_def lock_held_runs)
qed

lemma waiter_empty:
  assumes s: "wf_system s"
  shows "waiters (sems s (Waiter (cur s))) = []"
proof (rule ccontr)
  assume "waiters (sems s (Waiter (cur s))) \<noteq> []"
  then obtain t where t: "t \<in> set (waiters (sems s (Waiter (cur s))))" by (meson list.set_sel(1))
  have w: "t \<in> live (kern s)" "t \<noteq> idle_thread (kern s)" "stat (kern s) t = THREAD_BLOCKED" "in_loop (frames s) t (Waiter (cur s))"
    using wf_system_kernel(7) [OF s] t by (auto simp: wf_waits_def)
  then obtain l fs where "frames s t = Sema_loop (Waiter (cur s)) l # fs" by (auto simp: in_loop_iff)
  moreover have "wf_stack (cur s) (idle_thread (kern s)) (idle_eip s) (holders s) t (frames s t)"
    using s w(1) by (simp add: wf_system_def)
  ultimately have "t = cur s" using w(2) by (simp add: wf_stack_def)
  then show False using w(3) wf_system_kernel(5) [OF s] by simp
qed

lemma exec_cond_wait_wf:
  assumes s: "wf_system s" and f: "frames s (cur s) = Cond_wait c a # fs"
  shows "returns (exec_cond_wait c a fs s) wf_system"
proof -
  have i: "cur s \<noteq> idle_thread (kern s)" using not_idle [OF s f] by simp
  note fr = wf_system_frame [OF s f] and k = wf_system_kernel [OF s]
  let ?gs = "Lock_release a # Sema_down (Waiter (cur s)) # Lock_acquire a # fs"
  let ?s = "(goto ?gs s)\<lparr>sems := (sems s)(Waiter (cur s) := sema_init 0), conds := (conds s)(c := conds s c @ [cur s])\<rparr>"
  have held: "holders s a = cur s" using fr(5) i by simp
  have h: "(\<lambda>b. holders s b = cur s)(a := True) = (\<lambda>b. holders s b = cur s)"
    using held by (auto simp: fun_eq_iff)
  have "wf_system ?s"
  proof (rule wf_local [OF s, where l = "level (kern s)" and gs = ?gs])
    have "wf_waits (live (kern s)) (idle_thread (kern s)) (stat (kern s)) (sems s) ((frames s)(cur s := ?gs))"
      using waits_local [OF k(7), of "cur s" ?gs] f by (simp add: in_loop_upd in_loop_iff)
    then show "wf_waits (live (kern s)) (idle_thread (kern s)) (stat (kern s)) (sems ?s) (frames ?s)"
      using waiter_empty [OF s] by (simp add: waits_sema sema_init_def)
    show "wf_locks (live (kern s)) (sems ?s) (frames ?s) (holders ?s)"
      using locks_sema [OF locks_local [OF k(8), of ?gs "cur s"], of "Waiter (cur s)"] f by (simp add: taken_frame)
    show "if cur s = idle_thread (kern s) then ?gs \<in> idle_stacks else safe (cur s) (idle_eip s) (\<lambda>a. holders ?s a = cur s) ?gs"
      using fr(6) i held h by simp
  qed (use fr in \<open>simp_all add: wf_top_def\<close>)
  then show ?thesis using k(2) held by (simp add: exec_cond_wait_def lock_held_runs Let_def)
qed

section \<open>Semaphores\<close>

text \<open>A thread takes a semaphore without sleeping.\<close>

lemma wf_sema_taken:
  assumes s: "wf_system s" and f: "frames s (cur s) = f # fs" and i: "cur s \<noteq> idle_thread (kern s)"
    and v: "sema_value (sems s r) \<noteq> 0" and nt: "\<And>a. \<not> taken (f # fs) a" "\<And>r l. f \<noteq> Sema_loop r l"
    and s': "s' = (goto gs s)\<lparr>sems := (sems s)(r := sems s r\<lparr>sema_value := sema_value (sems s r) - 1\<rparr>)\<rparr>"
    and gs: "linked gs" "safe (cur s) (idle_eip s) (\<lambda>a. holders s a = cur s) gs" "wf_top (level (kern s)) gs"
      "\<And>q l hs. gs \<noteq> Sema_loop q l # hs" "\<And>a. taken gs a \<longleftrightarrow> r = Lock_sema a"
  shows "wf_system s'"
proof (rule wf_local [OF s, where l = "level (kern s)" and gs = gs])
  note k = wf_system_kernel [OF s]
  let ?x = "sems s r\<lparr>sema_value := sema_value (sems s r) - 1\<rparr>"
  have "wf_waits (live (kern s)) (idle_thread (kern s)) (stat (kern s)) ((sems s)(r := ?x)) (frames s)"
  proof (rule waits_sema [OF k(7)])
    assume "waiters ?x \<noteq> []"
    then have "unat (sema_value (sems s r)) \<le> card (woken (live (kern s)) (stat (kern s)) (frames s) r)"
      using k(7) by (simp add: wf_waits_def)
    moreover have "unat (sema_value (sems s r) - 1) \<le> unat (sema_value (sems s r))"
      using v by (simp add: unat_minus_one)
    ultimately show "unat (sema_value ?x) \<le> card (woken (live (kern s)) (stat (kern s)) (frames s) r)" by simp
  qed simp
  then show "wf_waits (live (kern s)) (idle_thread (kern s)) (stat (kern s)) (sems s') (frames s')"
    unfolding s' using waits_local [of _ _ _ _ "frames s" "cur s" gs] f gs(4) nt(2) by (simp add: in_loop_upd in_loop_iff)
  show "wf_locks (live (kern s)) (sems s') (frames s') (holders s')"
  proof (cases r)
    case (Lock_sema a)
    then show ?thesis
      using locks_take [OF k(8, 3), of a gs ?x] v f nt(1) gs(5) unfolding s' by auto
  next
    case (Sema a)
    then show ?thesis
      using locks_sema [OF locks_local [OF k(8), of gs "cur s"], of r ?x] f nt(1) gs(5) unfolding s' by simp
  next
    case (Waiter a)
    then show ?thesis
      using locks_sema [OF locks_local [OF k(8), of gs "cur s"], of r ?x] f nt(1) gs(5) unfolding s' by simp
  qed
qed (use gs i in \<open>simp_all add: s'\<close>)

lemma follows_down:
  assumes "follows (Sema_down r) fs \<or> follows (Sema_loop r l) fs"
  shows "taken fs a \<longleftrightarrow> r = Lock_sema a" "wf_top l' fs" "fs \<noteq> Sema_loop q l'' # hs"
  using assms by (cases r; auto simp: calm_facts taken_frame wf_top_def [of _ "Set_holder _ # _"])+

lemma upcoming_other:
  assumes "wf_kernel k" "running k \<noteq> idle_thread k"
  shows "upcoming k \<noteq> running k"
  using running_not_ready [OF assms(1)] assms(2) by (auto simp: upcoming_def split: list.splits)

lemma upcoming_not_blocked: "wf_kernel k \<Longrightarrow> upcoming k = idle_thread k \<or> stat k (upcoming k) \<noteq> THREAD_BLOCKED"
proof (cases "ready_list k")
  case (Cons t ts)
  moreover assume "wf_kernel k"
  ultimately have "stat k t = THREAD_READY" using list.set_intros(1) [of t ts] by (auto simp: wf_kernel_def queued_def)
  then show ?thesis using Cons by (simp add: upcoming_def)
qed (simp add: upcoming_def)

lemma upcoming_cong: "ready_list k' = ready_list k \<Longrightarrow> idle_thread k' = idle_thread k \<Longrightarrow> upcoming k' = upcoming k"
  by (simp add: upcoming_def split: list.split)

lemma asleep_simps [simp]:
  "running (asleep k) = upcoming k" "ready_list (asleep k) = tl (ready_list k)" "all_list (asleep k) = all_list k"
  "idle_thread (asleep k) = idle_thread k" "initial_thread (asleep k) = initial_thread k" "level (asleep k) = INTR_OFF"
  "thread_ticks (asleep k) = 0"
  "stat (asleep k) t = (if t = upcoming k then THREAD_RUNNING else if t = running k then THREAD_BLOCKED else stat k t)"
  using upcoming_cong [of "set_status (running k) THREAD_BLOCKED (k\<lparr>level := INTR_OFF\<rparr>)" k]
  by (simp_all add: asleep_def)

text \<open>Frames that give the processor to another thread.\<close>

lemma wf_switch:
  assumes s: "wf_system s"
    and k': "wf_kernel (kern s')" "wf_pages (kern s') (pal s')" "thread_ticks (kern s') = 0" "all_list (kern s') = all_list (kern s)"
      "idle_thread (kern s') = idle_thread (kern s)" "level (kern s') = INTR_OFF"
    and s': "intr_handlers (intr s') = intr_handlers (intr s)" "idle_eip s' = idle_eip s" "frames s' = (frames s)(cur s := g # gs)" "holders s' = holders s"
    and gs: "resume_point g" "linked (g # gs)" "if cur s = idle_thread (kern s) then g # gs \<in> idle_stacks
       else safe (cur s) (idle_eip s) (\<lambda>a. holders s a = cur s) (g # gs)"
    and waits: "wf_waits (live (kern s)) (idle_thread (kern s)) (stat (kern s')) (sems s') (frames s')"
    and locks: "wf_locks (live (kern s)) (sems s') (frames s') (holders s)"
  shows "wf_system s'"
proof -
  have st: "wf_stack (cur s') (idle_thread (kern s)) (idle_eip s) (holders s) t (frames s' t)" if t: "t \<in> live (kern s)" for t
  proof (cases "t = cur s")
    case True
    then show ?thesis using gs s'(3) by (simp add: wf_stack_def)
  next
    case False
    have "wf_stack (cur s) (idle_thread (kern s)) (idle_eip s) (holders s) t (frames s t)"
      using s t by (simp add: wf_system_def)
    then show ?thesis using wf_stack_switch False s'(3) by simp
  qed
  have n: "cur s' \<in> live (kern s)" using k'(1, 4) by (simp add: wf_kernel_def)
  have "wf_top INTR_OFF (frames s' (cur s'))"
  proof (cases "cur s' = cur s")
    case True
    have "\<And>n. g \<noteq> Timer_sleep n" using gs(1) by auto
    then show ?thesis using True s'(3) by (simp add: wf_top_def)
  next
    case False
    have "wf_stack (cur s) (idle_thread (kern s)) (idle_eip s) (holders s) (cur s') (frames s (cur s'))"
      using s n by (simp add: wf_system_def)
    then show ?thesis using False s'(3) wf_top_resume by simp
  qed
  then show ?thesis
    using s k' s' st waits locks unfolding wf_system_def by (simp add: TIME_SLICE_def)
qed

lemma wf_sleep:
  assumes s: "wf_system s" and f: "frames s (cur s) = f # fs" "f = Sema_down r \<or> (\<exists>l. f = Sema_loop r l)"
    and v: "sema_value (sems s r) = 0"
    and s': "s' = (goto (Sema_loop r l # fs) s)\<lparr>kern := asleep (kern s), pal := pal s,
      sems := (sems s)(r := sems s r\<lparr>waiters := waiters (sems s r) @ [cur s]\<rparr>)\<rparr>"
  shows "wf_system s'"
proof (rule wf_switch [OF s, where g = "Sema_loop r l" and gs = fs])
  note fr = wf_system_frame [OF s f(1)] and k = wf_system_kernel [OF s]
  have i: "cur s \<noteq> idle_thread (kern s)" using not_idle [OF s f(1)] f(2) by auto
  show "wf_kernel (kern s')" using wf_asleep [OF k(1)] s' by simp
  show "wf_pages (kern s') (pal s')" using s s' wf_pages_cong [of "asleep (kern s)" "kern s"] by (simp add: wf_system_def)
  have fl: "follows (Sema_loop r l) fs" using fr(2) f(2) by (cases r) auto
  then show "linked (Sema_loop r l # fs)" using fr(1) by simp
  show "if cur s = idle_thread (kern s) then Sema_loop r l # fs \<in> idle_stacks
       else safe (cur s) (idle_eip s) (\<lambda>a. holders s a = cur s) (Sema_loop r l # fs)"
    using i fr(5, 6) f(2) by auto
  show "wf_waits (live (kern s)) (idle_thread (kern s)) (stat (kern s')) (sems s') (frames s')"
    unfolding s' using f k(3, 5, 6) v i upcoming_other [OF k(1) i] upcoming_not_blocked [OF k(1)]
    by (simp, intro waits_sleep [OF k(7), where n = "upcoming (kern s)"]) (auto simp: in_loop_iff)
  show "wf_locks (live (kern s)) (sems s') (frames s') (holders s)"
  proof -
    have l: "wf_locks (live (kern s)) (sems s) ((frames s)(cur s := Sema_loop r l # fs)) (holders s)"
      using k(8) by (rule locks_local) (use f in \<open>auto simp: taken_frame\<close>)
    have "sema_value (sems s' q) = sema_value (sems s q)" for q using v s' by simp
    then show ?thesis using l s' by (simp add: wf_locks_def)
  qed
qed (use s' in simp_all)

lemma exec_sema_down_wf:
  assumes s: "wf_system s" and f: "frames s (cur s) = Sema_down r # fs"
  shows "returns (exec_sema_down r fs s) wf_system"
proof -
  note fr = wf_system_frame [OF s f] and k = wf_system_kernel [OF s]
  have i: "cur s \<noteq> idle_thread (kern s)" using not_idle [OF s f] by simp
  show ?thesis
  proof (cases "sema_value (sems s r) = 0")
    case True
    have "wf_system ((goto (Sema_loop r (level (kern s)) # fs) s)\<lparr>kern := asleep (kern s), pal := pal s,
      sems := (sems s)(r := sems s r\<lparr>waiters := waiters (sems s r) @ [cur s]\<rparr>)\<rparr>)"
      using wf_sleep [OF s f _ True refl] by simp
    then show ?thesis
      using sema_down_sleeps [OF k(1) True] schedule_blocked [OF k(1), of "pal s"]
      by (simp add: exec_sema_down_def intr_get_level_def)
  next
    case False
    have "0 < sema_value (sems s r)" using False by (simp add: word_neq_0_conv)
    note d = sema_down_free [OF k(10) this]
    have "wf_system ((goto fs s)\<lparr>sems := (sems s)(r := sems s r\<lparr>sema_value := sema_value (sems s r) - 1\<rparr>)\<rparr>)"
      by (rule wf_sema_taken [OF s f i False _ _ refl])
        (use fr i follows_down [of r fs] in \<open>simp_all add: taken_frame\<close>)
    then show ?thesis using d by (simp add: exec_sema_down_def goto_def)
  qed
qed

lemma wf_loop_taken:
  assumes s: "wf_system s" and f: "frames s (cur s) = Sema_loop r l # fs" and v: "sema_value (sems s r) \<noteq> 0"
    and s': "s' = (goto fs s)\<lparr>kern := (kern s)\<lparr>level := l\<rparr>, sems := (sems s)(r := sems s r\<lparr>sema_value := sema_value (sems s r) - 1\<rparr>)\<rparr>"
  shows "wf_system s'"
proof (rule wf_local [OF s, where l = l and gs = fs])
  note fr = wf_system_frame [OF s f] and k = wf_system_kernel [OF s]
  let ?x = "sems s r\<lparr>sema_value := sema_value (sems s r) - 1\<rparr>"
  have i: "cur s \<noteq> idle_thread (kern s)" using not_idle [OF s f] by simp
  have fl: "taken fs a \<longleftrightarrow> r = Lock_sema a" "wf_top l fs" "fs \<noteq> Sema_loop q l' # hs" for a q l' hs
    using follows_down [of r fs l] fr(2) by blast+
  show "wf_waits (live (kern s)) (idle_thread (kern s)) (stat (kern s)) (sems s') (frames s')"
    using waits_take [OF k(7) _ k(3) _ f _ v] k(5) fl(3) unfolding s' by simp
  show "wf_locks (live (kern s)) (sems s') (frames s') (holders s')"
  proof (cases r)
    case (Lock_sema a)
    then show ?thesis
      using locks_take [OF k(8, 3), of a fs ?x] v f fl(1) unfolding s' by (auto simp: taken_frame)
  next
    case (Sema a)
    then show ?thesis
      using locks_sema [OF locks_local [OF k(8), of fs "cur s"], of r ?x] f fl(1) unfolding s' by (simp add: taken_frame)
  next
    case (Waiter a)
    then show ?thesis
      using locks_sema [OF locks_local [OF k(8), of fs "cur s"], of r ?x] f fl(1) unfolding s' by (simp add: taken_frame)
  qed
  show "linked fs" "wf_top l fs" using fr(1) fl(2) by simp_all
  show "if cur s = idle_thread (kern s) then fs \<in> idle_stacks else safe (cur s) (idle_eip s) (\<lambda>a. holders s' a = cur s) fs"
    using i fr(6) by (simp add: s')
qed (simp_all add: s')

lemma exec_sema_loop_wf:
  assumes s: "wf_system s" and f: "frames s (cur s) = Sema_loop r l # fs"
  shows "returns (exec_sema_loop r l fs s) wf_system"
proof -
  note k = wf_system_kernel [OF s]
  have off: "level (kern s) = INTR_OFF" using wf_system_frame(3) [OF s f] by simp
  then have same: "(kern s)\<lparr>level := INTR_OFF\<rparr> = kern s" by (metis level_same)
  show ?thesis
  proof (cases "sema_value (sems s r) = 0")
    case True
    have "wf_system ((goto (Sema_loop r l # fs) s)\<lparr>kern := asleep (kern s), pal := pal s,
      sems := (sems s)(r := sems s r\<lparr>waiters := waiters (sems s r) @ [cur s]\<rparr>)\<rparr>)"
      using wf_sleep [OF s f _ True refl] by simp
    then show ?thesis
      using sema_down_pass_sleeps [OF k(1) True] schedule_blocked [OF k(1), of "pal s"]
      by (simp add: exec_sema_loop_def same)
  next
    case False
    then show ?thesis
      using wf_loop_taken [OF s f False refl] k(10)
      by (simp add: exec_sema_loop_def sema_down_pass_def set_level_eq goto_def)
  qed
qed

lemma sema_try_down_eq:
  assumes "\<not> intr_context k"
  shows "sema_try_down k x = ret (0 < sema_value x, k, if 0 < sema_value x then x\<lparr>sema_value := sema_value x - 1\<rparr> else x)"
  using assms by (simp add: sema_try_down_def intr_disable_def intr_get_level_def Let_def)

lemma exec_sema_try_down_wf:
  assumes s: "wf_system s" and f: "frames s (cur s) = Sema_try_down r # fs"
  shows "returns (exec_sema_try_down r fs fs s) wf_system"
proof -
  note fr = wf_system_frame [OF s f] and k = wf_system_kernel [OF s]
  have i: "cur s \<noteq> idle_thread (kern s)" using not_idle [OF s f] by simp
  have c: "calm fs" "\<exists>a. r = Sema a" using fr(2, 5) i by simp_all
  have 1: "wf_system ((goto fs s)\<lparr>sems := (sems s)(r := sems s r\<lparr>sema_value := sema_value (sems s r) - 1\<rparr>)\<rparr>)" if "sema_value (sems s r) \<noteq> 0"
    by (rule wf_sema_taken [OF s f i that _ _ refl]) (use fr i c in \<open>auto simp: taken_frame calm_facts\<close>)
  have 2: "wf_system (goto fs s)"
    by (rule wf_neutral [OF s f, where l = "level (kern s)" and gs = fs])
      (use fr i in \<open>simp_all add: taken_frame calm_facts\<close>)
  show ?thesis
    using 1 2 k(10) by (auto simp: exec_sema_try_down_def sema_try_down_eq goto_def word_neq_0_conv)
qed

lemma exec_lock_try_acquire_wf:
  assumes s: "wf_system s" and f: "frames s (cur s) = Lock_try_acquire a # fs"
  shows "returns (exec_lock_try_acquire a fs s) wf_system"
proof -
  note fr = wf_system_frame [OF s f] and k = wf_system_kernel [OF s]
  have i: "cur s \<noteq> idle_thread (kern s)" using not_idle [OF s f] by simp
  have c: "fs = []" "holders s a \<noteq> cur s" using fr(2, 5) i by simp_all
  let ?r = "Lock_sema a"
  have 1: "wf_system ((goto (Set_holder a # fs) s)\<lparr>sems := (sems s)(?r := sems s ?r\<lparr>sema_value := sema_value (sems s ?r) - 1\<rparr>)\<rparr>)"
    if "sema_value (sems s ?r) \<noteq> 0"
    by (rule wf_sema_taken [OF s f i that _ _ refl]) (use c in \<open>auto simp: taken_frame wf_top_def\<close>)
  have 2: "wf_system (goto fs s)"
    by (rule wf_neutral [OF s f, where l = "level (kern s)" and gs = fs])
      (use c i in \<open>simp_all add: taken_frame calm_facts\<close>)
  show ?thesis
    using 1 2 k(2, 10) c
    by (auto simp: exec_lock_try_acquire_def exec_sema_try_down_def sema_try_down_eq lock_held_runs goto_def word_neq_0_conv)
qed

lemma locks_up:
  assumes s: "wf_system s" and f: "frames s (cur s) = Sema_up r # fs" and x: "sema_value x = sema_value (sems s r) + 1"
  shows "wf_locks (live (kern s)) ((sems s)(r := x)) ((frames s)(cur s := fs)) (holders s)"
proof -
  note fr = wf_system_frame [OF s f] and k = wf_system_kernel [OF s]
  have i: "cur s \<noteq> idle_thread (kern s)" using not_idle [OF s f] by simp
  have c: "\<not> taken fs a" for a using fr(2) by (simp add: taken_calm)
  show ?thesis
  proof (cases r)
    case (Lock_sema a)
    then show ?thesis
      using locks_give [OF k(8, 3), of a fs x] fr(5) i f c x by (auto simp: taken_frame)
  next
    case (Sema a)
    then show ?thesis
      using locks_sema [OF locks_local [OF k(8), of fs "cur s"], of r x] f c by (simp add: taken_frame)
  next
    case (Waiter a)
    then show ?thesis
      using locks_sema [OF locks_local [OF k(8), of fs "cur s"], of r x] f c by (simp add: taken_frame)
  qed
qed

lemma exec_sema_up_wf:
  assumes s: "wf_system s" and f: "frames s (cur s) = Sema_up r # fs"
  shows "returns (exec_sema_up r fs s) wf_system"
proof -
  note fr = wf_system_frame [OF s f] and k = wf_system_kernel [OF s]
  have i: "cur s \<noteq> idle_thread (kern s)" using not_idle [OF s f] by simp
  have c: "calm fs" using fr(2) by simp
  have w: "wf_waits (live (kern s)) (idle_thread (kern s)) (stat (kern s)) (sems s) ((frames s)(cur s := fs))"
    using waits_local [OF k(7), of "cur s" fs] f c by (simp add: in_loop_upd in_loop_iff calm_not_loop)
  show ?thesis
  proof (cases "waiters (sems s r)")
    case Nil
    let ?x = "sems s r\<lparr>sema_value := sema_value (sems s r) + 1\<rparr>"
    have "wf_system ((goto fs s)\<lparr>sems := (sems s)(r := ?x)\<rparr>)"
    proof (rule wf_local [OF s, where l = "level (kern s)" and gs = fs])
      show "wf_waits (live (kern s)) (idle_thread (kern s)) (stat (kern s)) (sems ((goto fs s)\<lparr>sems := (sems s)(r := ?x)\<rparr>))
          (frames ((goto fs s)\<lparr>sems := (sems s)(r := ?x)\<rparr>))"
        using waits_sema [OF w, of ?x r] Nil by simp
    qed (use fr i c locks_up [OF s f, of ?x] in \<open>simp_all add: wf_top_calm\<close>)
    then show ?thesis
      using sema_up_free [OF k(10) Nil] by (simp add: exec_sema_up_def goto_def)
  next
    case (Cons t ts)
    let ?x = "sems s r\<lparr>sema_value := sema_value (sems s r) + 1, waiters := ts\<rparr>"
    let ?s = "(goto fs s)\<lparr>kern := readied t (kern s), sems := (sems s)(r := ?x)\<rparr>"
    have t: "t \<in> live (kern s)" "t \<noteq> idle_thread (kern s)" "stat (kern s) t = THREAD_BLOCKED"
      using k(7) Cons unfolding wf_waits_def by (metis list.set_intros(1))+
    have th: "is_thread (kern s) t" using k(1) t(1) by (simp add: wf_kernel_def queued_def)
    have "wf_system ?s"
    proof (rule wf_stay [OF s, where gs = fs])
      show "wf_kernel (kern ?s)" using wf_readied [OF k(1) t(1, 3, 2)] by simp
      show "thread_ticks (kern ?s) < TIME_SLICE" using s by (simp add: wf_system_def)
      show "wf_waits (live (kern s)) (idle_thread (kern s)) (stat (kern ?s)) (sems ?s) (frames ?s)"
        by (simp, intro waits_wake [OF w _ Cons refl]) simp_all
    qed (use fr i c locks_up [OF s f, of ?x] in \<open>simp_all add: wf_top_calm\<close>)
    then show ?thesis
      using sema_up_wakes [OF k(10) Cons th t(3)] by (simp add: exec_sema_up_def)
  qed
qed

section \<open>Yielding, the timer and the idle thread\<close>

lemma requeued_simps [simp]:
  "running (requeued k) = running k" "all_list (requeued k) = all_list k" "idle_thread (requeued k) = idle_thread k"
  "initial_thread (requeued k) = initial_thread k" "level (requeued k) = INTR_OFF"
  "ready_list (requeued k) = (if running k = idle_thread k then ready_list k else ready_list k @ [running k])"
  "stat (requeued k) t = (if t = running k then THREAD_READY else stat k t)"
  by (simp_all add: requeued_def)

lemma upcoming_descheduled: "descheduled k \<Longrightarrow> upcoming k = idle_thread k \<or> stat k (upcoming k) \<noteq> THREAD_BLOCKED"
proof (cases "ready_list k")
  case (Cons t ts)
  moreover assume "descheduled k"
  ultimately have "stat k t = THREAD_READY" using list.set_intros(1) [of t ts] by (auto simp: descheduled_def queued_def)
  then show ?thesis using Cons by (simp add: upcoming_def)
qed (simp add: upcoming_def)

lemma wf_yield:
  assumes s: "wf_system s"
    and k2: "wf_kernel k" "running k = cur s" "all_list k = all_list (kern s)" "idle_thread k = idle_thread (kern s)"
      "initial_thread k = initial_thread (kern s)" "thr k = thr (kern s)"
    and s': "kern s' = dispatched (requeued k)" "pal s' = pal s" "intr_handlers (intr s') = intr_handlers (intr s)" "idle_eip s' = idle_eip s"
      "frames s' = (frames s)(cur s := Set_level l # gs)" "holders s' = holders s" "sems s' = sems s"
    and gs: "linked (Set_level l # gs)" "if cur s = idle_thread (kern s) then Set_level l # gs \<in> idle_stacks
       else safe (cur s) (idle_eip s) (\<lambda>a. holders s a = cur s) gs"
    and fs: "\<And>a. taken gs a = taken (frames s (cur s)) a" "\<And>r l hs. frames s (cur s) \<noteq> Sema_loop r l # hs"
  shows "wf_system s'"
proof (rule wf_switch [OF s, where g = "Set_level l" and gs = gs])
  note w = wf_system_kernel [OF s]
  show "wf_kernel (kern s')" using wf_yielded [OF k2(1)] s' by simp
  show "wf_pages (kern s') (pal s')"
    using s s' k2 wf_pages_cong [of "dispatched (requeued k)" "kern s"] by (simp add: wf_system_def)
  have "wf_waits (live (kern s)) (idle_thread (kern s)) (stat (kern s')) (sems s) (frames s)"
  proof (rule waits_status [OF w(7)])
    fix t
    assume "t \<in> live (kern s)" "t \<noteq> idle_thread (kern s)"
    then show "stat (kern s') t = THREAD_BLOCKED \<longleftrightarrow> stat (kern s) t = THREAD_BLOCKED"
      using upcoming_descheduled [OF descheduled_requeued [OF k2(1)]] w(5) k2 s'(1) by auto
  qed (rule w(6))
  then show "wf_waits (live (kern s)) (idle_thread (kern s)) (stat (kern s')) (sems s') (frames s')"
    unfolding s' by (rule waits_local) (simp add: in_loop_upd in_loop_iff fs)
  show "wf_locks (live (kern s)) (sems s') (frames s') (holders s)"
    unfolding s' using w(8) by (rule locks_local) (simp add: fs)
  show "if cur s = idle_thread (kern s) then Set_level l # gs \<in> idle_stacks
       else safe (cur s) (idle_eip s) (\<lambda>a. holders s a = cur s) (Set_level l # gs)"
    using gs(2) by simp
qed (use gs s' k2 in simp_all)

lemma exec_thread_yield_wf:
  assumes s: "wf_system s" and f: "frames s (cur s) = Thread_yield # fs"
  shows "returns (exec_thread_yield fs s) wf_system"
proof -
  note fr = wf_system_frame [OF s f] and k = wf_system_kernel [OF s]
  have i: "cur s \<noteq> idle_thread (kern s)" using not_idle [OF s f] by simp
  have "wf_system ((goto (Set_level (level (kern s)) # fs) s)\<lparr>kern := dispatched (requeued (kern s)), pal := pal s\<rparr>)"
    by (rule wf_yield [OF s k(1), where l = "level (kern s)" and gs = fs])
      (use fr i f in \<open>simp_all add: taken_frame taken_calm\<close>)
  then show ?thesis
    using thread_yield_dispatches [OF k(1)] by (simp add: exec_thread_yield_def)
qed

lemma exec_idle_block_wf:
  assumes s: "wf_system s" and f: "frames s (cur s) = Idle_block # fs"
  shows "returns (exec_idle_block fs s) wf_system"
proof -
  note fr = wf_system_frame [OF s f] and k = wf_system_kernel [OF s]
  have i: "cur s = idle_thread (kern s)" using fr(5) by auto
  then have e: "fs = []" using fr(4) by (simp add: idle_stacks_def)
  let ?s = "(goto (Idle_hlt # fs) s)\<lparr>kern := asleep (kern s), pal := pal s\<rparr>"
  have "wf_system ?s"
  proof (rule wf_switch [OF s, where g = Idle_hlt and gs = fs])
    show "wf_kernel (kern ?s)" using wf_asleep [OF k(1)] by simp
    show "wf_pages (kern ?s) (pal ?s)" using s wf_pages_cong [of "asleep (kern s)" "kern s"] by (simp add: wf_system_def)
    have "wf_waits (live (kern s)) (idle_thread (kern s)) (stat (kern ?s)) (sems s) (frames s)"
      by (rule waits_status [OF k(7) _ k(6)]) (use upcoming_not_blocked [OF k(1)] i in auto)
    then show "wf_waits (live (kern s)) (idle_thread (kern s)) (stat (kern ?s)) (sems ?s) (frames ?s)"
      using waits_local [of _ _ _ _ "frames s" "cur s" "Idle_hlt # fs"] f by (simp add: in_loop_upd in_loop_iff)
    show "wf_locks (live (kern s)) (sems ?s) (frames ?s) (holders s)"
      using locks_local [OF k(8), of "Idle_hlt # fs" "cur s"] f by (simp add: taken_frame)
  qed (use i e in \<open>simp_all add: idle_stacks_def\<close>)
  then show ?thesis
    using thread_block_sleeps [OF k(1)] by (simp add: exec_idle_block_def intr_disable_def)
qed

lemma timer_tick_wf:
  assumes s: "wf_system s" and on: "level (kern s) = INTR_ON"
  shows "returns (timer_tick s) wf_system"
proof -
  note k = wf_system_kernel [OF s]
  let ?fs = "frames s (cur s)" and ?y = "\<lambda>b. interrupted b (kern s)"
  have h: "intr_handlers (intr s) 0x20 = Some timer_interrupt" using s by (simp add: wf_system_def)
  have y: "wf_kernel (?y b)" "running (?y b) = cur s" "all_list (?y b) = all_list (kern s)" "idle_thread (?y b) = idle_thread (kern s)"
    "initial_thread (?y b) = initial_thread (kern s)" "thr (?y b) = thr (kern s)" "thread_ticks (?y b) = thread_ticks (kern s) + 1" for b
    using k(1) by (simp_all add: interrupted_def wf_kernel_def queued_def is_thread_def intr_context_def)
  have st: "wf_stack (cur s) (idle_thread (kern s)) (idle_eip s) (holders s) (cur s) ?fs" "wf_top INTR_ON ?fs"
    using s k(3) on by (simp_all add: wf_system_def)
  have nr: "?fs = [] \<or> (\<exists>f gs. ?fs = f # gs \<and> \<not> resume_point f)"
    using st(2) by (auto simp: wf_top_def split: list.splits)
  have t1: "wf_system ((goto (Set_level INTR_OFF # Iret # ?fs) (s\<lparr>pal := pal s, intr := outb 0x20 0x20 (intr s), tmr := d\<rparr>))\<lparr>kern := dispatched (requeued (?y b))\<rparr>)" for d b
    by (rule wf_yield [OF s y(1-6), where l = INTR_OFF and gs = "Iret # ?fs"])
      (use st nr in \<open>auto simp: wf_stack_def outb_def idle_stacks_def goto_def\<close>)
  have t2: "wf_system (s\<lparr>pal := pal s, intr := outb 0x20 0x20 (intr s), tmr := d, kern := (?y b)\<lparr>level := INTR_ON\<rparr>\<rparr>)"
    if "\<not> TIME_SLICE \<le> thread_ticks (kern s) + 1" for d b
    by (rule wf_stay [OF s, where gs = ?fs])
      (use st y that k(7, 8) in \<open>auto simp: wf_stack_def outb_def split: if_splits\<close>)
  show ?thesis
    using t1 t2 by (simp add: timer_tick_def timer_interrupt_handled [OF k(1) h] Let_def)
qed

section \<open>Exit and creation\<close>

lemma waits_subset:
  assumes w: "wf_waits A idle S X F" and A': "A' = A - {c}"
    and c: "S c \<noteq> THREAD_BLOCKED" "\<And>r. \<not> in_loop F c r" "\<And>t. t \<noteq> c \<Longrightarrow> F' t = F t"
    and S': "\<And>t. t \<in> A' \<Longrightarrow> t \<noteq> idle \<Longrightarrow> S' t = THREAD_BLOCKED \<longleftrightarrow> S t = THREAD_BLOCKED" "\<And>r. \<not> in_loop F idle r"
    and i: "idle \<noteq> c"
  shows "wf_waits A' idle S' X F'"
proof -
  have loop: "in_loop F' t r = in_loop F t r" if "t \<noteq> c" for t r using c(3) [OF that] by (simp add: in_loop_iff)
  have "t \<in> woken A' S' F' r \<longleftrightarrow> t \<in> woken A S F r" for t r
  proof -
    consider "t = c" | "t = idle" "t \<noteq> c" | "t \<noteq> c" "t \<noteq> idle" by blast
    then show ?thesis using A' c(2) loop [of t r] S'(1) [of t] S'(2) by cases (auto simp: woken_def)
  qed
  then have wk: "woken A' S' F' r = woken A S F r" for r by blast
  have ws: "t \<in> A' \<and> t \<noteq> idle \<and> S' t = THREAD_BLOCKED \<and> in_loop F' t r" if t: "t \<in> set (waiters (X r))" for t r
  proof -
    have o: "t \<in> A" "t \<noteq> idle" "S t = THREAD_BLOCKED" "in_loop F t r" using w t by (auto simp: wf_waits_def)
    then have "t \<noteq> c" using c(1) by auto
    then show ?thesis using o A' loop S'(1) [of t] by simp
  qed
  have bl: "t = idle \<or> (\<exists>r. t \<in> set (waiters (X r)))" if "t \<in> A'" "S' t = THREAD_BLOCKED" for t
    using w that S'(1) [OF that(1)] A' unfolding wf_waits_def by blast
  show ?thesis
    using w ws bl unfolding wf_waits_def wk by blast
qed

lemma locks_subset:
  assumes w: "wf_locks A X F H" and A': "A' = A - {c}" and c: "\<And>a. \<not> owns F H c a"
    and F': "\<And>t. t \<noteq> c \<Longrightarrow> F' t = F t"
  shows "wf_locks A' X F' H"
proof -
  have o: "owns F' H t a = owns F H t a" if "t \<in> A'" for t a using that A' F' by (simp add: owns_def)
  have ex: "(\<exists>t\<in>A'. owns F' H t a) = (\<exists>t\<in>A. owns F H t a)" for a
    using c A' o by auto
  have n: "H a \<noteq> c" for a using c by (simp add: owns_def)
  show ?thesis unfolding wf_locks_def
  proof (intro conjI allI ballI impI)
    show "H a = NULL \<or> H a \<in> A'" for a using w n [of a] A' by (simp add: wf_locks_def)
    show "t = u" if "t \<in> A'" "u \<in> A'" "owns F' H t a" "owns F' H u a" for a t u
      using locks_unique [OF w, of t u a] that A' o by simp
    show "sema_value (X (Lock_sema a)) = (if \<exists>t\<in>A'. owns F' H t a then 0 else 1)" for a
      using locks_value [OF w, of a] unfolding ex .
  qed
qed

lemma exec_thread_exit_wf:
  assumes s: "wf_system s" and f: "frames s (cur s) = Thread_exit # fs"
  shows "returns (exec_thread_exit fs s) wf_system"
proof -
  note fr = wf_system_frame [OF s f] and k = wf_system_kernel [OF s]
  have i: "cur s \<noteq> idle_thread (kern s)" using not_idle [OF s f] by simp
  have p: "wf_pages (kern s) (pal s)" using s by (simp add: wf_system_def)
  obtain k' st' where e: "thread_exit (kern s) (pal s) = ret (k', st')" "wf_kernel k'" "wf_pages k' st'"
    "all_list k' = remove1 (cur s) (all_list (kern s))" "running k' = upcoming (kern s)"
    "idle_thread k' = idle_thread (kern s)" "level k' = INTR_OFF" "thread_ticks k' = 0"
    "\<And>t. stat k' t = (if t = upcoming (kern s) then THREAD_RUNNING else if t = cur s then THREAD_DYING else stat (kern s) t)"
    using thread_exit_exits [OF k(1) p i] by metis
  let ?s = "(goto [] s)\<lparr>kern := k', pal := st'\<rparr>"
  have lv: "live k' = live (kern s) - {cur s}"
    using k(1) e(4) by (simp add: wf_kernel_def queued_def)
  have n: "upcoming (kern s) \<noteq> cur s" using upcoming_other [OF k(1) i] .
  have st: "wf_stack (cur s) (idle_thread (kern s)) (idle_eip s) (holders s) t (frames s t)" if "t \<in> live (kern s)" for t
    using s that by (simp add: wf_system_def)
  have "wf_stack (running k') (idle_thread (kern s)) (idle_eip s) (holders s) t (((frames s)(cur s := [])) t)" if t: "t \<in> live k'" for t
  proof -
    have "t \<noteq> cur s" using t lv by simp
    then show ?thesis using wf_stack_switch [OF st] t lv by simp
  qed
  moreover have "wf_top INTR_OFF (((frames s)(cur s := [])) (running k'))"
  proof -
    have "upcoming (kern s) \<in> live (kern s)" using k(1) upcoming_live by (simp add: wf_kernel_def)
    then show ?thesis using wf_top_resume [OF st n] n e(5) by simp
  qed
  moreover have "wf_waits (live k') (idle_thread (kern s)) (stat k') (sems s) ((frames s)(cur s := []))"
    by (rule waits_subset [OF k(7) lv])
      (use k(5, 6) f i n upcoming_not_blocked [OF k(1)] e(9) lv in \<open>auto simp: in_loop_iff\<close>)
  moreover have "wf_locks (live k') (sems s) ((frames s)(cur s := [])) (holders s)"
    by (rule locks_subset [OF k(8) lv]) (use fr(5) i f in \<open>auto simp: owns_def taken_frame\<close>)
  ultimately have "wf_system ?s"
    using s e unfolding wf_system_def by (simp add: TIME_SLICE_def)
  then show ?thesis using e(1) by (simp add: exec_thread_exit_def)
qed

lemma waits_insert:
  assumes w: "wf_waits A idle S X F" and t: "t \<notin> A" "\<And>r l gs. F' t \<noteq> Sema_loop r l # gs" "S' t = THREAD_READY"
    and o: "\<And>u. u \<in> A \<Longrightarrow> S' u = S u" "\<And>u r. u \<in> A \<Longrightarrow> in_loop F' u r = in_loop F u r"
  shows "wf_waits (insert t A) idle S' X F'"
proof -
  have "u \<in> woken (insert t A) S' F' r \<longleftrightarrow> u \<in> woken A S F r" for u r
    using t o by (cases "u = t") (auto simp: woken_def in_loop_iff [of F' t])
  then have wk: "woken (insert t A) S' F' r = woken A S F r" for r by blast
  have ws: "u \<in> insert t A \<and> u \<noteq> idle \<and> S' u = THREAD_BLOCKED \<and> in_loop F' u r" if "u \<in> set (waiters (X r))" for u r
  proof -
    have "u \<in> A" "u \<noteq> idle" "S u = THREAD_BLOCKED" "in_loop F u r" using w that by (auto simp: wf_waits_def)
    then show ?thesis using o by simp
  qed
  have bl: "u = idle \<or> (\<exists>r. u \<in> set (waiters (X r)))" if "u \<in> insert t A" "S' u = THREAD_BLOCKED" for u
  proof -
    have "u \<in> A" using that t(3) by auto
    then show ?thesis using w that o(1) unfolding wf_waits_def by simp
  qed
  show ?thesis using w ws bl unfolding wf_waits_def wk by blast
qed

lemma locks_insert:
  assumes w: "wf_locks A X F H" and t: "t \<notin> A" "t \<noteq> NULL" "\<And>a. \<not> taken (F' t) a"
    and o: "\<And>u a. u \<in> A \<Longrightarrow> taken (F' u) a = taken (F u) a"
  shows "wf_locks (insert t A) X F' H"
proof -
  have H: "H a = NULL \<or> H a \<in> A" for a using w by (simp add: wf_locks_def)
  then have n: "H a \<noteq> t" for a using t(1, 2) by metis
  have ot: "\<not> owns F' H t a" for a using n t(3) by (simp add: owns_def)
  have ou: "owns F' H u a = owns F H u a" if "u \<in> A" for u a using o [OF that] by (simp add: owns_def)
  have ex: "(\<exists>u\<in>insert t A. owns F' H u a) = (\<exists>u\<in>A. owns F H u a)" for a using ot ou by auto
  show ?thesis unfolding wf_locks_def
  proof (intro conjI allI ballI impI)
    show "H a = NULL \<or> H a \<in> insert t A" for a using H [of a] by auto
    show "u = v" if "u \<in> insert t A" "v \<in> insert t A" "owns F' H u a" "owns F' H v a" for a u v
    proof -
      have "u \<noteq> t" "v \<noteq> t" using that(3, 4) ot by auto
      then have "u \<in> A" "v \<in> A" using that(1, 2) by simp_all
      then show ?thesis using locks_unique [OF w, of u v a] that(3, 4) ou by simp
    qed
    show "sema_value (X (Lock_sema a)) = (if \<exists>u\<in>insert t A. owns F' H u a then 0 else 1)" for a
      using locks_value [OF w, of a] unfolding ex .
  qed
qed

lemma exec_thread_create_wf:
  assumes s: "wf_system s" and f: "frames s (cur s) = Thread_create nm pri function aux # fs"
  shows "returns (exec_thread_create nm pri function aux fs s) wf_system"
proof -
  note fr = wf_system_frame [OF s f] and k = wf_system_kernel [OF s]
  have i: "cur s \<noteq> idle_thread (kern s)" using not_idle [OF s f] by simp
  have c: "calm fs" "nm \<noteq> None" "PRI_MIN \<le> pri" "pri \<le> PRI_MAX" "function \<noteq> NULL" "function \<noteq> idle_eip s"
    using fr(2, 5) i by simp_all
  have p: "wf_pages (kern s) (pal s)" using s by (simp add: wf_system_def)
  have g: "wf_system (goto fs s)"
    by (rule wf_neutral [OF s f, where l = "level (kern s)" and gs = fs])
      (use fr i in \<open>simp_all add: taken_frame calm_facts\<close>)
  show ?thesis
  proof (rule thread_create_cases [OF k(1) p c(2-5), of "kernel_thread_eip s" "switch_entry_eip s" aux])
    assume "thread_create (kernel_thread_eip s) (switch_entry_eip s) (kern s) (pal s) nm pri function aux = ret (TID_ERROR, kern s, pal s)"
    then show ?thesis using g by (simp add: exec_thread_create_def goto_def)
  next
    fix t st'
    let ?k = "created t (the nm) pri (kern s)"
    let ?F = "(frames s)(cur s := fs, t := [Kernel_thread function aux])"
    let ?s = "(goto fs s)\<lparr>kern := ?k, pal := st', frames := ?F\<rparr>"
    assume cr: "thread_create (kernel_thread_eip s) (switch_entry_eip s) (kern s) (pal s) nm pri function aux = ret (next_tid (kern s), ?k, st')"
      and t: "t \<noteq> NULL" "t \<notin> live (kern s)" and pg: "wf_pages ?k st'"
    have ne: "t \<noteq> cur s" "t \<noteq> idle_thread (kern s)" using t(2) k(3, 9) by auto
    have hn: "holders s a \<noteq> t" for a using k(8) t unfolding wf_locks_def by metis
    have gw: "wf_stack (cur s) (idle_thread (kern s)) (idle_eip s) (holders s) u (((frames s)(cur s := fs)) u)" if "u \<in> live (kern s)" for u
      using g that by (simp add: wf_system_def)
    have st: "wf_stack (cur s) (idle_thread (kern s)) (idle_eip s) (holders s) u (?F u)" if u: "u \<in> insert t (live (kern s))" for u
    proof (cases "u = t")
      case True
      then show ?thesis using ne c hn by (simp add: wf_stack_def)
    next
      case False
      then show ?thesis using gw [of u] u by simp
    qed
    have wt: "wf_waits (insert t (live (kern s))) (idle_thread (kern s)) (stat ?k) (sems s) ?F"
      by (rule waits_insert [OF wf_system_kernel(7) [OF g, simplified] t(2)]) (use t(2) in \<open>auto simp: in_loop_iff\<close>)
    have lk: "wf_locks (insert t (live (kern s))) (sems s) ?F (holders s)"
      by (rule locks_insert [OF wf_system_kernel(8) [OF g, simplified] t(2, 1)]) (use t(2) in \<open>auto simp: taken_frame\<close>)
    have "wf_system ?s"
      using g wf_created [OF k(1) t] pg st wt lk ne unfolding wf_system_def by simp
    then show ?thesis using cr by (simp add: exec_thread_create_def Let_def goto_def)
  qed
qed

end
