(* ===== verification/Concurrency.thy ===== *)
theory Concurrency
  imports Scheduler_Steps
begin

text \<open>
  The properties of interleaved executions: no assertion fails, locks exclude, wake-ups are not
  lost, and round robin serves every ready thread within a bounded number of timer ticks.
\<close>

section \<open>Every step keeps the invariant\<close>

lemma exec_wf:
  assumes s: "wf_system s" and f: "frames s (cur s) = f # fs"
  shows "returns (exec f fs s) wf_system"
proof (cases f)
  case (Idle_start r)
  then have False using wf_system_frame(4, 5) [OF s f] by (auto simp: idle_stacks_def)
  then show ?thesis ..
qed (use f in \<open>simp_all add: exec_def exec_sema_down_wf [OF s] exec_sema_loop_wf [OF s] exec_sema_try_down_wf [OF s]
    exec_sema_up_wf [OF s] exec_lock_acquire_wf [OF s] exec_set_holder_wf [OF s] exec_lock_try_acquire_wf [OF s]
    exec_lock_release_wf [OF s] exec_cond_wait_wf [OF s] exec_cond_signal_wf [OF s] exec_cond_broadcast_wf [OF s]
    exec_intr_set_level_wf [OF s] exec_thread_yield_wf [OF s] exec_set_level_wf [OF s] exec_thread_exit_wf [OF s]
    exec_thread_create_wf [OF s] exec_kernel_thread_wf [OF s] exec_timer_sleep_wf [OF s] exec_timer_wait_wf [OF s]
    exec_iret_wf [OF s] exec_idle_block_wf [OF s] exec_idle_hlt_wf [OF s]\<close>)

lemma client_call_safe:
  assumes "client_call s f"
  shows "demands (cur s) (idle_eip s) (\<lambda>a. holders s a = cur s) f" "follows f []" "wf_top (level (kern s)) [f]"
    "\<not> taken [f] a" "f \<noteq> Sema_loop r l"
  using assms by (cases f; auto simp: wf_top_def taken_frame)+

lemma call_wf:
  assumes s: "wf_system s" and f: "frames s (cur s) = []" and c: "client_call s f"
  shows "wf_system (goto [f] s)"
proof -
  note k = wf_system_kernel [OF s] and cc = client_call_safe [OF c]
  have "wf_stack (cur s) (idle_thread (kern s)) (idle_eip s) (holders s) (cur s) []"
    using s k(3) f unfolding wf_system_def by metis
  then have i: "cur s \<noteq> idle_thread (kern s)" by (auto simp: wf_stack_def idle_stacks_def)
  show ?thesis
  proof (rule wf_local [OF s, where l = "level (kern s)" and gs = "[f]"])
    show "wf_waits (live (kern s)) (idle_thread (kern s)) (stat (kern s)) (sems (goto [f] s)) (frames (goto [f] s))"
      using waits_local [OF k(7), of "cur s" "[f]"] f cc(5) by (simp add: in_loop_upd in_loop_iff)
    show "wf_locks (live (kern s)) (sems (goto [f] s)) (frames (goto [f] s)) (holders (goto [f] s))"
      using locks_local [OF k(8), of "[f]" "cur s"] f cc(4) by simp
  qed (use i cc(1-3) in simp_all)
qed

lemma step_wf: "step e s s' \<Longrightarrow> wf_system s \<Longrightarrow> wf_system s'"
  by (induction rule: step.induct) (auto dest: exec_wf timer_tick_wf intro: call_wf elim!: returnsE)

lemma trace_wf: "trace s es \<Longrightarrow> wf_system s \<Longrightarrow> (e, s') \<in> set es \<Longrightarrow> wf_system s'"
  by (induction rule: trace.induct) (auto dest: step_wf)

section \<open>The ready list as a queue\<close>

text \<open>
  A step either lets the running thread go on, with more threads at the end of the ready list,
  or it gives the processor to the first thread of the list.
\<close>

definition queue_step :: "kernel \<Rightarrow> kernel \<Rightarrow> bool" where
  "queue_step k k' \<longleftrightarrow> (\<exists>new.
     running k' = running k \<and> ready_list k' = ready_list k @ new \<and> thread_ticks k' = thread_ticks k \<or>
     ready_list k' = tl (ready_list k @ new) \<and> thread_ticks k' = 0 \<and>
     (ready_list k @ new \<noteq> [] \<longrightarrow> running k' = hd (ready_list k @ new)))"

lemma queue_stay: "running k' = running k \<Longrightarrow> ready_list k' = ready_list k \<Longrightarrow> thread_ticks k' = thread_ticks k \<Longrightarrow> queue_step k k'"
  unfolding queue_step_def by (rule exI [of _ "[]"]) simp

lemma queue_switch:
  "ready_list k' = tl (ready_list k) \<Longrightarrow> running k' = upcoming k \<Longrightarrow> thread_ticks k' = 0 \<Longrightarrow> queue_step k k'"
  unfolding queue_step_def by (rule exI [of _ "[]"]) (auto simp: upcoming_def split: list.splits)

lemma queue_yield: "queue_step k (dispatched (requeued k))"
proof (cases "running k = idle_thread k")
  case True
  then show ?thesis by (intro queue_switch) (simp_all add: upcoming_def split: list.splits)
next
  case False
  then show ?thesis
    unfolding queue_step_def by (intro exI [of _ "[running k]"]) (auto simp: upcoming_def split: list.splits)
qed

lemma sema_down_queue:
  assumes s: "wf_system s" and f: "frames s (cur s) = Sema_down r # fs" and e: "exec_sema_down r fs s = ret s'"
  shows "queue_step (kern s) (kern s')"
proof (cases "sema_value (sems s r) = 0")
  case True
  then show ?thesis
    using e sema_down_sleeps [OF wf_system_kernel(1) [OF s] True] schedule_blocked [OF wf_system_kernel(1) [OF s]]
    by (auto simp: exec_sema_down_def intro: queue_switch)
next
  case False
  then have "0 < sema_value (sems s r)" by (simp add: word_neq_0_conv)
  then show ?thesis
    using e sema_down_free [OF wf_system_kernel(10) [OF s]] by (auto simp: exec_sema_down_def intro: queue_stay)
qed

lemma sema_loop_queue:
  assumes s: "wf_system s" and f: "frames s (cur s) = Sema_loop r l # fs" and e: "exec_sema_loop r l fs s = ret s'"
  shows "queue_step (kern s) (kern s')"
proof (cases "sema_value (sems s r) = 0")
  case True
  have "(kern s)\<lparr>level := INTR_OFF\<rparr> = kern s" using wf_system_frame(3) [OF s f] by (metis level_same resume_point.simps(1))
  then show ?thesis
    using e sema_down_pass_sleeps [OF wf_system_kernel(1) [OF s] True] schedule_blocked [OF wf_system_kernel(1) [OF s]]
    by (auto simp: exec_sema_loop_def intro: queue_switch)
next
  case False
  then show ?thesis
    using e wf_system_kernel(10) [OF s]
    by (auto simp: exec_sema_loop_def sema_down_pass_def set_level_eq intro: queue_stay)
qed

lemma sema_up_queue:
  assumes s: "wf_system s" and e: "exec_sema_up r fs s = ret s'"
  shows "queue_step (kern s) (kern s')"
proof (cases "waiters (sems s r)")
  case Nil
  then show ?thesis
    using e sema_up_free [OF wf_system_kernel(10) [OF s]] by (auto simp: exec_sema_up_def intro: queue_stay)
next
  case (Cons t ts)
  have t: "t \<in> live (kern s)" "stat (kern s) t = THREAD_BLOCKED"
    using wf_system_kernel(7) [OF s] Cons unfolding wf_waits_def by (metis list.set_intros(1))+
  then have "is_thread (kern s) t" using wf_system_kernel(1) [OF s] by (simp add: wf_kernel_def queued_def)
  then have "kern s' = readied t (kern s)"
    using e sema_up_wakes [OF wf_system_kernel(10) [OF s] Cons _ t(2)] by (auto simp: exec_sema_up_def)
  then show ?thesis unfolding queue_step_def by (intro exI [of _ "[t]"]) simp
qed

lemma thread_exit_queue:
  assumes s: "wf_system s" and f: "frames s (cur s) = Thread_exit # fs" and e: "exec_thread_exit fs s = ret s'"
  shows "queue_step (kern s) (kern s')"
proof -
  have p: "wf_pages (kern s) (pal s)" using s by (simp add: wf_system_def)
  have i: "cur s \<noteq> idle_thread (kern s)" using not_idle [OF s f] by simp
  obtain k' st' where "thread_exit (kern s) (pal s) = ret (k', st')" "running k' = upcoming (kern s)"
    "ready_list k' = tl (ready_list (kern s))" "thread_ticks k' = 0"
    using thread_exit_exits [OF wf_system_kernel(1) [OF s] p i] by metis
  then show ?thesis using e by (auto simp: exec_thread_exit_def intro: queue_switch)
qed

lemma thread_create_queue:
  assumes s: "wf_system s" and f: "frames s (cur s) = Thread_create nm pri function aux # fs"
    and e: "exec_thread_create nm pri function aux fs s = ret s'"
  shows "queue_step (kern s) (kern s')"
proof -
  have p: "wf_pages (kern s) (pal s)" using s by (simp add: wf_system_def)
  have i: "cur s \<noteq> idle_thread (kern s)" using not_idle [OF s f] by simp
  have c: "nm \<noteq> None" "PRI_MIN \<le> pri" "pri \<le> PRI_MAX" "function \<noteq> NULL"
    using wf_system_frame(5) [OF s f i] by simp_all
  show ?thesis
  proof (rule thread_create_cases [OF wf_system_kernel(1) [OF s] p c, of "kernel_thread_eip s" "switch_entry_eip s" aux])
    assume "thread_create (kernel_thread_eip s) (switch_entry_eip s) (kern s) (pal s) nm pri function aux = ret (TID_ERROR, kern s, pal s)"
    then show ?thesis using e by (auto simp: exec_thread_create_def Let_def intro: queue_stay)
  next
    fix t st'
    assume "thread_create (kernel_thread_eip s) (switch_entry_eip s) (kern s) (pal s) nm pri function aux
      = ret (next_tid (kern s), created t (the nm) pri (kern s), st')"
    then have "kern s' = created t (the nm) pri (kern s)" using e by (auto simp: exec_thread_create_def Let_def)
    then show ?thesis unfolding queue_step_def by (intro exI [of _ "[t]"]) simp
  qed
qed

lemma exec_queue:
  assumes s: "wf_system s" and f: "frames s (cur s) = f # fs" and e: "exec f fs s = ret s'"
  shows "queue_step (kern s) (kern s')"
proof -
  note k = wf_system_kernel [OF s]
  have same: "queue_step (kern s) (kern s')" if "kern s' = (kern s)\<lparr>level := l\<rparr>" for l
    using that by (intro queue_stay) simp_all
  have lh: "lock_held_by_current_thread (kern s) (lock_at s a) = ret (holders s a = cur s)" for a
    using k(2) by (simp add: lock_held_runs)
  show ?thesis
  proof (cases f)
    case (Sema_down r)
    then show ?thesis using sema_down_queue [OF s] f e by (simp add: exec_def)
  next
    case (Sema_loop r l)
    then show ?thesis using sema_loop_queue [OF s] f e by (simp add: exec_def)
  next
    case (Sema_try_down r)
    then show ?thesis using e k(10) by (auto simp: exec_def exec_sema_try_down_def sema_try_down_eq intro: queue_stay)
  next
    case (Sema_up r)
    then show ?thesis using sema_up_queue [OF s] e by (simp add: exec_def)
  next
    case (Lock_acquire a)
    then show ?thesis using e k(10) by (auto simp: exec_def exec_lock_acquire_def lh ASSERT_def intro: queue_stay split: if_splits)
  next
    case (Set_holder a)
    then show ?thesis using e k(2) by (auto simp: exec_def exec_set_holder_def intro: queue_stay)
  next
    case (Lock_try_acquire a)
    then show ?thesis
      using e k(10) by (auto simp: exec_def exec_lock_try_acquire_def lh exec_sema_try_down_def sema_try_down_eq ASSERT_def intro: queue_stay split: if_splits)
  next
    case (Lock_release a)
    then show ?thesis using e k(10) by (auto simp: exec_def exec_lock_release_def lh ASSERT_def intro: queue_stay split: if_splits)
  next
    case (Cond_wait c a)
    then show ?thesis using e k(10) by (auto simp: exec_def exec_cond_wait_def lh ASSERT_def Let_def intro: queue_stay split: if_splits)
  next
    case (Cond_signal c a)
    then show ?thesis
      using e k(10) by (auto simp: exec_def exec_cond_signal_def lh ASSERT_def intro: queue_stay split: if_splits list.splits)
  next
    case (Cond_broadcast c a)
    then show ?thesis using e by (auto simp: exec_def exec_cond_broadcast_def intro: queue_stay)
  next
    case (Intr_set_level l)
    then show ?thesis using e k(10) by (auto simp: exec_def exec_intr_set_level_def set_level_eq intro: queue_stay)
  next
    case Thread_yield
    then show ?thesis
      using e thread_yield_dispatches [OF k(1)] queue_yield by (auto simp: exec_def exec_thread_yield_def)
  next
    case (Set_level l)
    then show ?thesis using e k(10) by (auto simp: exec_def exec_intr_set_level_def set_level_eq intro: queue_stay)
  next
    case Thread_exit
    then show ?thesis using thread_exit_queue [OF s] f e by (simp add: exec_def)
  next
    case (Thread_create nm pri fn aux)
    then show ?thesis using thread_create_queue [OF s] f e by (simp add: exec_def)
  next
    case (Kernel_thread fn aux)
    then show ?thesis using e k(10) by (auto simp: exec_def exec_kernel_thread_def intr_enable_def ASSERT_def Let_def intro: queue_stay split: if_splits)
  next
    case (Timer_sleep n)
    then show ?thesis using e k(10) by (auto simp: exec_def exec_timer_sleep_def timer_ticks_eq ASSERT_def intro: queue_stay split: if_splits)
  next
    case (Timer_wait st n)
    then show ?thesis using e k(10) by (auto simp: exec_def exec_timer_wait_def timer_elapsed_def timer_ticks_eq intro: queue_stay split: if_splits)
  next
    case Iret
    then show ?thesis using e by (auto simp: exec_def exec_iret_def intro: queue_stay)
  next
    case (Idle_start r)
    then show ?thesis using e k(2) by (auto simp: exec_def exec_idle_start_def intro: queue_stay)
  next
    case Idle_block
    then show ?thesis
      using e thread_block_sleeps [OF k(1)] by (auto simp: exec_def exec_idle_block_def intr_disable_def intro: queue_switch)
  next
    case Idle_hlt
    then show ?thesis using e by (auto simp: exec_def exec_idle_hlt_def intro: queue_stay)
  qed
qed

lemma timer_queue:
  assumes s: "wf_system s" and e: "timer_tick s = ret s'"
  shows "cur s' = cur s \<and> ready_list (kern s') = ready_list (kern s) \<and> thread_ticks (kern s') = thread_ticks (kern s) + 1
    \<and> thread_ticks (kern s) + 1 < TIME_SLICE \<or>
    (\<exists>new. ready_list (kern s') = tl (ready_list (kern s) @ new) \<and> thread_ticks (kern s') = 0 \<and>
      (ready_list (kern s) @ new \<noteq> [] \<longrightarrow> cur s' = hd (ready_list (kern s) @ new)))"
proof -
  have h: "intr_handlers (intr s) 0x20 = Some timer_interrupt" using s by (simp add: wf_system_def)
  let ?k = "\<lambda>b. interrupted b (kern s)"
  have y: "ready_list (?k b) = ready_list (kern s)" "running (?k b) = cur s" "thread_ticks (?k b) = thread_ticks (kern s) + 1" for b
    by (simp_all add: interrupted_def)
  show ?thesis
  proof (cases "TIME_SLICE \<le> thread_ticks (kern s) + 1")
    case True
    then have k': "kern s' = dispatched (requeued (?k True))"
      using e by (auto simp: timer_tick_def timer_interrupt_handled [OF wf_system_kernel(1) [OF s] h] Let_def)
    then have z: "thread_ticks (kern s') = 0" by simp
    obtain new where "ready_list (kern s') = ready_list (kern s) @ new \<and> cur s' = cur s \<and> thread_ticks (kern s') = thread_ticks (?k True)
      \<or> ready_list (kern s') = tl (ready_list (kern s) @ new) \<and>
        (ready_list (kern s) @ new \<noteq> [] \<longrightarrow> cur s' = hd (ready_list (kern s) @ new))"
      using queue_yield [of "?k True"] y unfolding queue_step_def k' by auto
    moreover have "thread_ticks (?k True) \<noteq> 0" using True y(3) by (auto simp: TIME_SLICE_def)
    ultimately show ?thesis using z by auto
  next
    case False
    then have "kern s' = (?k False)\<lparr>level := INTR_ON\<rparr>"
      using e by (auto simp: timer_tick_def timer_interrupt_handled [OF wf_system_kernel(1) [OF s] h] Let_def)
    then show ?thesis using False y by auto
  qed
qed

section \<open>Waiting for the processor\<close>

text \<open>
  The number of timer ticks after which the thread at position \<open>i\<close> of the ready list runs at
  the latest.
\<close>

definition patience :: "kernel \<Rightarrow> nat \<Rightarrow> nat" where
  "patience k i = 4 * i + 4 - unat (thread_ticks k)"

definition tick_count :: "(event \<times> system) list \<Rightarrow> nat" where
  "tick_count es = length (filter (\<lambda>(e, _). e = Timer_tick) es)"

lemma patience_pos: "wf_system s \<Longrightarrow> 0 < patience (kern s) i"
proof -
  assume "wf_system s"
  then have "unat (thread_ticks (kern s)) < 4" by (simp add: wf_system_def TIME_SLICE_def word_less_nat_alt)
  then show ?thesis by (simp add: patience_def)
qed

lemma switch_patience:
  assumes s: "wf_system s" and i: "i < length (ready_list (kern s))" "ready_list (kern s) ! i = t"
    and k': "ready_list k' = tl (ready_list (kern s) @ new)" "thread_ticks k' = 0"
      "ready_list (kern s) @ new \<noteq> [] \<longrightarrow> running k' = hd (ready_list (kern s) @ new)"
  shows "running k' = t \<or> (\<exists>j < length (ready_list k'). ready_list k' ! j = t \<and> patience k' j < patience (kern s) i)"
proof (cases i)
  case 0
  then have "ready_list (kern s) \<noteq> []" "hd (ready_list (kern s)) = t" using i by (auto simp: hd_conv_nth)
  then show ?thesis using k'(3) by simp
next
  case (Suc j)
  have "unat (thread_ticks (kern s)) < 4" using s by (simp add: wf_system_def TIME_SLICE_def word_less_nat_alt)
  then have "patience k' j < patience (kern s) i" using Suc k'(2) by (simp add: patience_def)
  moreover have "j < length (ready_list k')" "ready_list k' ! j = t"
    using Suc i k'(1) by (simp_all add: nth_tl nth_append)
  ultimately show ?thesis by blast
qed

lemma step_patience:
  assumes s: "wf_system s" and e: "step e s s'" and i: "i < length (ready_list (kern s))" "ready_list (kern s) ! i = t"
  shows "cur s' = t \<or> (\<exists>j < length (ready_list (kern s')). ready_list (kern s') ! j = t \<and>
    patience (kern s') j + (if e = Timer_tick then 1 else 0) \<le> patience (kern s) i)"
  using e
proof cases
  case (call f)
  then show ?thesis using i by (auto intro: exI [of _ i])
next
  case (continue f fs)
  obtain new where "running (kern s') = cur s \<and> ready_list (kern s') = ready_list (kern s) @ new \<and> thread_ticks (kern s') = thread_ticks (kern s) \<or>
     ready_list (kern s') = tl (ready_list (kern s) @ new) \<and> thread_ticks (kern s') = 0 \<and>
     (ready_list (kern s) @ new \<noteq> [] \<longrightarrow> cur s' = hd (ready_list (kern s) @ new))"
    using exec_queue [OF s continue(2, 3)] by (auto simp: queue_step_def)
  then show ?thesis
  proof
    assume "running (kern s') = cur s \<and> ready_list (kern s') = ready_list (kern s) @ new \<and> thread_ticks (kern s') = thread_ticks (kern s)"
    then show ?thesis using i continue(1) by (auto simp: nth_append patience_def intro!: exI [of _ i])
  next
    assume "ready_list (kern s') = tl (ready_list (kern s) @ new) \<and> thread_ticks (kern s') = 0 \<and>
     (ready_list (kern s) @ new \<noteq> [] \<longrightarrow> cur s' = hd (ready_list (kern s) @ new))"
    then show ?thesis using switch_patience [OF s i, of "kern s'" new] continue(1) by auto
  qed
next
  case timer
  from timer_queue [OF s timer(3)] show ?thesis
  proof
    assume a: "cur s' = cur s \<and> ready_list (kern s') = ready_list (kern s) \<and> thread_ticks (kern s') = thread_ticks (kern s) + 1
      \<and> thread_ticks (kern s) + 1 < TIME_SLICE"
    have "unat (thread_ticks (kern s)) < 4" using s by (simp add: wf_system_def TIME_SLICE_def word_less_nat_alt)
    then have "unat (thread_ticks (kern s) + 1) = unat (thread_ticks (kern s)) + 1"
      by (subst unat_add_le) simp_all
    then show ?thesis using a i \<open>unat (thread_ticks (kern s)) < 4\<close> by (auto simp: patience_def intro!: exI [of _ i])
  next
    assume "\<exists>new. ready_list (kern s') = tl (ready_list (kern s) @ new) \<and> thread_ticks (kern s') = 0 \<and>
      (ready_list (kern s) @ new \<noteq> [] \<longrightarrow> cur s' = hd (ready_list (kern s) @ new))"
    then obtain new where "ready_list (kern s') = tl (ready_list (kern s) @ new)" "thread_ticks (kern s') = 0"
      "ready_list (kern s) @ new \<noteq> [] \<longrightarrow> cur s' = hd (ready_list (kern s) @ new)" by blast
    from switch_patience [OF s i this] timer(1) show ?thesis by auto
  qed
qed

lemma trace_patience:
  assumes "trace s es" and "wf_system s" and "i < length (ready_list (kern s))" "ready_list (kern s) ! i = t"
    and "patience (kern s) i \<le> tick_count es"
  shows "\<exists>(e, s')\<in>set es. cur s' = t"
  using assms
proof (induction arbitrary: i rule: trace.induct)
  case (nil s)
  then show ?case using patience_pos [of s i] by (simp add: tick_count_def)
next
  case (cons e s s' es)
  from step_patience [OF cons.prems(1) cons.hyps(1) cons.prems(2, 3)] show ?case
  proof
    assume "\<exists>j < length (ready_list (kern s')). ready_list (kern s') ! j = t \<and>
      patience (kern s') j + (if e = Timer_tick then 1 else 0) \<le> patience (kern s) i"
    then obtain j where j: "j < length (ready_list (kern s'))" "ready_list (kern s') ! j = t"
      "patience (kern s') j + (if e = Timer_tick then 1 else 0) \<le> patience (kern s) i" by blast
    have "tick_count ((e, s') # es) = tick_count es + (if e = Timer_tick then 1 else 0)" by (simp add: tick_count_def)
    then have "patience (kern s') j \<le> tick_count es" using j(3) cons.prems(4) by simp
    then show ?case using cons.IH [OF step_wf [OF cons.hyps(1) cons.prems(1)] j(1, 2)] by auto
  qed simp
qed

section \<open>Holders of locks\<close>

lemma sema_down_holders: "exec_sema_down r fs s = ret s' \<Longrightarrow> holders s' = holders s"
proof -
  assume "exec_sema_down r fs s = ret s'"
  then obtain w where w: "(case w of
       Done (k, x) \<Rightarrow> ret ((goto fs s)\<lparr>kern := k, sems := (sems s)(r := x)\<rparr>)
     | Asleep (k, x) \<Rightarrow> andthen (schedule k (pal s)) (\<lambda>(k, st).
         ret ((goto (Sema_loop r (intr_get_level (kern s)) # fs) s)\<lparr>kern := k, pal := st, sems := (sems s)(r := x)\<rparr>))) = ret s'"
    unfolding exec_sema_down_def andthen_eq_ret by blast
  then show ?thesis by (cases w) (auto simp: andthen_eq_ret)
qed

lemma sema_loop_holders: "exec_sema_loop r l fs s = ret s' \<Longrightarrow> holders s' = holders s"
proof -
  assume "exec_sema_loop r l fs s = ret s'"
  then obtain w where w: "(case w of
       Done (k, x) \<Rightarrow> andthen (intr_set_level l k) (\<lambda>(_, k). ret ((goto fs s)\<lparr>kern := k, sems := (sems s)(r := x)\<rparr>))
     | Asleep (k, x) \<Rightarrow> andthen (schedule k (pal s)) (\<lambda>(k, st).
         ret ((goto (Sema_loop r l # fs) s)\<lparr>kern := k, pal := st, sems := (sems s)(r := x)\<rparr>))) = ret s'"
    unfolding exec_sema_loop_def andthen_eq_ret by blast
  then show ?thesis by (cases w) (auto simp: andthen_eq_ret)
qed

lemma exec_holders:
  assumes "exec f fs s = ret s'" and "\<And>a. f \<noteq> Set_holder a" "\<And>a. f \<noteq> Lock_release a"
  shows "holders s' = holders s"
  using assms
  by (cases f) (auto simp: exec_def sema_down_holders sema_loop_holders exec_sema_try_down_def exec_sema_up_def
      exec_lock_acquire_def exec_lock_try_acquire_def exec_cond_wait_def exec_cond_signal_def exec_cond_broadcast_def
      exec_intr_set_level_def exec_thread_yield_def exec_thread_exit_def exec_thread_create_def exec_kernel_thread_def
      exec_timer_sleep_def exec_timer_wait_def exec_iret_def exec_idle_start_def exec_idle_block_def exec_idle_hlt_def
      andthen_eq_ret Let_def split: list.splits)

lemma timer_holders: "timer_tick s = ret s' \<Longrightarrow> holders s' = holders s"
  by (auto simp: timer_tick_def andthen_eq_ret Let_def split: option.splits)

lemma step_holders:
  assumes s: "wf_system s" and e: "step e s s'" and h: "holders s a \<noteq> NULL"
  shows "holders s' a = holders s a \<or> e = Continue \<and> holders s a = cur s \<and> (\<exists>fs. frames s (cur s) = Lock_release a # fs)"
  using e
proof cases
  case (continue f fs)
  note k = wf_system_kernel [OF s] and fr = wf_system_frame [OF s continue(2)]
  consider b where "f = Set_holder b" | b where "f = Lock_release b" | "\<And>b. f \<noteq> Set_holder b" "\<And>b. f \<noteq> Lock_release b" by blast
  then show ?thesis
  proof cases
    case (1 b)
    then have s': "holders s' = (holders s)(b := cur s)" using continue(3) k(2) by (auto simp: exec_def exec_set_holder_def)
    have i: "cur s \<noteq> idle_thread (kern s)" using not_idle [OF s continue(2)] 1 by simp
    have "b \<noteq> a"
    proof
      assume b: "b = a"
      have "holders s a \<in> live (kern s)" using k(8) h unfolding wf_locks_def by metis
      then have "holders s a = cur s"
        using locks_unique [OF k(8) _ k(3), of "holders s a" a] continue(2) 1 b by (simp add: owns_def taken_frame)
      then show False using fr(5) i 1 b by simp
    qed
    then show ?thesis using s' by simp
  next
    case (2 b)
    then have "holders s' = (holders s)(b := NULL)" "holders s b = cur s"
      using continue(3) k(2) by (auto simp: exec_def exec_lock_release_def andthen_eq_ret lock_held_runs)
    then show ?thesis using 2 continue by (cases "a = b") auto
  next
    case 3
    then show ?thesis using exec_holders [OF continue(3)] by simp
  qed
qed (auto dest: timer_holders)

section \<open>A sample system\<close>

text \<open>
  Four threads: the initial thread runs, the idle thread sleeps, one thread is ready to start
  and one sleeps in \<^verbatim>\<open>sema_down\<close>.
\<close>

definition sample_thread :: "u32 \<Rightarrow> thread_status \<Rightarrow> thread" where
  "sample_thread i st = \<lparr>tid = i, status = st, name = ''t'', stack = 0, priority = 31, magic = THREAD_MAGIC\<rparr>"

definition sample_system :: system where
  "sample_system = \<lparr>
     kern = sample_kernel\<lparr>
       thr := (\<lambda>_. sample_thread 1 THREAD_RUNNING)(0xc0101000 := sample_thread 2 THREAD_BLOCKED,
         0xc0104000 := sample_thread 3 THREAD_READY, 0xc0106000 := sample_thread 4 THREAD_BLOCKED),
       ready_list := [0xc0104000], all_list := [0xc000e000, 0xc0101000, 0xc0104000, 0xc0106000], idle_thread := 0xc0101000\<rparr>,
     pal = sample_palloc PAL_FIRST_FIT,
     intr = \<lparr>idt = (\<lambda>_. 0), intr_handlers = (\<lambda>_. None)(0x20 := Some timer_interrupt), intr_names = trap_names,
       unexpected_cnt = (\<lambda>_. 0), port_log = [], message_log = []\<rparr>,
     tmr = \<lparr>ticks = 0, loops_per_tick = 0\<rparr>,
     sems = (\<lambda>_. sema_init 1)(Sema 0x100 := \<lparr>sema_value = 0, waiters = [0xc0106000]\<rparr>),
     holders = (\<lambda>_. NULL), conds = (\<lambda>_. []),
     frames = (\<lambda>_. [])(0xc0101000 := [Idle_hlt], 0xc0104000 := [Kernel_thread 0xc0020000 0],
       0xc0106000 := [Sema_loop (Sema 0x100) INTR_ON]),
     kernel_thread_eip = 0xc0020100, switch_entry_eip = 0xc0020200, idle_eip = 0xc0020300\<rparr>"

lemma sample_system_simps:
  "live (kern sample_system) = {0xc000e000, 0xc0101000, 0xc0104000, 0xc0106000}" "cur sample_system = 0xc000e000"
  "idle_thread (kern sample_system) = 0xc0101000" "ready_list (kern sample_system) = [0xc0104000]"
  "level (kern sample_system) = INTR_ON" "thread_ticks (kern sample_system) = 0" "initial_thread (kern sample_system) = 0xc000e000"
  by (simp_all add: sample_system_def sample_kernel_def)

lemma sample_kernel_wf: "wf_kernel (kern sample_system)"
  unfolding wf_kernel_def queued_def
  by (auto simp: sample_system_def sample_kernel_def sample_thread_def intr_context_def is_thread_def)

lemma sample_pages_wf: "wf_pages (kern sample_system) (pal sample_system)"
proof -
  have p: "pal sample_system = sample_palloc PAL_FIRST_FIT" by (simp add: sample_system_def)
  have "\<not> pool_index (sample_palloc PAL_FIRST_FIT) sample_bits 0xc000e000 i" for i
    by (simp add: pool_index_def sample_simps)
  moreover have "pool_index (sample_palloc PAL_FIRST_FIT) sample_bits 0xc0101000 0"
    "pool_index (sample_palloc PAL_FIRST_FIT) sample_bits 0xc0104000 3"
    "pool_index (sample_palloc PAL_FIRST_FIT) sample_bits 0xc0106000 5"
    by (simp_all add: pool_index_def sample_simps)
  moreover have "sample_bits False ! 0" "sample_bits False ! 3" "sample_bits False ! 5" by (simp_all add: sample_bits_def)
  ultimately show ?thesis
    unfolding wf_pages_def pages_of_def sample_system_simps p
    by (intro exI [of _ sample_bits]) (auto simp: sample_wf)
qed

lemma sample_waits_wf:
  "wf_waits (live (kern sample_system)) (idle_thread (kern sample_system)) (stat (kern sample_system)) (sems sample_system) (frames sample_system)"
  unfolding wf_waits_def sample_system_simps
  by (auto simp: sample_system_def sample_thread_def sema_init_def in_loop_def intro: exI [of _ "Sema 0x100"])

lemma sample_locks_wf: "wf_locks (live (kern sample_system)) (sems sample_system) (frames sample_system) (holders sample_system)"
proof -
  have "\<not> owns (frames sample_system) (holders sample_system) t a" if "t \<in> live (kern sample_system)" for t a
    using that unfolding sample_system_simps by (auto simp: owns_def sample_system_def taken_frame)
  then show ?thesis
    by (auto simp: wf_locks_def) (auto simp: sample_system_def sema_init_def)
qed

lemma sample_system_wf: "wf_system sample_system"
proof -
  have "wf_stack (cur sample_system) (idle_thread (kern sample_system)) (idle_eip sample_system) (holders sample_system) t (frames sample_system t)"
    if "t \<in> live (kern sample_system)" for t
    using that unfolding sample_system_simps wf_stack_def by (auto simp: sample_system_def idle_stacks_def)
  moreover have "intr_handlers (intr sample_system) 0x20 = Some timer_interrupt" "frames sample_system (cur sample_system) = []"
    by (simp_all add: sample_system_def sample_kernel_def)
  ultimately show ?thesis
    using sample_kernel_wf sample_pages_wf sample_waits_wf sample_locks_wf
    unfolding wf_system_def by (simp add: sample_system_simps TIME_SLICE_def wf_top_def)
qed

lemma tick_within_slice:
  assumes s: "wf_system s" and on: "level (kern s) = INTR_ON" and t: "thread_ticks (kern s) + 1 < TIME_SLICE"
  shows "\<exists>s'. step Timer_tick s s' \<and> wf_system s' \<and> level (kern s') = INTR_ON \<and> thread_ticks (kern s') = thread_ticks (kern s) + 1"
proof -
  have h: "intr_handlers (intr s) 0x20 = Some timer_interrupt" using s by (simp add: wf_system_def)
  obtain s' where s': "timer_tick s = ret s'" "wf_system s'" using timer_tick_wf [OF s on] by (rule returnsE)
  moreover have "\<not> TIME_SLICE \<le> thread_ticks (kern s) + 1" using t by simp
  ultimately have "kern s' = (interrupted False (kern s))\<lparr>level := INTR_ON\<rparr>"
    by (auto simp: timer_tick_def timer_interrupt_handled [OF wf_system_kernel(1) [OF s] h] Let_def)
  then show ?thesis using s' step.timer [OF on s'(1)] by (auto simp: interrupted_def)
qed

lemma sample_trace: "\<exists>es. trace sample_system es \<and> tick_count es = 4"
proof -
  note z = sample_system_simps(5, 6)
  obtain a where a: "step Timer_tick sample_system a" "wf_system a" "level (kern a) = INTR_ON" "thread_ticks (kern a) = 1"
    using tick_within_slice [OF sample_system_wf z(1)] z by (auto simp: TIME_SLICE_def)
  obtain b where b: "step Timer_tick a b" "wf_system b" "level (kern b) = INTR_ON" "thread_ticks (kern b) = 2"
    using tick_within_slice [OF a(2, 3)] a(4) by (auto simp: TIME_SLICE_def)
  obtain c where c: "step Timer_tick b c" "wf_system c" "level (kern c) = INTR_ON"
    using tick_within_slice [OF b(2, 3)] b(4) by (auto simp: TIME_SLICE_def)
  obtain d where d: "timer_tick c = ret d" using timer_tick_wf [OF c(2, 3)] by (rule returnsE)
  have "trace sample_system [(Timer_tick, a), (Timer_tick, b), (Timer_tick, c), (Timer_tick, d)]"
    using a(1) b(1) c(1) step.timer [OF c(3) d] by (intro trace.intros)
  then show ?thesis by (intro exI conjI) (auto simp: tick_count_def)
qed

section \<open>Properties\<close>

definition reaches :: "system \<Rightarrow> system \<Rightarrow> bool" where
  "reaches s s' \<longleftrightarrow> (\<exists>es. trace s es \<and> s' = last (s # map snd es))"

lemma reaches_wf: "wf_system s \<Longrightarrow> reaches s s' \<Longrightarrow> wf_system s'"
  unfolding reaches_def
proof (elim exE conjE)
  fix es
  show "trace s es \<Longrightarrow> wf_system s \<Longrightarrow> s' = last (s # map snd es) \<Longrightarrow> wf_system s'"
    by (induction arbitrary: s' rule: trace.induct) (auto dest: step_wf split: if_splits)
qed

lemma reaches_self: "reaches s s"
  unfolding reaches_def by (intro exI [of _ "[]"]) (simp add: trace.nil)



text \<open>
  C6: Locks exclude. In every reachable state at most one thread is between taking the
  semaphore of a lock in \<^verbatim>\<open>lock_acquire\<close> (or \<^verbatim>\<open>lock_try_acquire\<close>) and giving it back in
  \<^verbatim>\<open>lock_release\<close>, even if it is preempted or if it waits for a condition variable and has to
  take the lock again; and a lock that is held stays with its holder until the holder itself
  executes \<^verbatim>\<open>lock_release\<close>.
\<close>

theorem lock_mutual_exclusion:
  assumes "wf_system s" and "reaches s s'"
  shows "(\<forall>a t u. {t, u} \<subseteq> live (kern s') \<and> owns (frames s') (holders s') t a \<and> owns (frames s') (holders s') u a \<longrightarrow> t = u) \<and>
    (\<forall>a e s''. step e s' s'' \<and> holders s' a \<noteq> NULL \<longrightarrow> holders s'' a = holders s' a \<or>
      e = Continue \<and> holders s' a = cur s' \<and> (\<exists>fs. frames s' (cur s') = Lock_release a # fs))"
proof (intro conjI allI impI; elim conjE)
  have w: "wf_system s'" using reaches_wf [OF assms] .
  show "t = u" if "{t, u} \<subseteq> live (kern s')" "owns (frames s') (holders s') t a" "owns (frames s') (holders s') u a" for a t u
    using locks_unique [OF wf_system_kernel(8) [OF w] _ _ that(2, 3)] that(1) by simp
  show "holders s'' a = holders s' a \<or> e = Continue \<and> holders s' a = cur s' \<and> (\<exists>fs. frames s' (cur s') = Lock_release a # fs)"
    if "step e s' s''" "holders s' a \<noteq> NULL" for a e s''
    using step_holders [OF w that] .
qed

theorem lock_mutual_exclusion_witness:
  "\<forall>a. \<not> (owns (frames sample_system) (holders sample_system) 0xc000e000 a \<and> owns (frames sample_system) (holders sample_system) 0xc0104000 a)"
proof -
  have "{0xc000e000, 0xc0104000} \<subseteq> live (kern sample_system)" "(0xc000e000 :: addr) \<noteq> 0xc0104000"
    by (simp_all add: sample_system_simps)
  then show ?thesis
    using lock_mutual_exclusion [OF sample_system_wf reaches_self, THEN conjunct1] by blast
qed



text \<open>
  C7: Round robin is fair. The thread at position \<open>i\<close> of the ready list runs after at most
  \<open>4 (i + 1)\<close> timer ticks, whatever else happens in between: other threads may yield, sleep, wake
  threads, create threads and exit at any time.
\<close>

theorem round_robin_bounded:
  assumes "wf_system s" and "trace s es" and "i < length (ready_list (kern s))" and "4 * (i + 1) \<le> tick_count es"
  shows "\<exists>(e, s')\<in>set es. cur s' = ready_list (kern s) ! i"
proof -
  have "patience (kern s) i \<le> tick_count es" using assms(4) by (simp add: patience_def)
  then show ?thesis using trace_patience [OF assms(2, 1, 3) refl] by blast
qed

theorem round_robin_bounded_witness:
  "\<exists>es. trace sample_system es \<and> (\<exists>(e, s')\<in>set es. cur s' = 0xc0104000)"
proof -
  obtain es where es: "trace sample_system es" "tick_count es = 4" using sample_trace by blast
  then show ?thesis
    using round_robin_bounded [OF sample_system_wf es(1), of 0] by (auto simp: sample_system_simps)
qed

end
