(* ===== verification/Malloc.thy ===== *)
theory Malloc
  imports Thread
begin

section \<open>Blocks of memory (\<^verbatim>\<open>threads/malloc.c\<close>)\<close>

text \<open>
  The allocator of blocks over the page allocator. The headers of the arenas are bytes of the
  memory, at the start of the arenas' pages: a write to the wrong place destroys them. A free
  list is the list of the addresses of its blocks, in order; its links are in the free blocks,
  which nobody else uses. A pointer to a descriptor is its address in the array \<^verbatim>\<open>descs\<close>, which
  the linker places at \<open>descs_at\<close>. A thread that has to wait for the lock of a descriptor or of
  a page pool makes a call stop with \<^const>\<open>Sleeps\<close>.
\<close>

record desc =
  d_block_size :: size_t
  blocks_per_arena :: size_t
  free_list :: "addr list"
  desc_lock :: lock

record heap =
  descs :: "desc list"
  desc_cnt :: size_t
  descs_at :: addr

definition ARENA_MAGIC :: u32 where
  "ARENA_MAGIC = 0x9a548eed"

abbreviation sizeof_arena :: size_t where
  "sizeof_arena \<equiv> 12"

abbreviation sizeof_desc :: size_t where
  "sizeof_desc \<equiv> 48"

text \<open>The fields of the \<^verbatim>\<open>struct arena\<close> at an address.\<close>

definition a_magic :: "mem \<Rightarrow> addr \<Rightarrow> u32" where
  "a_magic m a = load32 m a"

definition a_desc :: "mem \<Rightarrow> addr \<Rightarrow> addr" where
  "a_desc m a = load32 m (a + 4)"

definition a_free_cnt :: "mem \<Rightarrow> addr \<Rightarrow> size_t" where
  "a_free_cnt m a = load32 m (a + 8)"

definition set_arena :: "addr \<Rightarrow> addr \<Rightarrow> size_t \<Rightarrow> palloc \<Rightarrow> palloc" where
  "set_arena a d cnt st =
     (let m = store_word (memory st) a ARENA_MAGIC;
          m = store_word m (a + 4) d;
          m = store_word m (a + 8) cnt
      in st\<lparr>memory := m\<rparr>)"

definition set_free_cnt :: "addr \<Rightarrow> size_t \<Rightarrow> palloc \<Rightarrow> palloc" where
  "set_free_cnt a cnt st = st\<lparr>memory := store_word (memory st) (a + 8) cnt\<rparr>"

text \<open>\<^verbatim>\<open>&descs[i]\<close>, and the index of the descriptor that a pointer points to.\<close>

definition desc_ptr :: "heap \<Rightarrow> size_t \<Rightarrow> addr" where
  "desc_ptr h i = descs_at h + sizeof_desc * i"

definition desc_index :: "heap \<Rightarrow> addr \<Rightarrow> nat res" where
  "desc_index h d = (let ofs = d - descs_at h; i = unat (ofs div sizeof_desc) in
     if ofs mod sizeof_desc = 0 \<and> i < length (descs h) then ret i else stop Wild_access)"

definition desc_at :: "heap \<Rightarrow> addr \<Rightarrow> desc res" where
  "desc_at h d = andthen (desc_index h d) (rd (descs h))"

definition upd_desc :: "heap \<Rightarrow> addr \<Rightarrow> (desc \<Rightarrow> desc) \<Rightarrow> heap res" where
  "upd_desc h d f = andthen (desc_index h d) (\<lambda>i. ret (h\<lparr>descs := (descs h)[i := f (descs h ! i)]\<rparr>))"

definition malloc_init :: "heap \<Rightarrow> heap res" where
  "malloc_init h =
     loop (\<lambda>(block_size, h).
       if block_size < PGSIZE div 2 then
         let i = desc_cnt h; h = h\<lparr>desc_cnt := i + 1\<rparr> in
         ASSERT (desc_cnt h \<le> 10)
           (andthen (wr (descs h) (unat i) \<lparr>d_block_size = block_size,
               blocks_per_arena = (PGSIZE - sizeof_arena) div block_size,
               free_list = [], desc_lock = lock_init\<rparr>) (\<lambda>ds.
            ret (Inl (block_size * 2, h\<lparr>descs := ds\<rparr>))))
       else ret (Inr h)) (16, h)"

definition block_to_arena :: "mem \<Rightarrow> heap \<Rightarrow> addr \<Rightarrow> addr res" where
  "block_to_arena m h b = (let a = pg_round_down b in
     ASSERT (a \<noteq> NULL) (ASSERT (a_magic m a = ARENA_MAGIC)
       (andthen (if a_desc m a = NULL then ret True
                 else andthen (desc_at h (a_desc m a)) (\<lambda>d. ret ((pg_ofs b - sizeof_arena) mod d_block_size d = 0))) (\<lambda>ok.
        ASSERT ok (ASSERT (a_desc m a \<noteq> NULL \<or> pg_ofs b = sizeof_arena) (ret a))))))"

definition arena_to_block :: "mem \<Rightarrow> heap \<Rightarrow> addr \<Rightarrow> size_t \<Rightarrow> addr res" where
  "arena_to_block m h a idx =
     ASSERT (a \<noteq> NULL) (ASSERT (a_magic m a = ARENA_MAGIC)
       (andthen (desc_at h (a_desc m a)) (\<lambda>d. ASSERT (idx < blocks_per_arena d)
         (ret (a + sizeof_arena + idx * d_block_size d)))))"

text \<open>Taking and releasing the lock of a descriptor.\<close>

definition desc_acquire :: "kernel \<Rightarrow> heap \<Rightarrow> addr \<Rightarrow> (kernel \<times> heap) res" where
  "desc_acquire k h d = andthen (desc_at h d) (\<lambda>x. andthen (lock_acquire k (desc_lock x)) (\<lambda>w. case w of
       Asleep _ \<Rightarrow> stop Sleeps
     | Done (k, l) \<Rightarrow> andthen (upd_desc h d (desc_lock_update (\<lambda>_. l))) (\<lambda>h. ret (k, h))))"

definition desc_release :: "kernel \<Rightarrow> heap \<Rightarrow> addr \<Rightarrow> (kernel \<times> heap) res" where
  "desc_release k h d = andthen (desc_at h d) (\<lambda>x. andthen (lock_release k (desc_lock x)) (\<lambda>(k, l).
     andthen (upd_desc h d (desc_lock_update (\<lambda>_. l))) (\<lambda>h. ret (k, h))))"

text \<open>The part of \<^verbatim>\<open>malloc\<close> for sizes above every descriptor's.\<close>

definition malloc_big :: "kernel \<Rightarrow> palloc \<Rightarrow> heap \<Rightarrow> size_t \<Rightarrow> (addr \<times> kernel \<times> palloc \<times> heap) res" where
  "malloc_big k st h sz =
     (let page_cnt = DIV_ROUND_UP (sz + sizeof_arena) PGSIZE in
      andthen (palloc_get_multiple k st 0 page_cnt) (\<lambda>(a, k, st).
      if a = NULL then ret (NULL, k, st, h)
      else ret (a + sizeof_arena, k, set_arena a NULL page_cnt st, h)))"

text \<open>The blocks of a new arena go to the end of the free list.\<close>

definition fill_arena :: "mem \<Rightarrow> heap \<Rightarrow> addr \<Rightarrow> addr \<Rightarrow> heap res" where
  "fill_arena m h d a = andthen (desc_at h d) (\<lambda>x.
     for_range 0 (blocks_per_arena x) (\<lambda>i h.
       andthen (arena_to_block m h a i) (\<lambda>b.
       upd_desc h d (free_list_update (\<lambda>xs. xs @ [b])))) h)"

text \<open>The new arena that \<^verbatim>\<open>malloc\<close> makes when the free list is empty; \<open>False\<close> when there is no page.\<close>

definition grow :: "kernel \<Rightarrow> palloc \<Rightarrow> heap \<Rightarrow> addr \<Rightarrow> (bool \<times> kernel \<times> palloc \<times> heap) res" where
  "grow k st h d = andthen (desc_at h d) (\<lambda>x.
     if free_list x = [] then
       andthen (palloc_get_page k st 0) (\<lambda>(a, k, st).
       if a = NULL then ret (False, k, st, h)
       else let st = set_arena a d (blocks_per_arena x) st in
         andthen (fill_arena (memory st) h d a) (\<lambda>h. ret (True, k, st, h)))
     else ret (True, k, st, h))"

definition take_block :: "kernel \<Rightarrow> palloc \<Rightarrow> heap \<Rightarrow> addr \<Rightarrow> (addr \<times> kernel \<times> palloc \<times> heap) res" where
  "take_block k st h d = andthen (desc_at h d) (\<lambda>x. ASSERT (free_list x \<noteq> [])
     (let b = hd (free_list x) in
      andthen (upd_desc h d (free_list_update tl)) (\<lambda>h.
      andthen (block_to_arena (memory st) h b) (\<lambda>a.
      let st = set_free_cnt a (a_free_cnt (memory st) a - 1) st in
      andthen (desc_release k h d) (\<lambda>(k, h). ret (b, k, st, h))))))"

definition malloc_small :: "kernel \<Rightarrow> palloc \<Rightarrow> heap \<Rightarrow> addr \<Rightarrow> (addr \<times> kernel \<times> palloc \<times> heap) res" where
  "malloc_small k st h d =
     andthen (desc_acquire k h d) (\<lambda>(k, h).
     andthen (grow k st h d) (\<lambda>(ok, k, st, h).
     if \<not> ok then andthen (desc_release k h d) (\<lambda>(k, h). ret (NULL, k, st, h))
     else take_block k st h d))"

definition malloc :: "kernel \<Rightarrow> palloc \<Rightarrow> heap \<Rightarrow> size_t \<Rightarrow> (addr \<times> kernel \<times> palloc \<times> heap) res" where
  "malloc k st h sz =
     (if sz = 0 then ret (NULL, k, st, h)
      else andthen (for_find 0 (desc_cnt h) (\<lambda>i. andthen (rd (descs h) (unat i)) (\<lambda>d.
             ret (if sz \<le> d_block_size d then Some i else None)))) (\<lambda>d. case d of
          None \<Rightarrow> malloc_big k st h sz
        | Some i \<Rightarrow> malloc_small k st h (desc_ptr h i)))"

definition calloc :: "kernel \<Rightarrow> palloc \<Rightarrow> heap \<Rightarrow> size_t \<Rightarrow> size_t \<Rightarrow> (addr \<times> kernel \<times> palloc \<times> heap) res" where
  "calloc k st h a b = (let sz = a * b in
     if sz < a \<or> sz < b then ret (NULL, k, st, h)
     else andthen (malloc k st h sz) (\<lambda>(p, k, st, h).
       if p \<noteq> NULL then andthen (memset (memory st) p 0 sz) (\<lambda>(_, m). ret (p, k, st\<lparr>memory := m\<rparr>, h))
       else ret (p, k, st, h)))"

definition block_size :: "mem \<Rightarrow> heap \<Rightarrow> addr \<Rightarrow> size_t res" where
  "block_size m h block = andthen (block_to_arena m h block) (\<lambda>a. let d = a_desc m a in
     if d \<noteq> NULL then andthen (desc_at h d) (\<lambda>x. ret (d_block_size x))
     else ret (PGSIZE * a_free_cnt m a - pg_ofs block))"

text \<open>Returning an arena without used blocks: its blocks leave the free list, wherever they are.\<close>

definition drain_arena :: "mem \<Rightarrow> heap \<Rightarrow> addr \<Rightarrow> addr \<Rightarrow> heap res" where
  "drain_arena m h d a = andthen (desc_at h d) (\<lambda>x.
     for_range 0 (blocks_per_arena x) (\<lambda>i h.
       andthen (arena_to_block m h a i) (\<lambda>b. andthen (desc_at h d) (\<lambda>x.
       if b \<in> set (free_list x) then upd_desc h d (free_list_update (remove1 b))
       else stop Wild_access))) h)"

definition free_small :: "kernel \<Rightarrow> palloc \<Rightarrow> heap \<Rightarrow> addr \<Rightarrow> addr \<Rightarrow> addr \<Rightarrow> (kernel \<times> palloc \<times> heap) res" where
  "free_small k st h b a d = andthen (desc_at h d) (\<lambda>x.
     andthen (memset (memory st) b 0xcc (d_block_size x)) (\<lambda>(_, m).
     let st = st\<lparr>memory := m\<rparr> in
     andthen (desc_acquire k h d) (\<lambda>(k, h).
     andthen (upd_desc h d (free_list_update (\<lambda>xs. b # xs))) (\<lambda>h.
     let st = set_free_cnt a (a_free_cnt (memory st) a + 1) st in
     andthen (if blocks_per_arena x \<le> a_free_cnt (memory st) a then
                ASSERT (a_free_cnt (memory st) a = blocks_per_arena x)
                  (andthen (drain_arena (memory st) h d a) (\<lambda>h.
                   andthen (palloc_free_page k st a) (\<lambda>(k, st). ret (k, st, h))))
              else ret (k, st, h)) (\<lambda>(k, st, h).
     andthen (desc_release k h d) (\<lambda>(k, h). ret (k, st, h)))))))"

definition free :: "kernel \<Rightarrow> palloc \<Rightarrow> heap \<Rightarrow> addr \<Rightarrow> (kernel \<times> palloc \<times> heap) res" where
  "free k st h p =
     (if p \<noteq> NULL then
        andthen (block_to_arena (memory st) h p) (\<lambda>a. let d = a_desc (memory st) a in
        if d \<noteq> NULL then free_small k st h p a d
        else andthen (palloc_free_multiple k st a (a_free_cnt (memory st) a)) (\<lambda>(k, st). ret (k, st, h)))
      else ret (k, st, h))"

definition realloc :: "kernel \<Rightarrow> palloc \<Rightarrow> heap \<Rightarrow> addr \<Rightarrow> size_t \<Rightarrow> (addr \<times> kernel \<times> palloc \<times> heap) res" where
  "realloc k st h old_block new_size =
     (if new_size = 0 then andthen (free k st h old_block) (\<lambda>(k, st, h). ret (NULL, k, st, h))
      else andthen (malloc k st h new_size) (\<lambda>(new_block, k, st, h).
        if old_block \<noteq> NULL \<and> new_block \<noteq> NULL then
          andthen (block_size (memory st) h old_block) (\<lambda>old_size.
          let min_size = (if new_size < old_size then new_size else old_size) in
          andthen (memcpy (memory st) new_block old_block min_size) (\<lambda>(_, m).
          andthen (free k (st\<lparr>memory := m\<rparr>) h old_block) (\<lambda>(k, st, h). ret (new_block, k, st, h))))
        else ret (new_block, k, st, h)))"

end
