(* ===== verification/Malloc_Blocks.thy ===== *)
theory Malloc_Blocks
  imports Malloc
begin

text \<open>
  Where arenas and blocks lie in memory, and what the parts of \<^verbatim>\<open>malloc\<close> and \<^verbatim>\<open>free\<close> compute on an
  arena whose header is intact.
\<close>

section \<open>Arena headers in memory\<close>

definition within :: "addr \<Rightarrow> nat \<Rightarrow> addr \<Rightarrow> bool" where
  "within a n x \<longleftrightarrow> unat a \<le> unat x \<and> unat x < unat a + n"

lemma within_offset:
  assumes "unat a + unat n \<le> 4294967296"
  shows "x - a < n \<longleftrightarrow> within a (unat n) x"
proof (cases "a \<le> x")
  case True
  then have "unat (x - a) = unat x - unat a" by (rule unat_minus_le)
  with True show ?thesis by (auto simp: within_def word_nat)
next
  case False
  then have "unat x < unat a" by (simp add: word_nat)
  moreover have "unat (x - a) = 4294967296 + unat x - unat a"
    using False by (simp add: unat_sub_if' word_nat)
  ultimately show ?thesis using assms by (simp add: within_def word_less_nat_alt)
qed

lemma filled_within:
  assumes "unat a + unat n \<le> 4294967296"
  shows "filled m a n v x = (if within a (unat n) x then v else m x)"
  by (simp add: filled_def within_offset [OF assms])

lemma load_store [simp]: "load32 (store_word m a w) a = w"
proof (rule bit_word_eqI)
  fix n assume "n < LENGTH(32)"
  then show "bit (load32 (store_word m a w) a) n = bit w n"
    unfolding load32_def store_word_def by (cases "24 \<le> n"; cases "16 \<le> n"; cases "8 \<le> n") (auto simp: bit_simps)
qed

lemma store_word_other: "x \<noteq> a \<Longrightarrow> x \<noteq> a + 1 \<Longrightarrow> x \<noteq> a + 2 \<Longrightarrow> x \<noteq> a + 3 \<Longrightarrow> store_word m a w x = m x"
  by (simp add: store_word_def)

lemma add_numeral_neq [simp]:
  "(a :: addr) + numeral v = a + numeral w \<longleftrightarrow> (numeral v :: addr) = numeral w"
  "(a :: addr) + 1 = a + numeral w \<longleftrightarrow> (1 :: addr) = numeral w"
  "(a :: addr) + numeral w = a + 1 \<longleftrightarrow> (numeral w :: addr) = 1"
  "(a :: addr) = a + numeral w \<longleftrightarrow> (numeral w :: addr) = 0"
  by (metis add_left_cancel, metis add_left_cancel, metis add_left_cancel, metis add.right_neutral add_left_cancel)

lemma load_store_other:
  "load32 (store_word m (a + 4) w) a = load32 m a" "load32 (store_word m (a + 8) w) a = load32 m a"
  "load32 (store_word m (a + 8) w) (a + 4) = load32 m (a + 4)"
  by (simp_all add: load32_def store_word_def add.assoc)

lemma arena_fields [simp]:
  "a_magic (memory (set_arena a d c st)) a = ARENA_MAGIC" "a_desc (memory (set_arena a d c st)) a = d"
  "a_free_cnt (memory (set_arena a d c st)) a = c"
  "a_magic (memory (set_free_cnt a c st)) a = a_magic (memory st) a"
  "a_desc (memory (set_free_cnt a c st)) a = a_desc (memory st) a" "a_free_cnt (memory (set_free_cnt a c st)) a = c"
  by (simp_all add: set_arena_def set_free_cnt_def a_magic_def a_desc_def a_free_cnt_def load_store_other)

section \<open>Descriptors\<close>

definition bsz :: "nat \<Rightarrow> nat" where
  "bsz i = 16 * 2 ^ i"

definition bpa :: "nat \<Rightarrow> nat" where
  "bpa i = 4084 div bsz i"

lemma seven_cases: "(i :: nat) < 7 \<Longrightarrow> i = 0 \<or> i = 1 \<or> i = 2 \<or> i = 3 \<or> i = 4 \<or> i = 5 \<or> i = 6"
  by linarith

lemma bsz_bounds: "i < 7 \<Longrightarrow> 16 \<le> bsz i \<and> bsz i \<le> 1024 \<and> 3 \<le> bpa i \<and> bpa i \<le> 255"
  by (drule seven_cases) (auto simp: bsz_def bpa_def)

lemma blocks_fit: "j < bpa i \<Longrightarrow> bsz i * j + bsz i \<le> 4084"
proof -
  assume "j < bpa i"
  then have "bsz i * (j + 1) \<le> bsz i * bpa i" by (intro mult_le_mono2) simp
  also have "\<dots> \<le> 4084" by (simp add: bpa_def)
  finally show ?thesis by simp
qed

abbreviation fl :: "heap \<Rightarrow> nat \<Rightarrow> addr list" where
  "fl h i \<equiv> free_list (descs h ! i)"

abbreviation dptr :: "heap \<Rightarrow> nat \<Rightarrow> addr" where
  "dptr h i \<equiv> desc_ptr h (of_nat i)"

text \<open>The descriptors as \<^verbatim>\<open>malloc_init\<close> makes them, with any free lists and locks.\<close>

definition sized :: "heap \<Rightarrow> bool" where
  "sized h \<longleftrightarrow> length (descs h) = 10 \<and> desc_cnt h = 7 \<and> descs_at h \<noteq> NULL \<and> unat (descs_at h) + 480 \<le> 4294967296 \<and>
     (\<forall>i < 7. d_block_size (descs h ! i) = of_nat (bsz i) \<and> blocks_per_arena (descs h ! i) = of_nat (bpa i))"

definition unlocked :: "heap \<Rightarrow> bool" where
  "unlocked h \<longleftrightarrow> (\<forall>i < 7. desc_lock (descs h ! i) = lock_init)"

definition with_fl :: "nat \<Rightarrow> addr list \<Rightarrow> heap \<Rightarrow> heap" where
  "with_fl i xs h = h\<lparr>descs := (descs h)[i := (descs h ! i)\<lparr>free_list := xs\<rparr>]\<rparr>"

definition with_lock :: "nat \<Rightarrow> lock \<Rightarrow> heap \<Rightarrow> heap" where
  "with_lock i l h = h\<lparr>descs := (descs h)[i := (descs h ! i)\<lparr>desc_lock := l\<rparr>]\<rparr>"

lemma sized_length: "sized h \<Longrightarrow> i < 7 \<Longrightarrow> i < length (descs h)"
  and sized_bsz: "sized h \<Longrightarrow> i < 7 \<Longrightarrow> d_block_size (descs h ! i) = of_nat (bsz i)"
  and sized_bpa: "sized h \<Longrightarrow> i < 7 \<Longrightarrow> blocks_per_arena (descs h ! i) = of_nat (bpa i)"
  by (simp_all add: sized_def)

lemma unat_bsz [simp]: "i < 7 \<Longrightarrow> unat (of_nat (bsz i) :: u32) = bsz i" "i < 7 \<Longrightarrow> unat (of_nat (bpa i) :: u32) = bpa i"
  using bsz_bounds [of i] by (simp_all add: unat_of_nat)

lemma with_fl_nth: "descs (with_fl i xs h) ! j =
    (if j = i \<and> i < length (descs h) then (descs h ! i)\<lparr>free_list := xs\<rparr> else descs h ! j)"
  and with_lock_nth: "descs (with_lock i l h) ! j =
    (if j = i \<and> i < length (descs h) then (descs h ! i)\<lparr>desc_lock := l\<rparr> else descs h ! j)"
  by (cases "i < length (descs h)"; auto simp: with_fl_def with_lock_def nth_list_update list_update_beyond)+

lemma with_fields [simp]:
  "d_block_size (descs (with_fl i xs h) ! j) = d_block_size (descs h ! j)"
  "blocks_per_arena (descs (with_fl i xs h) ! j) = blocks_per_arena (descs h ! j)"
  "desc_lock (descs (with_fl i xs h) ! j) = desc_lock (descs h ! j)"
  "d_block_size (descs (with_lock i l h) ! j) = d_block_size (descs h ! j)"
  "blocks_per_arena (descs (with_lock i l h) ! j) = blocks_per_arena (descs h ! j)"
  "fl (with_lock i l h) j = fl h j"
  "i < length (descs h) \<Longrightarrow> fl (with_fl i xs h) j = (if j = i then xs else fl h j)"
  "i < length (descs h) \<Longrightarrow> desc_lock (descs (with_lock i l h) ! i) = l"
  by (simp_all add: with_fl_nth with_lock_nth)

lemma with_heap [simp]:
  "length (descs (with_fl i xs h)) = length (descs h)" "length (descs (with_lock i l h)) = length (descs h)"
  "desc_cnt (with_fl i xs h) = desc_cnt h" "desc_cnt (with_lock i l h) = desc_cnt h"
  "descs_at (with_fl i xs h) = descs_at h" "descs_at (with_lock i l h) = descs_at h"
  by (simp_all add: with_fl_def with_lock_def)

lemma with_sized [simp]:
  "sized (with_fl i xs h) = sized h" "sized (with_lock i l h) = sized h" "unlocked (with_fl i xs h) = unlocked h"
  "desc_ptr (with_fl i xs h) n = desc_ptr h n" "desc_ptr (with_lock i l h) n = desc_ptr h n"
  by (simp_all add: sized_def unlocked_def desc_ptr_def)

lemma heap_eqI:
  "length (descs (h :: heap)) = length (descs h') \<Longrightarrow> (\<And>j. j < length (descs h') \<Longrightarrow> descs h ! j = descs h' ! j) \<Longrightarrow>
   desc_cnt h = desc_cnt h' \<Longrightarrow> descs_at h = descs_at h' \<Longrightarrow> h = h'"
  by (rule heap.equality) (simp_all add: nth_equalityI)

lemma with_with [simp]:
  "with_fl i ys (with_fl i xs h) = with_fl i ys h" "with_lock i l' (with_lock i l h) = with_lock i l' h"
  "with_lock i l (with_fl i xs h) = with_fl i xs (with_lock i l h)"
  by (rule heap_eqI; simp add: with_fl_nth with_lock_nth)+

lemma with_same: "unlocked h \<Longrightarrow> i < 7 \<Longrightarrow> with_lock i lock_init h = h" "with_fl i (fl h i) h = h"
  by (rule heap_eqI; simp add: with_fl_nth with_lock_nth unlocked_def)+

lemma desc_index_ptr:
  assumes "sized h" and "i < 7"
  shows "desc_index h (dptr h i) = ret i" and "dptr h i \<noteq> NULL"
proof -
  have i: "unat (of_nat i :: u32) = i" using assms(2) by (simp add: unat_of_nat)
  then have m: "unat (48 * of_nat i :: u32) = 48 * i"
    using assms(2) by (subst unat_mult_lem [THEN iffD1]) simp_all
  then have "unat (48 * of_nat i div 48 :: u32) = i" "48 * of_nat i mod 48 = (0 :: u32)"
    by (simp_all add: unat_div unat_mod flip: unat_eq_zero)
  then show "desc_index h (dptr h i) = ret i"
    using assms by (simp add: desc_index_def desc_ptr_def sized_def Let_def)
  have "unat (dptr h i) = unat (descs_at h) + 48 * i"
    using assms m unfolding desc_ptr_def sized_def by (subst unat_add_le) simp_all
  moreover have "0 < unat (descs_at h)" using assms(1) by (simp add: sized_def unat_gt_0)
  ultimately show "dptr h i \<noteq> NULL" by (metis add_gr_0 less_irrefl unsigned_0)
qed

lemma free_list_const: "free_list_update f d = d\<lparr>free_list := f (free_list d)\<rparr>"
  by (cases d) simp

lemma desc_at_ptr [simp]:
  assumes "sized h" and "i < 7"
  shows "desc_at h (dptr h i) = ret (descs h ! i)"
    and "upd_desc h (dptr h i) (free_list_update f) = ret (with_fl i (f (fl h i)) h)"
    and "upd_desc h (dptr h i) (desc_lock_update (\<lambda>_. l)) = ret (with_lock i l h)"
  using assms desc_index_ptr [OF assms] sized_length [OF assms]
  by (simp_all add: desc_at_def upd_desc_def with_fl_def with_lock_def free_list_const [of f])

section \<open>Pages and blocks\<close>

definition page :: "addr \<Rightarrow> nat \<Rightarrow> addr" where
  "page P p = P + 4096 * of_nat p"

definition blk :: "addr \<Rightarrow> nat \<Rightarrow> nat \<Rightarrow> nat \<Rightarrow> addr" where
  "blk P i p j = page P p + 12 + of_nat j * of_nat (bsz i)"

definition room :: "addr \<Rightarrow> nat \<Rightarrow> bool" where
  "room P n \<longleftrightarrow> unat P mod 4096 = 0 \<and> P \<noteq> NULL \<and> unat P + 4096 * n \<le> 4294967296"

lemma unat_page:
  assumes "room P n" and "p < n"
  shows "unat (page P p) = unat P + 4096 * p" and "page P p \<noteq> NULL"
proof -
  have "unat (of_nat p :: addr) = p" using assms by (simp add: room_def unat_of_nat)
  then have "unat (4096 * of_nat p :: addr) = 4096 * p"
    using assms by (subst unat_mult_lem [THEN iffD1]) (simp_all add: room_def)
  then show u: "unat (page P p) = unat P + 4096 * p"
    using assms unfolding page_def by (subst unat_add_le) (simp_all add: room_def)
  have "0 < unat P" using assms(1) by (simp add: room_def unat_gt_0)
  with u show "page P p \<noteq> NULL" by (metis add_gr_0 less_irrefl unsigned_0)
qed

lemma page_inj: "room P n \<Longrightarrow> p < n \<Longrightarrow> q < n \<Longrightarrow> page P p = page P q \<longleftrightarrow> p = q"
  using unat_page(1) [of P n p] unat_page(1) [of P n q] by (metis add_left_cancel mult_left_cancel zero_neq_numeral)

lemma unat_blk:
  assumes "room P n" and "p < n" and "i < 7" and "j < bpa i"
  shows "unat (blk P i p j) = unat P + 4096 * p + 12 + bsz i * j"
proof -
  have le: "bsz i * j \<le> 4068" using blocks_fit [OF assms(4)] bsz_bounds [OF assms(3)] by linarith
  have "unat (of_nat j :: u32) = j" using assms(4) bsz_bounds [OF assms(3)] by (simp add: unat_of_nat)
  then have "unat (of_nat j * of_nat (bsz i) :: u32) = bsz i * j"
    using le assms(3) by (subst unat_mult_lem [THEN iffD1]) (simp_all add: mult.commute)
  moreover have "4096 * p + 4096 \<le> 4096 * n" using assms(2) by simp
  then have "unat P + 4096 * p + 4096 \<le> 4294967296" using assms(1) by (simp add: room_def)
  moreover from this have "unat (page P p + 12) = unat P + 4096 * p + 12"
    using unat_page(1) [OF assms(1,2)] by (subst unat_add_le) simp_all
  ultimately show ?thesis
    using le unfolding blk_def by (subst unat_add_le) simp_all
qed

lemma page_round:
  assumes "room P n" and "p < n" and "unat x = unat P + 4096 * p + k" and "k < 4096"
  shows "pg_round_down x = page P p" and "unat (pg_ofs x) = k"
proof -
  define Q where "Q = unat P div 4096"
  have Q: "unat P = Q * 4096"
    using assms(1) div_mult_mod_eq [of "unat P" 4096] by (simp add: room_def Q_def)
  have x: "unat x = k + (Q + p) * 4096" using assms(3) Q by simp
  have "unat x div 4096 = Q + p" unfolding x using assms(4) by (subst div_mult_self1) simp_all
  moreover have "unat x mod 4096 = k" unfolding x using assms(4) by (subst mod_mult_self1) simp
  ultimately have "unat (pg_round_down x) = unat (page P p)" "unat (pg_ofs x) = k"
    using Q by (simp_all add: unat_pg_round_down unat_page [OF assms(1,2)] unat_pg_ofs)
  then show "pg_round_down x = page P p" "unat (pg_ofs x) = k" by (simp_all only: word_unat_eq_iff)
qed

lemma blk_page:
  assumes "room P n" and "p < n" and "i < 7" and "j < bpa i"
  shows "pg_round_down (blk P i p j) = page P p" and "(pg_ofs (blk P i p j) - 12) mod of_nat (bsz i) = 0"
    and "blk P i p j \<noteq> NULL"
proof -
  have lt: "12 + bsz i * j < 4096" using blocks_fit [OF assms(4)] bsz_bounds [OF assms(3)] by linarith
  have u: "unat (blk P i p j) = unat P + 4096 * p + (12 + bsz i * j)"
    using unat_blk [OF assms] by simp
  show "pg_round_down (blk P i p j) = page P p" by (rule page_round [OF assms(1,2) u lt])
  have o: "unat (pg_ofs (blk P i p j)) = 12 + bsz i * j" by (rule page_round [OF assms(1,2) u lt])
  then have "unat (pg_ofs (blk P i p j) - 12) = bsz i * j"
    by (subst unat_minus_le) (simp_all add: word_nat)
  then show "(pg_ofs (blk P i p j) - 12) mod of_nat (bsz i) = 0"
    using assms(3) by (simp add: unat_mod flip: unat_eq_zero)
  have "0 < unat (blk P i p j)" using u by simp
  then show "blk P i p j \<noteq> NULL" by auto
qed

lemma blk_inj:
  assumes "room P n" and "p < n" and "i < 7" and "j < bpa i" and "j' < bpa i"
  shows "blk P i p j = blk P i p j' \<longleftrightarrow> j = j'"
  using unat_blk [OF assms(1-4)] unat_blk [OF assms(1-3,5)] bsz_bounds [OF assms(3)]
  by (metis add_left_cancel mult_left_cancel not_numeral_le_zero)

lemma big_page:
  assumes "room P n" and "p < n"
  shows "unat (page P p + 12) = unat P + 4096 * p + 12" and "pg_round_down (page P p + 12) = page P p"
    and "pg_ofs (page P p + 12) = 12" and "page P p + 12 \<noteq> NULL"
proof -
  have "4096 * p + 4096 \<le> 4096 * n" using assms(2) by simp
  then have "unat P + 4096 * p + 4096 \<le> 4294967296" using assms(1) by (simp add: room_def)
  then show u: "unat (page P p + 12) = unat P + 4096 * p + 12"
    using unat_page(1) [OF assms] by (subst unat_add_le) simp_all
  show "pg_round_down (page P p + 12) = page P p" by (rule page_round [OF assms u]) simp
  have "unat (pg_ofs (page P p + 12)) = 12" by (rule page_round [OF assms u]) simp
  then have "of_nat (unat (pg_ofs (page P p + 12))) = (12 :: u32)" by simp
  then show "pg_ofs (page P p + 12) = 12" by simp
  show "page P p + 12 \<noteq> NULL"
  proof
    assume "page P p + 12 = NULL"
    then show False using u by simp
  qed
qed

section \<open>The parts of the calls\<close>

text \<open>The header of a small arena of descriptor \<open>i\<close>, and of a big one.\<close>

definition small_at :: "mem \<Rightarrow> heap \<Rightarrow> nat \<Rightarrow> addr \<Rightarrow> bool" where
  "small_at m h i a \<longleftrightarrow> a_magic m a = ARENA_MAGIC \<and> a_desc m a = dptr h i"

definition big_at :: "mem \<Rightarrow> addr \<Rightarrow> bool" where
  "big_at m a \<longleftrightarrow> a_magic m a = ARENA_MAGIC \<and> a_desc m a = NULL"

lemma block_to_arena_small:
  assumes "sized h" and "room P n" and "p < n" and "i < 7" and "j < bpa i" and "small_at m h i (page P p)"
  shows "block_to_arena m h (blk P i p j) = ret (page P p)"
  using assms(6) blk_page [OF assms(2-5)] unat_page(2) [OF assms(2,3)] desc_index_ptr(2) [OF assms(1,4)]
  by (simp add: block_to_arena_def small_at_def assms(1,4) sized_bsz)

lemma block_to_arena_big:
  assumes "room P n" and "p < n" and "big_at m (page P p)"
  shows "block_to_arena m h (page P p + 12) = ret (page P p)"
  using assms(3) big_page [OF assms(1,2)] unat_page(2) [OF assms(1,2)]
  by (simp add: block_to_arena_def big_at_def)

lemma arena_to_block_small:
  assumes "sized h" and "i < 7" and "a \<noteq> NULL" and "small_at m h i a" and "idx < of_nat (bpa i)"
  shows "arena_to_block m h a idx = ret (a + 12 + idx * of_nat (bsz i))"
  using assms by (simp add: arena_to_block_def small_at_def sized_bsz sized_bpa)

lemma fill_arena_small:
  assumes h: "sized h" and i: "i < 7" and P: "room P n" "p < n" and s: "small_at m h i (page P p)"
  shows "fill_arena m h (dptr h i) (page P p) = ret (with_fl i (fl h i @ map (blk P i p) [0..<bpa i]) h)"
proof -
  let ?f = "\<lambda>idx h'. andthen (arena_to_block m h' (page P p) idx) (\<lambda>b. upd_desc h' (dptr h i) (free_list_update (\<lambda>xs. xs @ [b])))"
  have "returns (for_range 0 (of_nat (bpa i)) ?f h)
      (\<lambda>h'. h' = with_fl i (fl h i @ map (blk P i p) [0..<unat (of_nat (bpa i) :: u32)]) h)"
  proof (rule returns_for_range)
    show "h = with_fl i (fl h i @ map (blk P i p) [0..<unat (0 :: u32)]) h" by (simp add: with_same)
  next
    fix idx :: u32 and h' assume idx: "idx < of_nat (bpa i)" and h': "h' = with_fl i (fl h i @ map (blk P i p) [0..<unat idx]) h"
    have "small_at m h' i (page P p)" using s h' by (simp add: small_at_def)
    then have "arena_to_block m h' (page P p) idx = ret (blk P i p (unat idx))"
      using arena_to_block_small [of h' i "page P p" m idx] h h' i idx unat_page(2) [OF P] by (simp add: blk_def)
    moreover have "upd_desc h' (dptr h i) (free_list_update (\<lambda>xs. xs @ [blk P i p (unat idx)])) =
        ret (with_fl i (fl h' i @ [blk P i p (unat idx)]) h')"
      using desc_at_ptr(2) [of h' i "\<lambda>xs. xs @ [blk P i p (unat idx)]"] h h' i by simp
    ultimately show "returns (?f idx h') (\<lambda>h''. h'' = with_fl i (fl h i @ map (blk P i p) [0..<Suc (unat idx)]) h)"
      using h' sized_length [OF h i] by (simp add: wp)
  qed simp
  then show ?thesis
    using h i by (auto simp: fill_arena_def sized_bpa elim: returnsE)
qed

lemma drain_arena_small:
  assumes h: "sized h" and i: "i < 7" and P: "room P n" "p < n" and s: "small_at m h i (page P p)"
    and xs: "distinct (fl h i)" "blk P i p ` {..<bpa i} \<subseteq> set (fl h i)"
  shows "drain_arena m h (dptr h i) (page P p) = ret (with_fl i (filter (\<lambda>b. b \<notin> blk P i p ` {..<bpa i}) (fl h i)) h)"
proof -
  let ?ys = "\<lambda>k. filter (\<lambda>b. b \<notin> blk P i p ` {..<k}) (fl h i)"
  let ?f = "\<lambda>idx h'. andthen (arena_to_block m h' (page P p) idx) (\<lambda>b. andthen (desc_at h' (dptr h i)) (\<lambda>x.
       if b \<in> set (free_list x) then upd_desc h' (dptr h i) (free_list_update (remove1 b)) else stop Wild_access))"
  have "returns (for_range 0 (of_nat (bpa i)) ?f h) (\<lambda>h'. h' = with_fl i (?ys (unat (of_nat (bpa i) :: u32))) h)"
  proof (rule returns_for_range)
    show "h = with_fl i (?ys (unat (0 :: u32))) h" by (simp add: with_same)
  next
    fix idx :: u32 and h' assume idx: "idx < of_nat (bpa i)" and h': "h' = with_fl i (?ys (unat idx)) h"
    have lt: "unat idx < bpa i" using idx i by (simp add: word_less_nat_alt)
    have "small_at m h' i (page P p)" using s h' by (simp add: small_at_def)
    then have a: "arena_to_block m h' (page P p) idx = ret (blk P i p (unat idx))"
      using arena_to_block_small [of h' i "page P p" m idx] h h' i idx unat_page(2) [OF P] by (simp add: blk_def)
    have new: "blk P i p (unat idx) \<notin> blk P i p ` {..<unat idx}"
    proof
      assume "blk P i p (unat idx) \<in> blk P i p ` {..<unat idx}"
      then obtain j where "j < unat idx" "blk P i p (unat idx) = blk P i p j" by auto
      then show False using blk_inj [OF P i lt, of j] lt by simp
    qed
    then have in_fl: "blk P i p (unat idx) \<in> set (fl h' i)"
      using xs(2) lt h' sized_length [OF h i] by auto
    have "remove1 (blk P i p (unat idx)) (?ys (unat idx)) = ?ys (Suc (unat idx))"
      using xs(1) by (auto simp: distinct_remove1_removeAll lessThan_Suc removeAll_filter_not_eq intro: filter_cong)
    moreover have "upd_desc h' (dptr h i) (free_list_update (remove1 b)) = ret (with_fl i (remove1 b (fl h' i)) h')" for b
      using desc_at_ptr(2) [of h' i "remove1 b"] h h' i by simp
    moreover have "desc_at h' (dptr h i) = ret (descs h' ! i)"
      using desc_at_ptr(1) [of h' i] h h' i by simp
    ultimately show "returns (?f idx h') (\<lambda>h''. h'' = with_fl i (?ys (Suc (unat idx))) h)"
      using a in_fl h' sized_length [OF h i] by (simp add: wp)
  qed simp
  then show ?thesis
    using h i by (auto simp: drain_arena_def sized_bpa elim: returnsE)
qed

lemma desc_acquire_free:
  assumes "runs k" and "sized h" and "unlocked h" and "i < 7"
  shows "desc_acquire k h (dptr h i) = ret (k, with_lock i (lock_held (running k)) h)"
  using assms by (simp add: desc_acquire_def unlocked_def lock_acquire_free)

lemma desc_release_held:
  assumes "runs k" and "sized h" and "i < 7" and "desc_lock (descs h ! i) = lock_held (running k)" and "d = dptr h i"
  shows "desc_release k h d = ret (k, with_lock i lock_init h)"
  using assms by (simp add: desc_release_def lock_release_held)

lemma take_block_small:
  assumes k: "runs k" and h: "sized h" "unlocked h" and i: "i < 7" and fl: "fl h i = blk P i p j # bs"
    and P: "room P n" "p < n" "j < bpa i" and s: "small_at (memory st) h i (page P p)"
  shows "take_block k st (with_lock i (lock_held (running k)) h) (dptr h i) =
    ret (blk P i p j, k, set_free_cnt (page P p) (a_free_cnt (memory st) (page P p) - 1) st, with_fl i bs h)"
proof -
  let ?h = "with_lock i (lock_held (running k)) h"
  have sz: "sized ?h" "dptr ?h i = dptr h i" "fl ?h i = blk P i p j # bs" using h(1) fl by simp_all
  have at: "desc_at ?h (dptr h i) = ret (descs ?h ! i)" "upd_desc ?h (dptr h i) (free_list_update tl) = ret (with_fl i bs ?h)"
    using desc_at_ptr [OF sz(1) i] sz by simp_all
  have "block_to_arena (memory st) (with_fl i bs ?h) (blk P i p j) = ret (page P p)"
    using s by (intro block_to_arena_small [OF _ P(1,2) i P(3)]) (simp_all add: h(1) small_at_def)
  moreover have "desc_release k (with_fl i bs ?h) (dptr h i) = ret (k, with_fl i bs h)"
    using desc_release_held [OF k _ i, of "with_fl i bs ?h" "dptr h i"] h i sized_length [OF h(1) i]
    by (simp add: with_same)
  ultimately show ?thesis
    unfolding take_block_def using at sz by (simp add: Let_def)
qed

lemma malloc_small_take:
  assumes k: "runs k" and h: "sized h" "unlocked h" and i: "i < 7" and fl: "fl h i = blk P i p j # bs"
    and P: "room P n" "p < n" "j < bpa i" and s: "small_at (memory st) h i (page P p)"
  shows "malloc_small k st h (dptr h i) =
    ret (blk P i p j, k, set_free_cnt (page P p) (a_free_cnt (memory st) (page P p) - 1) st, with_fl i bs h)"
proof -
  let ?h = "with_lock i (lock_held (running k)) h"
  have "desc_at ?h (dptr h i) = ret (descs ?h ! i)"
    using desc_at_ptr(1) [of ?h i] h(1) i by simp
  then have "grow k st ?h (dptr h i) = ret (True, k, st, ?h)"
    using fl by (simp add: grow_def)
  then show ?thesis
    using take_block_small [OF assms] by (simp add: malloc_small_def desc_acquire_free [OF k h i])
qed

lemma malloc_small_none:
  assumes k: "runs k" and h: "sized h" "unlocked h" and i: "i < 7" and fl: "fl h i = []"
    and none: "palloc_get_page k st 0 = ret (NULL, k, st)"
  shows "malloc_small k st h (dptr h i) = ret (NULL, k, st, h)"
proof -
  let ?h = "with_lock i (lock_held (running k)) h"
  have "desc_at ?h (dptr h i) = ret (descs ?h ! i)"
    using desc_at_ptr(1) [of ?h i] h(1) i by simp
  then have "grow k st ?h (dptr h i) = ret (False, k, st, ?h)"
    using fl none by (simp add: grow_def)
  moreover have "desc_release k ?h (dptr h i) = ret (k, h)"
    using desc_release_held [OF k _ i, of ?h "dptr h i"] h i sized_length [OF h(1) i] by (simp add: with_same)
  ultimately show ?thesis
    by (simp add: malloc_small_def desc_acquire_free [OF k h i])
qed

lemma malloc_small_grow:
  assumes k: "runs k" and h: "sized h" "unlocked h" and i: "i < 7" and fl: "fl h i = []"
    and P: "room P n" "p < n" and get: "palloc_get_page k st 0 = ret (page P p, k, st1)"
  shows "malloc_small k st h (dptr h i) =
    (let st2 = set_arena (page P p) (dptr h i) (of_nat (bpa i)) st1
     in ret (blk P i p 0, k, set_free_cnt (page P p) (of_nat (bpa i) - 1) st2, with_fl i (map (blk P i p) [1..<bpa i]) h))"
proof -
  let ?h = "with_lock i (lock_held (running k)) h" and ?st = "set_arena (page P p) (dptr h i) (of_nat (bpa i)) st1"
  let ?g = "with_fl i (map (blk P i p) [0..<bpa i]) h"
  have s: "small_at (memory ?st) ?h i (page P p)" "small_at (memory ?st) ?g i (page P p)"
    by (simp_all add: small_at_def)
  have "fill_arena (memory ?st) ?h (dptr h i) (page P p) = ret (with_lock i (lock_held (running k)) ?g)"
    using fill_arena_small [OF _ i P s(1)] h(1) fl by simp
  moreover have "desc_at ?h (dptr h i) = ret (descs ?h ! i)"
    using desc_at_ptr(1) [of ?h i] h(1) i by simp
  ultimately have g: "grow k st ?h (dptr h i) = ret (True, k, ?st, with_lock i (lock_held (running k)) ?g)"
    using fl get unat_page(2) [OF P] sized_bpa [OF h(1) i] by (simp add: grow_def Let_def)
  have b: "0 < bpa i" using bsz_bounds [OF i] by simp
  then have "fl ?g i = blk P i p 0 # map (blk P i p) [1..<bpa i]"
    using sized_length [OF h(1) i] by (simp add: upt_conv_Cons)
  then have "take_block k ?st (with_lock i (lock_held (running k)) ?g) (dptr ?g i) =
      ret (blk P i p 0, k, set_free_cnt (page P p) (of_nat (bpa i) - 1) ?st, with_fl i (map (blk P i p) [1..<bpa i]) ?g)"
    using take_block_small [OF k _ _ i _ P b s(2)] h by simp
  then show ?thesis
    using g by (simp add: malloc_small_def desc_acquire_free [OF k h i] Let_def)
qed

lemma header_cong:
  assumes "unat a + 12 \<le> 4294967296" and "\<And>x. within a 12 x \<Longrightarrow> m' x = m x"
  shows "a_magic m' a = a_magic m a" and "a_desc m' a = a_desc m a" and "a_free_cnt m' a = a_free_cnt m a"
proof -
  have *: "m' (a + of_nat k) = m (a + of_nat k)" if "k < 12" for k
    using no_wrap_offset [OF assms(1) that] that by (intro assms(2)) (simp add: within_def)
  have "m' a = m a" "m' (a + 1) = m (a + 1)" "m' (a + 2) = m (a + 2)" "m' (a + 3) = m (a + 3)"
    "m' (a + 4) = m (a + 4)" "m' (a + 5) = m (a + 5)" "m' (a + 6) = m (a + 6)" "m' (a + 7) = m (a + 7)"
    "m' (a + 8) = m (a + 8)" "m' (a + 9) = m (a + 9)" "m' (a + 10) = m (a + 10)" "m' (a + 11) = m (a + 11)"
    using * [of 0] * [of 1] * [of 2] * [of 3] * [of 4] * [of 5] * [of 6] * [of 7] * [of 8] * [of 9] * [of 10] * [of 11]
    by simp_all
  then show "a_magic m' a = a_magic m a" "a_desc m' a = a_desc m a" "a_free_cnt m' a = a_free_cnt m a"
    by (simp_all add: a_magic_def a_desc_def a_free_cnt_def load32_def add.assoc)
qed

lemma store_word_within:
  assumes "unat a + 12 \<le> 4294967296" and "\<not> within a 12 x" and "k \<le> 8"
  shows "store_word m (a + of_nat k) w x = m x"
proof -
  have "x \<noteq> a + of_nat j" if "j < 12" for j
    using no_wrap_offset [OF assms(1) that] that assms(2) by (auto simp: within_def)
  from this [of k] this [of "k + 1"] this [of "k + 2"] this [of "k + 3"] assms(3) show ?thesis
    by (intro store_word_other) (simp_all add: add.assoc add.commute add.left_commute)
qed

lemma set_arena_other:
  assumes "unat a + 12 \<le> 4294967296" and "\<not> within a 12 x"
  shows "memory (set_arena a d c st) x = memory st x" and "memory (set_free_cnt a c st) x = memory st x"
  using store_word_within [OF assms, of 0] store_word_within [OF assms, of 4] store_word_within [OF assms, of 8]
  by (simp_all add: set_arena_def set_free_cnt_def Let_def)

lemma set_arena_pools [simp]:
  "get_pool u (set_arena a d c st) = get_pool u st" "get_pool u (set_free_cnt a c st) = get_pool u st"
  "kernel_pool (set_arena a d c st) = kernel_pool st" "kernel_pool (set_free_cnt a c st) = kernel_pool st"
  "wf_palloc (set_arena a d c st) B = wf_palloc st B" "wf_palloc (set_free_cnt a c st) B = wf_palloc st B"
  by (simp_all add: set_arena_def set_free_cnt_def)

lemma malloc_cases:
  assumes h: "sized h" and sz: "sz \<noteq> 0"
  obtains (big) "1024 < unat sz" "malloc k st h sz = malloc_big k st h sz"
  | (small) i where "i < 7" "unat sz \<le> bsz i" "\<And>j. j < i \<Longrightarrow> bsz j < unat sz"
      "malloc k st h sz = malloc_small k st h (dptr h i)"
proof -
  let ?f = "\<lambda>i. if unat sz \<le> bsz i then Some (of_nat i :: u32) else None"
  have "for_find 0 (desc_cnt h) (\<lambda>i. andthen (rd (descs h) (unat i)) (\<lambda>d.
        ret (if sz \<le> d_block_size d then Some i else None))) = ret (first_some ?f [unat (0 :: u32)..<unat (desc_cnt h)])"
  proof (rule for_find_eq)
    fix i :: u32 assume "i < desc_cnt h"
    then have i: "unat i < 7" using h by (simp add: sized_def word_less_nat_alt)
    then show "andthen (rd (descs h) (unat i)) (\<lambda>d. ret (if sz \<le> d_block_size d then Some i else None)) = ret (?f (unat i))"
      using sized_length [OF h i] sized_bsz [OF h i] by (simp add: word_le_nat_alt)
  qed
  moreover have "[unat (0 :: u32)..<unat (desc_cnt h)] = [0, 1, 2, 3, 4, 5, 6]"
    using h by (simp add: sized_def upt_rec)
  ultimately have m: "malloc k st h sz = (case first_some ?f [0, 1, 2, 3, 4, 5, 6] of
      None \<Rightarrow> malloc_big k st h sz | Some i \<Rightarrow> malloc_small k st h (desc_ptr h i))"
    using sz by (simp add: malloc_def)
  show thesis
  proof (cases "1024 < unat sz")
    case True
    then show thesis using m by (intro big) (simp_all add: bsz_def)
  next
    case False
    define i where "i = (LEAST i. unat sz \<le> bsz i)"
    have "unat sz \<le> bsz 6" using False by (simp add: bsz_def)
    then have i: "unat sz \<le> bsz i" "i \<le> 6" "\<And>j. j < i \<Longrightarrow> bsz j < unat sz"
      unfolding i_def by (auto intro: LeastI Least_le dest: not_less_Least simp: not_le)
    from i(2) have "i = 0 \<or> i = 1 \<or> i = 2 \<or> i = 3 \<or> i = 4 \<or> i = 5 \<or> i = 6" by linarith
    then have "first_some ?f [0, 1, 2, 3, 4, 5, 6] = Some (of_nat i)"
      using i(1) i(3) [of 0] i(3) [of 1] i(3) [of 2] i(3) [of 3] i(3) [of 4] i(3) [of 5]
      by (elim disjE) (simp_all add: not_le [symmetric])
    then show thesis using m i by (intro small [of i]) simp_all
  qed
qed

lemma room_page:
  assumes "room P n" and "p < n"
  shows "unat (page P p) + 4096 \<le> 4294967296"
proof -
  have "4096 * p + 4096 \<le> 4096 * n" using assms(2) by simp
  then show ?thesis using assms(1) unat_page(1) [OF assms] by (simp add: room_def)
qed

lemma blk_range:
  assumes "room P n" and "p < n" and "i < 7" and "j < bpa i"
  shows "unat (page P p) + 12 \<le> unat (blk P i p j)" and "unat (blk P i p j) + bsz i \<le> unat (page P p) + 4096"
  using unat_blk [OF assms] unat_page(1) [OF assms(1,2)] blocks_fit [OF assms(4)] by linarith+

definition cleared :: "nat \<Rightarrow> addr \<Rightarrow> palloc \<Rightarrow> palloc" where
  "cleared i b st = st\<lparr>memory := filled (memory st) b (of_nat (bsz i)) 0xcc\<rparr>"

lemma cleared_header:
  assumes "room P n" and "p < n" and "i < 7" and "j < bpa i"
  shows "a_magic (memory (cleared i (blk P i p j) st)) (page P p) = a_magic (memory st) (page P p)"
    "a_desc (memory (cleared i (blk P i p j) st)) (page P p) = a_desc (memory st) (page P p)"
    "a_free_cnt (memory (cleared i (blk P i p j) st)) (page P p) = a_free_cnt (memory st) (page P p)"
proof -
  note r = blk_range [OF assms] and pg = room_page [OF assms(1,2)]
  have "memory (cleared i (blk P i p j) st) x = memory st x" if "within (page P p) 12 x" for x
    using that r pg assms(3) by (auto simp: cleared_def filled_within within_def)
  moreover have "unat (page P p) + 12 \<le> 4294967296" using pg by simp
  ultimately show "a_magic (memory (cleared i (blk P i p j) st)) (page P p) = a_magic (memory st) (page P p)"
    "a_desc (memory (cleared i (blk P i p j) st)) (page P p) = a_desc (memory st) (page P p)"
    "a_free_cnt (memory (cleared i (blk P i p j) st)) (page P p) = a_free_cnt (memory st) (page P p)"
    by (intro header_cong; blast)+
qed

lemma free_small_exec:
  assumes k: "runs k" and h: "sized h" "unlocked h" and i: "i < 7" and P: "room P n" "p < n" "j < bpa i"
    and s: "small_at (memory st) h i (page P p)"
  defines "st1 \<equiv> set_free_cnt (page P p) (a_free_cnt (memory st) (page P p) + 1) (cleared i (blk P i p j) st)"
  shows "a_free_cnt (memory st) (page P p) + 1 < of_nat (bpa i) \<Longrightarrow>
      free k st h (blk P i p j) = ret (k, st1, with_fl i (blk P i p j # fl h i) h)" (is "_ \<Longrightarrow> ?keep")
    and "a_free_cnt (memory st) (page P p) + 1 = of_nat (bpa i) \<Longrightarrow> distinct (blk P i p j # fl h i) \<Longrightarrow>
      blk P i p ` {..<bpa i} \<subseteq> set (blk P i p j # fl h i) \<Longrightarrow> palloc_free_page k st1 (page P p) = ret (k, st2) \<Longrightarrow>
      free k st h (blk P i p j) = ret (k, st2, with_fl i (filter (\<lambda>b. b \<notin> blk P i p ` {..<bpa i}) (blk P i p j # fl h i)) h)"
      (is "_ \<Longrightarrow> _ \<Longrightarrow> _ \<Longrightarrow> _ \<Longrightarrow> ?drain")
proof -
  let ?b = "blk P i p j" and ?a = "page P p" and ?d = "dptr h i"
  let ?h = "with_lock i (lock_held (running k)) h"
  let ?g = "with_fl i (?b # fl h i) ?h"
  have b: "?b \<noteq> NULL" by (rule blk_page [OF P(1,2) i P(3)])
  have d: "?d \<noteq> NULL" "a_desc (memory st) ?a = ?d"
    using desc_index_ptr(2) [OF h(1) i] s by (simp_all add: small_at_def)
  have sz: "sized ?h" "dptr ?h i = ?d" "fl ?h i = fl h i" "sized ?g" "dptr ?g i = ?d" "fl ?g i = ?b # fl h i"
    using h(1) sized_length [OF h(1) i] by simp_all
  have upd: "upd_desc ?h ?d (free_list_update (\<lambda>xs. ?b # xs)) = ret ?g"
    using desc_at_ptr(2) [OF sz(1) i, of "\<lambda>xs. ?b # xs"] sz by simp
  have rel: "desc_release k (with_fl i xs ?h) ?d = ret (k, with_fl i xs h)" for xs
    using desc_release_held [OF k _ i, of "with_fl i xs ?h" ?d] h i sized_length [OF h(1) i] by (simp add: with_same)
  have free: "free k st h ?b = free_small k st h ?b ?a ?d"
    using block_to_arena_small [OF h(1) P(1,2) i P(3) s] b d by (simp add: free_def)
  have ms: "memset (memory st) ?b 0xcc (d_block_size (descs h ! i)) = ret (?b, memory (cleared i ?b st))"
    using b sized_bsz [OF h(1) i] by (simp add: memset_ok cleared_def)
  have cl: "st\<lparr>memory := memory (cleared i ?b st)\<rparr> = cleared i ?b st" by (simp add: cleared_def)
  note hdr = cleared_header [OF P(1,2) i P(3), of st]
  have ex: "free_small k st h ?b ?a ?d =
     andthen (if of_nat (bpa i) \<le> a_free_cnt (memory st) ?a + 1 then
                ASSERT (a_free_cnt (memory st) ?a + 1 = of_nat (bpa i))
                  (andthen (drain_arena (memory st1) ?g ?d ?a) (\<lambda>h.
                   andthen (palloc_free_page k st1 ?a) (\<lambda>(k, st). ret (k, st, h))))
              else ret (k, st1, ?g)) (\<lambda>(k, st, h).
     andthen (desc_release k h ?d) (\<lambda>(k, h). ret (k, st, h)))"
    using h i ms upd hdr cl unfolding free_small_def Let_def
    by (simp add: desc_acquire_free [OF k h i] sized_bpa, unfold cl hdr st1_def [symmetric] arena_fields) simp
  show ?keep if "a_free_cnt (memory st) ?a + 1 < of_nat (bpa i)"
  proof -
    have "\<not> of_nat (bpa i) \<le> a_free_cnt (memory st) ?a + 1" using that by (simp only: not_le)
    then show ?thesis using rel by (simp only: free ex if_False andthen_simps prod.case)
  qed
  show ?drain if c: "a_free_cnt (memory st) ?a + 1 = of_nat (bpa i)" and xs: "distinct (?b # fl h i)"
      "blk P i p ` {..<bpa i} \<subseteq> set (?b # fl h i)" and pf: "palloc_free_page k st1 ?a = ret (k, st2)"
  proof -
    have "small_at (memory st1) ?g i ?a" using s hdr by (simp add: small_at_def st1_def)
    then have "drain_arena (memory st1) ?g (dptr ?g i) ?a = ret (with_fl i (filter (\<lambda>b. b \<notin> blk P i p ` {..<bpa i}) (fl ?g i)) ?g)"
      using xs sz(6) by (intro drain_arena_small [OF sz(4) i P(1,2)]) simp_all
    then show ?thesis using c free ex rel pf sz by simp
  qed
qed

end
