(* ===== verification/Malloc_Inv.thy ===== *)
theory Malloc_Inv
  imports Malloc_Blocks
begin

text \<open>
  The invariant of the heap, the blocks in use that it determines, and the facts that every
  transition needs: disjoint pages, counted free blocks, unchanged headers.
\<close>

section \<open>The invariant\<close>

text \<open>
  The arenas are a map from page indices of the kernel pool to their kinds: a page of blocks of
  descriptor \<open>i\<close>, or a big block of \<open>n\<close> pages.
\<close>

datatype arena_kind = Small nat | Big nat

fun npages :: "arena_kind \<Rightarrow> nat" where
  "npages (Small i) = 1"
| "npages (Big n) = n"

type_synonym arenas = "nat \<rightharpoonup> arena_kind"

definition cnt_in :: "addr \<Rightarrow> nat \<Rightarrow> addr list \<Rightarrow> nat" where
  "cnt_in P p xs = length (filter (\<lambda>b. pg_round_down b = page P p) xs)"

text \<open>Arenas lie in used pages and do not overlap.\<close>

definition wf_space :: "bool list \<Rightarrow> arenas \<Rightarrow> bool" where
  "wf_space B G \<longleftrightarrow> (\<forall>p x. G p = Some x \<longrightarrow> 0 < npages x \<and> run_at True (npages x) B p) \<and>
     (\<forall>p q x y. G p = Some x \<longrightarrow> G q = Some y \<longrightarrow> p < q \<longrightarrow> p + npages x \<le> q)"

text \<open>The used pages that are not of arenas.\<close>

definition others :: "bool list \<Rightarrow> arenas \<Rightarrow> nat set" where
  "others B G = {q. q < length B \<and> B ! q \<and> (\<forall>p x. G p = Some x \<longrightarrow> \<not> (p \<le> q \<and> q < p + npages x))}"

fun arena_header :: "mem \<Rightarrow> heap \<Rightarrow> addr \<Rightarrow> nat \<Rightarrow> arena_kind \<Rightarrow> bool" where
  "arena_header m h P p (Small i) \<longleftrightarrow> small_at m h i (page P p) \<and> a_free_cnt m (page P p) = of_nat (cnt_in P p (fl h i))"
| "arena_header m h P p (Big n) \<longleftrightarrow> big_at m (page P p) \<and> a_free_cnt m (page P p) = of_nat n"

text \<open>
  A free list holds blocks of its descriptor's arenas, each once; an arena has at least one
  block in use, the arenas in \<open>E\<close> apart.
\<close>

definition wf_lists :: "nat set \<Rightarrow> addr \<Rightarrow> heap \<Rightarrow> arenas \<Rightarrow> bool" where
  "wf_lists E P h G \<longleftrightarrow> (\<forall>p i. G p = Some (Small i) \<longrightarrow> i < 7 \<and> (p \<notin> E \<longrightarrow> cnt_in P p (fl h i) < bpa i)) \<and>
     (\<forall>i < 7. distinct (fl h i) \<and> (\<forall>b \<in> set (fl h i). \<exists>p j. G p = Some (Small i) \<and> j < bpa i \<and> b = blk P i p j))"

abbreviation kbase :: "palloc \<Rightarrow> addr" where
  "kbase st \<equiv> base (kernel_pool st)"

definition wf_arenas :: "nat set \<Rightarrow> palloc \<Rightarrow> (bool \<Rightarrow> bool list) \<Rightarrow> heap \<Rightarrow> arenas \<Rightarrow> bool" where
  "wf_arenas E st B h G \<longleftrightarrow> sized h \<and> wf_palloc st B \<and> wf_space (B False) G \<and> wf_lists E (kbase st) h G \<and>
     (\<forall>p x. G p = Some x \<longrightarrow> arena_header (memory st) h (kbase st) p x)"

text \<open>The blocks in use, with their sizes in bytes.\<close>

definition allocated :: "addr \<Rightarrow> heap \<Rightarrow> arenas \<Rightarrow> (addr \<times> nat) set" where
  "allocated P h G =
     {(blk P i p j, bsz i) |p i j. G p = Some (Small i) \<and> j < bpa i \<and> blk P i p j \<notin> set (fl h i)} \<union>
     {(page P p + 12, 4096 * n - 12) |p n. G p = Some (Big n)}"

lemma wf_room: "wf_palloc st B \<Longrightarrow> room (kbase st) (length (B False))"
proof -
  assume "wf_palloc st B"
  then have "wf_pool (kernel_pool st) (B False)"
    unfolding wf_palloc_def get_pool_def by (metis (full_types))
  then show ?thesis
    using unat_pg_ofs [of "kbase st"] by (simp add: room_def wf_pool_def)
qed

lemma wf_arenasD:
  assumes "wf_arenas E st B h G"
  shows "sized h" "wf_palloc st B" "wf_space (B False) G" "wf_lists E (kbase st) h G" "room (kbase st) (length (B False))"
    "\<And>p x. G p = Some x \<Longrightarrow> arena_header (memory st) h (kbase st) p x"
  using assms wf_room by (auto simp: wf_arenas_def)

lemma wf_spaceD:
  assumes "wf_space B G" and "G p = Some x"
  shows "0 < npages x" "run_at True (npages x) B p" "p + npages x \<le> length B" "p < length B"
proof -
  show r: "0 < npages x" "run_at True (npages x) B p" using assms by (auto simp: wf_space_def)
  from run_at_le [OF r(2)] r(1) show "p + npages x \<le> length B" "p < length B" by simp_all
qed

lemma wf_space_disjoint:
  assumes "wf_space B G" and "G p = Some x" and "G q = Some y" and "p \<noteq> q"
  shows "p + npages x \<le> q \<or> q + npages y \<le> p"
  using assms unfolding wf_space_def by (metis linorder_neqE_nat)

section \<open>Pages of new and of dropped arenas\<close>

lemma space_fresh:
  assumes "wf_space B G" and "run_at False n B p" and "0 < n" and "G q = Some y"
  shows "p + n \<le> q \<or> q + npages y \<le> p"
proof (rule ccontr)
  assume "\<not> ?thesis"
  then have o: "max p q < p + n" "max p q < q + npages y"
    using assms(3) wf_spaceD(1) [OF assms(1,4)] by auto
  have "B ! max p q = False" by (rule run_at_nth [OF assms(2) max.cobounded1 o(1)])
  moreover have "B ! max p q = True" by (rule run_at_nth [OF wf_spaceD(2) [OF assms(1,4)] max.cobounded2 o(2)])
  ultimately show False by simp
qed

lemma run_at_kept:
  assumes "run_at v n B q" and "p + k \<le> length B" and "p + k \<le> q \<or> q + n \<le> p"
  shows "run_at v n (set_range p k w B) q"
  using assms by (auto simp: run_at_def nth_set_range)

lemma space_add:
  assumes G: "wf_space B G" and run: "run_at False (npages x) B p" and x: "0 < npages x"
  shows "wf_space (set_range p (npages x) True B) (G(p \<mapsto> x))" and "G p = None"
    and "others (set_range p (npages x) True B) (G(p \<mapsto> x)) = others B G"
proof -
  note fresh = space_fresh [OF G run x] and le = run_at_le [OF run]
  show None: "G p = None"
  proof (rule ccontr)
    assume "G p \<noteq> None"
    then obtain y where y: "G p = Some y" by auto
    then show False using fresh [OF y] wf_spaceD(1) [OF G y] x by simp
  qed
  have run': "run_at True (npages y) (set_range p (npages x) True B) q" if "G q = Some y" for q y
    using fresh [OF that] wf_spaceD(2) [OF G that] le by (intro run_at_kept) simp_all
  show "wf_space (set_range p (npages x) True B) (G(p \<mapsto> x))"
    unfolding wf_space_def
  proof (intro conjI allI impI)
    fix q y assume "(G(p \<mapsto> x)) q = Some y"
    then show "0 < npages y" "run_at True (npages y) (set_range p (npages x) True B) q"
      using x run' wf_spaceD(1) [OF G] run_at_set_range [OF le] by (auto split: if_splits)
  next
    fix q r y z assume "(G(p \<mapsto> x)) q = Some y" "(G(p \<mapsto> x)) r = Some z" "q < r"
    then show "q + npages y \<le> r"
      using fresh [of q y] fresh [of r z] wf_space_disjoint [OF G, of q y r z] wf_spaceD(1) [OF G, of q y]
        wf_spaceD(1) [OF G, of r z] by (auto split: if_splits)
  qed
  have "(q < length B \<and> set_range p (npages x) True B ! q \<and> (\<forall>r y. (G(p \<mapsto> x)) r = Some y \<longrightarrow> \<not> (r \<le> q \<and> q < r + npages y))) \<longleftrightarrow>
      (q < length B \<and> B ! q \<and> (\<forall>r y. G r = Some y \<longrightarrow> \<not> (r \<le> q \<and> q < r + npages y)))" for q
  proof (cases "p \<le> q \<and> q < p + npages x")
    case True
    then have "\<not> B ! q" using run_at_nth [OF run] by simp
    then show ?thesis using True by auto
  next
    case False
    then have "set_range p (npages x) True B ! q = B ! q" if "q < length B"
      using that le False by (subst nth_set_range) auto
    moreover have "(\<forall>r y. (G(p \<mapsto> x)) r = Some y \<longrightarrow> \<not> (r \<le> q \<and> q < r + npages y)) \<longleftrightarrow>
        (\<forall>r y. G r = Some y \<longrightarrow> \<not> (r \<le> q \<and> q < r + npages y))"
      using False None by (metis fun_upd_apply option.distinct(1) option.inject)
    ultimately show ?thesis by blast
  qed
  then show "others (set_range p (npages x) True B) (G(p \<mapsto> x)) = others B G"
    using le by (simp add: others_def)
qed

lemma space_del:
  assumes G: "wf_space B G" and p: "G p = Some x"
  shows "wf_space (set_range p (npages x) False B) (G(p := None))"
    and "others (set_range p (npages x) False B) (G(p := None)) = others B G"
proof -
  note le = wf_spaceD(3) [OF G p]
  have run': "run_at True (npages y) (set_range p (npages x) False B) q" if "G q = Some y" "q \<noteq> p" for q y
    using wf_space_disjoint [OF G p that(1)] wf_spaceD(2) [OF G that(1)] le that(2) by (intro run_at_kept) auto
  then show "wf_space (set_range p (npages x) False B) (G(p := None))"
    using G by (auto simp: wf_space_def)
  have "(q < length B \<and> set_range p (npages x) False B ! q \<and> (\<forall>r y. (G(p := None)) r = Some y \<longrightarrow> \<not> (r \<le> q \<and> q < r + npages y))) \<longleftrightarrow>
      (q < length B \<and> B ! q \<and> (\<forall>r y. G r = Some y \<longrightarrow> \<not> (r \<le> q \<and> q < r + npages y)))" for q
  proof (cases "p \<le> q \<and> q < p + npages x")
    case True
    then show ?thesis using p le by (auto simp: nth_set_range)
  next
    case False
    then have "set_range p (npages x) False B ! q = B ! q" if "q < length B"
      using that le False by (subst nth_set_range) auto
    moreover have "(\<forall>r y. (G(p := None)) r = Some y \<longrightarrow> \<not> (r \<le> q \<and> q < r + npages y)) \<longleftrightarrow>
        (\<forall>r y. G r = Some y \<longrightarrow> \<not> (r \<le> q \<and> q < r + npages y))"
      using False p by (metis fun_upd_apply option.distinct(1) option.inject)
    ultimately show ?thesis by blast
  qed
  then show "others (set_range p (npages x) False B) (G(p := None)) = others B G"
    using le by (simp add: others_def)
qed

section \<open>Counting free blocks\<close>

lemma cnt_in_simps [simp]:
  "cnt_in P p [] = 0"
  "cnt_in P p (b # xs) = (if pg_round_down b = page P p then Suc (cnt_in P p xs) else cnt_in P p xs)"
  by (simp_all add: cnt_in_def)

lemma listed_block:
  assumes "wf_lists E P h G" and "i < 7" and "b \<in> set (fl h i)"
  obtains p j where "G p = Some (Small i)" "j < bpa i" "b = blk P i p j"
  using assms unfolding wf_lists_def by blast

lemma listed_in_page:
  assumes L: "wf_lists E P h G" and i: "i < 7" and b: "b \<in> set (fl h i)" "pg_round_down b = page P p"
    and P: "room P n" "p < n" "\<And>q x. G q = Some x \<Longrightarrow> q < n"
  obtains j where "j < bpa i" "b = blk P i p j" "G p = Some (Small i)"
proof -
  obtain q j where q: "G q = Some (Small i)" "j < bpa i" "b = blk P i q j"
    using listed_block [OF L i b(1)] .
  then have "page P q = page P p"
    using b(2) blk_page(1) [OF P(1) P(3) [OF q(1)] i q(2)] by simp
  then have "q = p" using page_inj [OF P(1) P(3) [OF q(1)] P(2)] by simp
  then show thesis using that q by blast
qed

lemma cnt_in_bound:
  assumes L: "wf_lists E P h G" and i: "i < 7" and P: "room P n" "p < n" "\<And>q x. G q = Some x \<Longrightarrow> q < n"
  shows "cnt_in P p (fl h i) \<le> bpa i" and "cnt_in P p (fl h i) = bpa i \<Longrightarrow> blk P i p ` {..<bpa i} \<subseteq> set (fl h i)"
proof -
  let ?S = "{b \<in> set (fl h i). pg_round_down b = page P p}"
  have "distinct (fl h i)" using L i by (simp add: wf_lists_def)
  then have card: "card ?S = cnt_in P p (fl h i)"
    using distinct_card [of "filter (\<lambda>b. pg_round_down b = page P p) (fl h i)"] by (simp add: cnt_in_def)
  have sub: "?S \<subseteq> blk P i p ` {..<bpa i}"
  proof
    fix b assume "b \<in> ?S"
    then have b: "b \<in> set (fl h i)" "pg_round_down b = page P p" by simp_all
    show "b \<in> blk P i p ` {..<bpa i}"
      by (rule listed_in_page [OF L i b P(1,2)]) (use P(3) in auto)
  qed
  have le: "card (blk P i p ` {..<bpa i}) \<le> bpa i" using card_image_le [of "{..<bpa i}" "blk P i p"] by simp
  then show "cnt_in P p (fl h i) \<le> bpa i"
    using card_mono [OF _ sub] card by simp
  show "blk P i p ` {..<bpa i} \<subseteq> set (fl h i)" if "cnt_in P p (fl h i) = bpa i"
  proof -
    have "?S = blk P i p ` {..<bpa i}"
      using sub card_mono [OF _ sub] card le that by (intro card_subset_eq) simp_all
    then show ?thesis by blast
  qed
qed

lemma cnt_in_map:
  assumes "room P n" "p < n" "q < n" "i < 7" "set js \<subseteq> {..<bpa i}"
  shows "cnt_in P q (map (blk P i p) js) = (if q = p then length js else 0)"
  using assms(5)
proof (induction js)
  case (Cons j js)
  then have "pg_round_down (blk P i p j) = page P p"
    using blk_page(1) [OF assms(1,2,4)] by simp
  then show ?case using Cons page_inj [OF assms(1-3)] by auto
qed simp

section \<open>Framing\<close>

lemma header_frame:
  assumes "room P n" and "q < n" and "\<And>z. within (page P q) 12 z \<Longrightarrow> m' z = m z"
    and "\<And>i. x = Small i \<Longrightarrow> cnt_in P q (fl h' i) = cnt_in P q (fl h i)" and "descs_at h' = descs_at h"
    and "arena_header m h P q x"
  shows "arena_header m' h' P q x"
proof -
  have "unat (page P q) + 12 \<le> 4294967296" using room_page [OF assms(1,2)] by simp
  note c = header_cong [OF this assms(3)]
  show ?thesis
    using assms(4-6) c by (cases x) (simp_all add: small_at_def big_at_def desc_ptr_def)
qed

text \<open>The memory changes only in the \<open>k\<close> pages from \<open>p\<close> on.\<close>

definition only_pages :: "addr \<Rightarrow> nat \<Rightarrow> nat \<Rightarrow> mem \<Rightarrow> mem \<Rightarrow> bool" where
  "only_pages P p k m m' \<longleftrightarrow> (\<forall>z. \<not> (unat P + 4096 * p \<le> unat z \<and> unat z < unat P + 4096 * (p + k)) \<longrightarrow> m' z = m z)"

lemma only_pages_header:
  assumes "room P n" and "q < n" and "only_pages P p k m m'" and "p + k \<le> q \<or> q < p" and "within (page P q) 12 z"
  shows "m' z = m z"
proof -
  have "unat P + 4096 * q \<le> unat z \<and> unat z < unat P + 4096 * q + 12"
    using assms(5) unat_page(1) [OF assms(1,2)] by (simp add: within_def)
  then have "\<not> (unat P + 4096 * p \<le> unat z \<and> unat z < unat P + 4096 * (p + k))"
    using assms(4) by (cases "q < p") auto
  then show ?thesis using assms(3) by (simp add: only_pages_def)
qed

lemma wf_arenas_update:
  assumes W: "wf_arenas E st B h G" and base: "kbase st' = kbase st" and h': "sized h'" "descs_at h' = descs_at h"
    and st': "wf_palloc st' B'" and G': "wf_space (B' False) G'" "\<And>q. q \<noteq> p \<Longrightarrow> G' q = G q"
    and L: "wf_lists E' (kbase st) h' G'"
    and m: "only_pages (kbase st) p k (memory st) (memory st')"
    and sep: "\<And>q y. G q = Some y \<Longrightarrow> q \<noteq> p \<Longrightarrow> p + k \<le> q \<or> q + npages y \<le> p"
    and cnt: "\<And>q i. G q = Some (Small i) \<Longrightarrow> q \<noteq> p \<Longrightarrow> cnt_in (kbase st) q (fl h' i) = cnt_in (kbase st) q (fl h i)"
    and hdr: "\<And>x. G' p = Some x \<Longrightarrow> arena_header (memory st') h' (kbase st) p x"
  shows "wf_arenas E' st' B' h' G'"
proof -
  note D = wf_arenasD [OF W]
  have "arena_header (memory st') h' (kbase st) q y" if q: "G' q = Some y" for q y
  proof (cases "q = p")
    case True
    then show ?thesis using q hdr by simp
  next
    case False
    then have G: "G q = Some y" using q G'(2) by simp
    have "p + k \<le> q \<or> q < p" using sep [OF G False] wf_spaceD(1) [OF D(3) G] by linarith
    with only_pages_header [OF D(5) wf_spaceD(4) [OF D(3) G] m] show ?thesis
      using cnt [of q] G False h'(2)
      by (intro header_frame [OF D(5) wf_spaceD(4) [OF D(3) G] _ _ _ D(6) [OF G]]) simp_all
  qed
  then show ?thesis
    using h'(1) st' G'(1) L by (simp add: wf_arenas_def base)
qed

section \<open>The blocks in use\<close>

lemma allocatedE:
  assumes "(b, n) \<in> allocated P h G"
  obtains (small) p i j where "G p = Some (Small i)" "j < bpa i" "b = blk P i p j" "n = bsz i" "b \<notin> set (fl h i)"
  | (big) p k where "G p = Some (Big k)" "b = page P p + 12" "n = 4096 * k - 12"
  using assms unfolding allocated_def by blast

lemma allocated_small: "G p = Some (Small i) \<Longrightarrow> j < bpa i \<Longrightarrow> blk P i p j \<notin> set (fl h i) \<Longrightarrow> (blk P i p j, bsz i) \<in> allocated P h G"
  and allocated_big: "G p = Some (Big k) \<Longrightarrow> (page P p + 12, 4096 * k - 12) \<in> allocated P h G"
  unfolding allocated_def by blast+

text \<open>Every block in use lies in the pages of one arena, behind its header.\<close>

definition valid :: "addr \<Rightarrow> nat \<Rightarrow> arenas \<Rightarrow> bool" where
  "valid P n G \<longleftrightarrow> room P n \<and> (\<forall>p x. G p = Some x \<longrightarrow> 0 < npages x \<and> p + npages x \<le> n) \<and>
     (\<forall>p i. G p = Some (Small i) \<longrightarrow> i < 7)"

lemma validD:
  assumes "valid P n G"
  shows "room P n" and "G p = Some x \<Longrightarrow> p < n" and "G p = Some x \<Longrightarrow> p + npages x \<le> n" and "G p = Some (Small i) \<Longrightarrow> i < 7"
    and "G p = Some x \<Longrightarrow> 0 < npages x"
  using assms unfolding valid_def by (blast, fastforce, blast, blast, blast)

fun block_of :: "addr \<Rightarrow> nat \<Rightarrow> arena_kind \<Rightarrow> addr \<Rightarrow> nat \<Rightarrow> bool" where
  "block_of P p (Small i) b s \<longleftrightarrow> (\<exists>j < bpa i. b = blk P i p j \<and> s = bsz i)"
| "block_of P p (Big k) b s \<longleftrightarrow> b = page P p + 12 \<and> s = 4096 * k - 12"

lemma allocated_in:
  assumes "(b, s) \<in> allocated P h G"
  obtains p x where "G p = Some x" "block_of P p x b s"
  using assms
proof (cases rule: allocatedE)
  case (small p i j)
  then show thesis using that [of p "Small i"] by auto
next
  case (big p k)
  then show thesis using that [of p "Big k"] by auto
qed

lemma block_of_range:
  assumes V: "valid P n G" and p: "G p = Some x" and b: "block_of P p x b s"
  shows "pg_round_down b = page P p" and "unat (page P p) + 12 \<le> unat b"
    and "unat b + s \<le> unat (page P p) + 4096 * npages x" and "b \<noteq> NULL"
proof -
  note a = validD(1) [OF V] validD(2) [OF V p]
  have "pg_round_down b = page P p \<and> unat (page P p) + 12 \<le> unat b \<and>
      unat b + s \<le> unat (page P p) + 4096 * npages x \<and> b \<noteq> NULL"
  proof (cases x)
    case (Small i)
    then obtain j where j: "j < bpa i" "b = blk P i p j" "s = bsz i" using b by auto
    have i: "i < 7" using validD(4) [OF V] p Small by simp
    show ?thesis using Small j blk_page(1,3) [OF a i j(1)] blk_range [OF a i j(1)] by simp
  next
    case (Big k)
    then show ?thesis using b validD(5) [OF V p] big_page [OF a] unat_page(1) [OF a] by simp
  qed
  then show "pg_round_down b = page P p" "unat (page P p) + 12 \<le> unat b"
    "unat b + s \<le> unat (page P p) + 4096 * npages x" "b \<noteq> NULL" by simp_all
qed

lemma block_of_disjoint:
  assumes V: "valid P n G" and p: "G p = Some x" and b: "block_of P p x b s" and c: "block_of P p x c t"
    and ne: "(b, s) \<noteq> (c, t)"
  shows "unat b + s \<le> unat c \<or> unat c + t \<le> unat b"
proof (cases x)
  case (Small i)
  then obtain j j' where j: "j < bpa i" "b = blk P i p j" "s = bsz i" and j': "j' < bpa i" "c = blk P i p j'" "t = bsz i"
    using b c by auto
  note a = validD(1) [OF V] validD(2) [OF V p] validD(4) [OF V p [unfolded Small]]
  have u: "unat b = unat P + 4096 * p + 12 + bsz i * j" "unat c = unat P + 4096 * p + 12 + bsz i * j'"
    using unat_blk [OF a j(1)] unat_blk [OF a j'(1)] j(2) j'(2) by simp_all
  have "j \<noteq> j'" using ne j j' by blast
  then have "j + 1 \<le> j' \<or> j' + 1 \<le> j" by linarith
  then have "bsz i * (j + 1) \<le> bsz i * j' \<or> bsz i * (j' + 1) \<le> bsz i * j" using mult_le_mono2 by blast
  then show ?thesis using u j(3) j'(3) by simp linarith
qed (use b c ne in simp)

lemma allocated_page:
  assumes V: "valid P n G" and b: "(b, s) \<in> allocated P h G" "pg_round_down b = page P p" and p: "p < n"
  obtains x where "G p = Some x"
proof -
  obtain q x where q: "G q = Some x" "block_of P q x b s" using allocated_in [OF b(1)] .
  have "page P q = page P p" unfolding block_of_range(1) [OF V q, symmetric] by (rule b(2))
  then have "q = p" using page_inj [OF validD(1) [OF V] validD(2) [OF V q(1)] p] by blast
  then show thesis using that q by blast
qed

lemma allocated_swap:
  assumes V: "valid P n G" and p: "G p = Some (Small i)" "j < bpa i"
    and fls: "\<And>i'. i' \<noteq> i \<Longrightarrow> fl h' i' = fl h i'" "set (fl h i) = insert (blk P i p j) (set (fl h' i))"
      "blk P i p j \<notin> set (fl h' i)"
  shows "allocated P h' G = insert (blk P i p j, bsz i) (allocated P h G)" and "(blk P i p j, s) \<notin> allocated P h G"
proof -
  let ?b = "blk P i p j"
  note i = validD(4) [OF V p(1)] and pn = validD(2) [OF V p(1)]
  have pg: "pg_round_down ?b = page P p" by (rule blk_page(1) [OF validD(1) [OF V] pn i p(2)])
  have free: "b \<in> set (fl h i') \<longleftrightarrow> b \<in> set (fl h' i') \<or> (i' = i \<and> b = ?b)" for b i'
    using fls by (cases "i' = i") auto
  show "allocated P h' G = insert (?b, bsz i) (allocated P h G)"
  proof (intro equalityI subrelI)
    fix b s assume "(b, s) \<in> allocated P h' G"
    then show "(b, s) \<in> insert (?b, bsz i) (allocated P h G)"
    proof (cases rule: allocatedE)
      case (small q i' j')
      show ?thesis
      proof (cases "i' = i \<and> b = ?b")
        case False
        then have "b \<notin> set (fl h i')" using small free by blast
        then show ?thesis using small allocated_small [of G q i' j'] by blast
      qed (use small(4) in blast)
    next
      case (big q k)
      then show ?thesis using allocated_big [of G q k] by blast
    qed
  next
    fix b s assume "(b, s) \<in> insert (?b, bsz i) (allocated P h G)"
    then consider "(b, s) = (?b, bsz i)" | "(b, s) \<in> allocated P h G" by blast
    then show "(b, s) \<in> allocated P h' G"
    proof cases
      case 1
      then show ?thesis using allocated_small [of G p i j P h'] p fls(3) by simp
    next
      case 2
      then show ?thesis
      proof (cases rule: allocatedE)
        case (small q i' j')
        then have "b \<notin> set (fl h' i')" using free by blast
        then show ?thesis using small allocated_small [of G q i' j'] by blast
      next
        case (big q k)
        then show ?thesis using allocated_big [of G q k] by blast
      qed
    qed
  qed
  show "(?b, s) \<notin> allocated P h G"
  proof
    assume "(?b, s) \<in> allocated P h G"
    then show False
    proof (cases rule: allocatedE)
      case (small q i' j')
      then have "page P q = page P p"
        using blk_page(1) [OF validD(1) [OF V] validD(2) [OF V small(1)] validD(4) [OF V small(1)] small(2)] pg by simp
      then have "q = p" using page_inj [OF validD(1) [OF V] validD(2) [OF V small(1)] pn] by blast
      then have "i' = i" using small(1) p(1) by simp
      then show False using small(5) fls(2) by blast
    next
      case (big q k)
      then have "page P q = page P p" using big_page(2) [OF validD(1) [OF V] validD(2) [OF V big(1)]] pg by simp
      then have "q = p" using page_inj [OF validD(1) [OF V] validD(2) [OF V big(1)] pn] by blast
      then show False using big(1) p(1) by simp
    qed
  qed
qed

lemma allocated_arena:
  assumes V: "valid P n (G(p \<mapsto> Small i))" and p: "G p = None"
    and fls: "\<And>i'. i' \<noteq> i \<Longrightarrow> fl h' i' = fl h i'" "set (fl h' i) = set (fl h i) \<union> blk P i p ` {..<bpa i}"
  shows "allocated P h' (G(p \<mapsto> Small i)) = allocated P h G"
proof (intro equalityI subrelI)
  fix b s assume "(b, s) \<in> allocated P h' (G(p \<mapsto> Small i))"
  then show "(b, s) \<in> allocated P h G"
  proof (cases rule: allocatedE)
    case (small q i' j')
    have "q \<noteq> p" using small fls(2) by (auto split: if_splits)
    then have q: "G q = Some (Small i')" using small(1) by simp
    have "b \<notin> set (fl h i')" using small(5) fls by (cases "i' = i") auto
    then show ?thesis using small allocated_small [of G q i' j'] q by blast
  next
    case (big q k)
    then have "G q = Some (Big k)" by (simp split: if_splits)
    then show ?thesis using big allocated_big by blast
  qed
next
  fix b s assume "(b, s) \<in> allocated P h G"
  then show "(b, s) \<in> allocated P h' (G(p \<mapsto> Small i))"
  proof (cases rule: allocatedE)
    case (small q i' j')
    then have q: "(G(p \<mapsto> Small i)) q = Some (Small i')" "q \<noteq> p" using p by auto
    note g = validD(1) [OF V] validD(2) [OF V q(1)] validD(4) [OF V q(1)] small(2)
    have i: "i < 7" "p < n" using validD(4) [OF V, of p i] validD(2) [OF V, of p] by simp_all
    have "b \<notin> blk P i p ` {..<bpa i}"
    proof
      assume "b \<in> blk P i p ` {..<bpa i}"
      then obtain j where "j < bpa i" "b = blk P i p j" by auto
      then have "page P q = page P p"
        using blk_page(1) [OF g] blk_page(1) [OF g(1) i(2) i(1)] small(3) by metis
      then show False using page_inj [OF g(1,2) i(2)] q(2) by simp
    qed
    then have "b \<notin> set (fl h' i')" using small(5) fls by (cases "i' = i") auto
    then show ?thesis using small allocated_small [of "G(p \<mapsto> Small i)" q i' j'] q(1) by blast
  next
    case (big q k)
    then have "(G(p \<mapsto> Small i)) q = Some (Big k)" using p by auto
    then show ?thesis using big allocated_big by blast
  qed
qed

lemma allocated_add_big:
  assumes V: "valid P n G" and p: "G p = None" "p < n"
  shows "allocated P h (G(p \<mapsto> Big k)) = insert (page P p + 12, 4096 * k - 12) (allocated P h G)"
    and "(page P p + 12, s) \<notin> allocated P h G"
proof -
  show "allocated P h (G(p \<mapsto> Big k)) = insert (page P p + 12, 4096 * k - 12) (allocated P h G)"
  proof (intro equalityI subrelI)
    fix b s assume "(b, s) \<in> allocated P h (G(p \<mapsto> Big k))"
    then show "(b, s) \<in> insert (page P p + 12, 4096 * k - 12) (allocated P h G)"
    proof (cases rule: allocatedE)
      case (small q i j)
      then have "G q = Some (Small i)" by (simp split: if_splits)
      then show ?thesis using small allocated_small [of G q i j] by blast
    next
      case (big q l)
      then have "q = p \<and> l = k \<or> G q = Some (Big l)" by (auto split: if_splits)
      then show ?thesis using big allocated_big [of G q l] by blast
    qed
  next
    fix b s assume "(b, s) \<in> insert (page P p + 12, 4096 * k - 12) (allocated P h G)"
    then consider "(b, s) = (page P p + 12, 4096 * k - 12)" | "(b, s) \<in> allocated P h G" by blast
    then show "(b, s) \<in> allocated P h (G(p \<mapsto> Big k))"
    proof cases
      case 1
      then show ?thesis using allocated_big [of "G(p \<mapsto> Big k)" p k] by simp
    next
      case 2
      then show ?thesis
      proof (cases rule: allocatedE)
        case (small q i j)
        then have "(G(p \<mapsto> Big k)) q = Some (Small i)" using p by auto
        then show ?thesis using small allocated_small [of "G(p \<mapsto> Big k)" q i j] by blast
      next
        case (big q l)
        then have "(G(p \<mapsto> Big k)) q = Some (Big l)" using p by auto
        then show ?thesis using big allocated_big [of "G(p \<mapsto> Big k)" q l] by blast
      qed
    qed
  qed
  show "(page P p + 12, s) \<notin> allocated P h G"
  proof
    assume "(page P p + 12, s) \<in> allocated P h G"
    then obtain x where "G p = Some x" by (rule allocated_page [OF V _ big_page(2) [OF validD(1) [OF V] p(2)] p(2)])
    then show False using p(1) by simp
  qed
qed

lemma wf_valid: "wf_arenas E st B h G \<Longrightarrow> valid (kbase st) (length (B False)) G"
proof -
  assume W: "wf_arenas E st B h G"
  note D = wf_arenasD [OF W]
  have "i < 7" if "G p = Some (Small i)" for p i using D(4) that by (simp add: wf_lists_def)
  then show ?thesis using D(5) wf_spaceD(1,3) [OF D(3)] by (auto simp: valid_def)
qed

text \<open>Two arenas, or an arena and a range of pages, occupy different bytes.\<close>

lemma pages_apart:
  assumes "room P n" and "p < n" and "q < n" and "p + k \<le> q"
  shows "unat (page P p) + 4096 * k \<le> unat (page P q)"
  using assms(4) unat_page(1) [OF assms(1,2)] unat_page(1) [OF assms(1,3)] by simp

lemma allocated_disjoint:
  assumes V: "valid P n G" and S: "wf_space B G"
    and b: "(b, s) \<in> allocated P h G" and c: "(c, t) \<in> allocated P h G" and ne: "(b, s) \<noteq> (c, t)"
  shows "unat b + s \<le> unat c \<or> unat c + t \<le> unat b"
proof -
  obtain p x where p: "G p = Some x" "block_of P p x b s" using allocated_in [OF b] .
  obtain q y where q: "G q = Some y" "block_of P q y c t" using allocated_in [OF c] .
  note r = validD(1) [OF V] and pn = validD(2) [OF V p(1)] and qn = validD(2) [OF V q(1)]
  show ?thesis
  proof (cases "p = q")
    case True
    then show ?thesis using block_of_disjoint [OF V p _ ne] p(1) q by simp
  next
    case False
    then consider "p + npages x \<le> q" | "q + npages y \<le> p" using wf_space_disjoint [OF S p(1) q(1)] by blast
    then show ?thesis
    proof cases
      case 1
      show ?thesis using pages_apart [OF r pn qn 1] block_of_range [OF V p] block_of_range [OF V q] by linarith
    next
      case 2
      show ?thesis using pages_apart [OF r qn pn 2] block_of_range [OF V p] block_of_range [OF V q] by linarith
    qed
  qed
qed

text \<open>The contents of blocks survive writes to headers, and to pages of other arenas.\<close>

definition keeps :: "(addr \<times> nat) set \<Rightarrow> mem \<Rightarrow> mem \<Rightarrow> bool" where
  "keeps X m m' \<longleftrightarrow> (\<forall>(b, n) \<in> X. \<forall>z. within b n z \<longrightarrow> m' z = m z)"

lemma keepsI: "(\<And>b n z. (b, n) \<in> X \<Longrightarrow> within b n z \<Longrightarrow> m' z = m z) \<Longrightarrow> keeps X m m'"
  and keepsD: "keeps X m m' \<Longrightarrow> (b, n) \<in> X \<Longrightarrow> within b n z \<Longrightarrow> m' z = m z"
  by (auto simp: keeps_def)

lemma keeps_trans:
  assumes "keeps X m m'" and "keeps X m' m''"
  shows "keeps X m m''"
  by (rule keepsI) (simp only: keepsD [OF assms(1)] keepsD [OF assms(2)])

lemma keeps_mono: "keeps X m m' \<Longrightarrow> Y \<subseteq> X \<Longrightarrow> keeps Y m m'"
  unfolding keeps_def by blast

lemma keeps_pages:
  assumes V: "valid P n G" and m: "only_pages P p k m m'"
    and sep: "\<And>q y. G q = Some y \<Longrightarrow> p + k \<le> q \<or> q + npages y \<le> p"
  shows "keeps (allocated P h G) m m'"
proof (rule keepsI)
  fix b s z assume b: "(b, s) \<in> allocated P h G" and z: "within b s z"
  obtain q x where q: "G q = Some x" "block_of P q x b s" using allocated_in [OF b] .
  note r = block_of_range [OF V q] and u = unat_page(1) [OF validD(1) [OF V] validD(2) [OF V q(1)]]
  have "unat P + 4096 * q \<le> unat z" "unat z < unat P + 4096 * (q + npages x)"
    using z r(2,3) u by (auto simp: within_def)
  then have "\<not> (unat P + 4096 * p \<le> unat z \<and> unat z < unat P + 4096 * (p + k))"
    using sep [OF q(1)] by auto
  then show "m' z = m z" using m by (simp add: only_pages_def)
qed

lemma outside_headers:
  assumes V: "valid P n G" and S: "wf_space B G" and p: "G p = Some x"
    and b: "(b, s) \<in> allocated P h G" and z: "within b s z"
  shows "\<not> within (page P p) 12 z"
proof
  assume h: "within (page P p) 12 z"
  obtain q y where q: "G q = Some y" "block_of P q y b s" using allocated_in [OF b] .
  note r = validD(1) [OF V] and pn = validD(2) [OF V p] and qn = validD(2) [OF V q(1)] and bq = block_of_range [OF V q]
  consider "p = q" | "p + npages x \<le> q" | "q + npages y \<le> p"
    using wf_space_disjoint [OF S p q(1)] by blast
  then show False
  proof cases
    case 1
    then show False using h z bq(2) by (simp add: within_def)
  next
    case 2
    have "12 \<le> 4096 * npages x" using validD(5) [OF V p] by simp
    then show False using h z bq(2) pages_apart [OF r pn qn 2] by (simp add: within_def)
  next
    case 3
    then show False using h z bq(3) pages_apart [OF r qn pn 3] by (simp add: within_def)
  qed
qed

end
