(* ===== verification/Malloc_Safe.thy ===== *)
theory Malloc_Safe
  imports Malloc_Inv
begin

text \<open>
  The transitions of the heap keep its invariant: a block leaves or enters a free list, an arena
  is made or dropped.
\<close>

section \<open>Taking and returning a block\<close>

lemma header_only_pages:
  assumes "room P n" and "p < n" and "0 < k" and "\<And>z. \<not> within (page P p) 12 z \<Longrightarrow> m' z = m z"
  shows "only_pages P p k m m'"
  unfolding only_pages_def
proof (intro allI impI, rule assms(4))
  fix z :: addr assume "\<not> (unat P + 4096 * p \<le> unat z \<and> unat z < unat P + 4096 * (p + k))"
  moreover have "unat P + 4096 * p + 12 \<le> unat P + 4096 * (p + k)" using assms(3) by simp
  ultimately show "\<not> within (page P p) 12 z"
    using unat_page(1) [OF assms(1,2)] by (auto simp: within_def)
qed

lemma set_free_cnt_only:
  assumes "room P n" and "p < n" and "\<not> within (page P p) 12 z"
  shows "memory (set_free_cnt (page P p) c st) z = memory st z"
  using room_page [OF assms(1,2)] assms(3) by (intro set_arena_other) simp_all

lemma wf_lists_take:
  assumes L: "wf_lists E P h G" and E: "E \<subseteq> {p}" and V: "valid P n G" and h: "sized h"
    and p: "G p = Some (Small i)" "j < bpa i" and fl: "fl h i = blk P i p j # bs"
  shows "wf_lists {} P (with_fl i bs h) G"
proof -
  note i = validD(4) [OF V p(1)] and pn = validD(2) [OF V p(1)] and r = validD(1) [OF V]
  note len = sized_length [OF h i]
  have pg: "pg_round_down (blk P i p j) = page P p" by (rule blk_page(1) [OF r pn i p(2)])
  have "cnt_in P q (fl (with_fl i bs h) i') < bpa i'" if q: "G q = Some (Small i')" for q i'
  proof (cases "q = p")
    case True
    then have "i' = i" using q p(1) by simp
    moreover have "cnt_in P p (fl h i) \<le> bpa i"
      by (rule cnt_in_bound(1) [OF L i r pn]) (rule validD(2) [OF V])
    ultimately show ?thesis using True len fl pg by simp
  next
    case False
    then have "cnt_in P q (fl h i') < bpa i'" using L q E unfolding wf_lists_def by blast
    moreover have "page P p \<noteq> page P q" using False page_inj [OF r pn validD(2) [OF V q]] by blast
    ultimately show ?thesis using len fl pg by (cases "i' = i") simp_all
  qed
  moreover have "i' < 7" if "G q = Some (Small i')" for q i' using validD(4) [OF V that] .
  moreover have "distinct (fl (with_fl i bs h) i') \<and> set (fl (with_fl i bs h) i') \<subseteq> set (fl h i')" if "i' < 7" for i'
    using L that fl len by (auto simp: wf_lists_def)
  ultimately show ?thesis using L unfolding wf_lists_def by blast
qed

lemma wf_lists_put:
  assumes L: "wf_lists {} P h G" and V: "valid P n G" and h: "sized h"
    and p: "G p = Some (Small i)" "j < bpa i" and new: "blk P i p j \<notin> set (fl h i)"
  shows "wf_lists {p} P (with_fl i (blk P i p j # fl h i) h) G"
proof -
  note i = validD(4) [OF V p(1)] and pn = validD(2) [OF V p(1)] and r = validD(1) [OF V]
  note len = sized_length [OF h i]
  let ?h = "with_fl i (blk P i p j # fl h i) h"
  have pg: "pg_round_down (blk P i p j) = page P p" by (rule blk_page(1) [OF r pn i p(2)])
  have "cnt_in P q (fl ?h i') < bpa i'" if q: "G q = Some (Small i')" "q \<notin> {p}" for q i'
  proof -
    have "cnt_in P q (fl h i') < bpa i'" using L q unfolding wf_lists_def by blast
    moreover have "page P p \<noteq> page P q" using q page_inj [OF r pn validD(2) [OF V q(1)]] by blast
    ultimately show ?thesis using len pg by (cases "i' = i") simp_all
  qed
  moreover have "i' < 7" if "G q = Some (Small i')" for q i' using validD(4) [OF V that] .
  moreover have "distinct (fl ?h i') \<and> (\<forall>b \<in> set (fl ?h i'). \<exists>q j. G q = Some (Small i') \<and> j < bpa i' \<and> b = blk P i' q j)"
    if "i' < 7" for i'
    using L that new len p by (cases "i' = i") (auto simp: wf_lists_def)
  ultimately show ?thesis unfolding wf_lists_def by blast
qed

lemma take_inv:
  assumes W: "wf_arenas E st B h G" and E: "E \<subseteq> {p}" and P: "P = kbase st"
    and p: "G p = Some (Small i)" "j < bpa i" and fl: "fl h i = blk P i p j # bs"
  defines "st' \<equiv> set_free_cnt (page P p) (a_free_cnt (memory st) (page P p) - 1) st"
  shows "wf_arenas {} st' B (with_fl i bs h) G"
    and "allocated P (with_fl i bs h) G = insert (blk P i p j, bsz i) (allocated P h G)"
    and "(blk P i p j, s) \<notin> allocated P h G" and "keeps (allocated P h G) (memory st) (memory st')"
proof -
  note D = wf_arenasD [OF W, folded P] and V = wf_valid [OF W, folded P]
  note i = validD(4) [OF V p(1)] and pn = validD(2) [OF V p(1)] and r = validD(1) [OF V]
  note len = sized_length [OF D(1) i]
  have pg: "pg_round_down (blk P i p j) = page P p" by (rule blk_page(1) [OF r pn i p(2)])
  note only = set_free_cnt_only [OF r pn]
  have "distinct (fl h i)" using D(4) i by (simp add: wf_lists_def)
  then have new: "blk P i p j \<notin> set bs" using fl by simp
  show "wf_arenas {} st' B (with_fl i bs h) G"
  proof (rule wf_arenas_update [OF W, where p = p and k = 1])
    show "only_pages (kbase st) p 1 (memory st) (memory st')"
      unfolding P [symmetric] st'_def by (rule header_only_pages [OF r pn]) (simp_all add: only)
    show "p + 1 \<le> q \<or> q + npages y \<le> p" if "G q = Some y" "q \<noteq> p" for q y
      using wf_space_disjoint [OF D(3) p(1) that(1)] that(2) by auto
    show "cnt_in (kbase st) q (fl (with_fl i bs h) i') = cnt_in (kbase st) q (fl h i')" if "G q = Some (Small i')" "q \<noteq> p" for q i'
      using page_inj [OF r pn validD(2) [OF V that(1)]] that(2) len fl pg by (cases "i' = i") (simp_all add: P [symmetric])
    show "arena_header (memory st') (with_fl i bs h) (kbase st) p x" if "G p = Some x" for x
      using that p(1) D(6) [OF p(1)] len fl pg by (auto simp: P [symmetric] st'_def small_at_def)
    show "wf_lists {} (kbase st) (with_fl i bs h) G"
      unfolding P [symmetric] by (rule wf_lists_take [OF D(4) E V D(1) p fl])
  qed (use D in \<open>simp_all add: st'_def\<close>)
  show "allocated P (with_fl i bs h) G = insert (blk P i p j, bsz i) (allocated P h G)" "(blk P i p j, s) \<notin> allocated P h G"
    using len fl new by (intro allocated_swap [where h' = "with_fl i bs h", OF V p]; simp)+
  show "keeps (allocated P h G) (memory st) (memory st')"
    unfolding st'_def by (rule keepsI, rule only) (rule outside_headers [OF V D(3) p(1)])
qed

lemma cleared_only:
  assumes V: "valid P n G" and p: "G p = Some (Small i)" "j < bpa i"
    and z: "\<not> within (page P p) 12 z" "\<not> within (blk P i p j) (bsz i) z"
  shows "memory (set_free_cnt (page P p) c (cleared i (blk P i p j) st)) z = memory st z"
proof -
  note i = validD(4) [OF V p(1)] and pn = validD(2) [OF V p(1)] and r = validD(1) [OF V]
  have "unat (blk P i p j) + bsz i \<le> 4294967296"
    using blk_range [OF r pn i p(2)] room_page [OF r pn] by simp
  then show ?thesis
    using z i by (simp add: set_free_cnt_only [OF r pn] cleared_def filled_within)
qed

lemma put_inv:
  assumes W: "wf_arenas {} st B h G" and P: "P = kbase st"
    and p: "G p = Some (Small i)" "j < bpa i" and new: "blk P i p j \<notin> set (fl h i)"
  defines "st' \<equiv> set_free_cnt (page P p) (a_free_cnt (memory st) (page P p) + 1) (cleared i (blk P i p j) st)"
    and "h' \<equiv> with_fl i (blk P i p j # fl h i) h"
  shows "wf_arenas {p} st' B h' G"
    and "allocated P h' G = allocated P h G - {(blk P i p j, bsz i)}"
    and "keeps (allocated P h' G) (memory st) (memory st')"
proof -
  note D = wf_arenasD [OF W, folded P] and V = wf_valid [OF W, folded P]
  note i = validD(4) [OF V p(1)] and pn = validD(2) [OF V p(1)] and r = validD(1) [OF V]
  note len = sized_length [OF D(1) i] and only = cleared_only [OF V p]
  have pg: "pg_round_down (blk P i p j) = page P p" by (rule blk_page(1) [OF r pn i p(2)])
  have sw: "allocated P h G = insert (blk P i p j, bsz i) (allocated P h' G)" "(blk P i p j, bsz i) \<notin> allocated P h' G"
    using len new unfolding h'_def by (intro allocated_swap [where h' = h, OF V p]; simp)+
  then show A: "allocated P h' G = allocated P h G - {(blk P i p j, bsz i)}" by simp
  have u: "unat (page P p) = unat P + 4096 * p" by (rule unat_page(1) [OF r pn])
  show "wf_arenas {p} st' B h' G"
  proof (rule wf_arenas_update [OF W, where p = p and k = 1])
    have "\<not> within (page P p) 12 z \<and> \<not> within (blk P i p j) (bsz i) z"
      if "\<not> (unat P + 4096 * p \<le> unat z \<and> unat z < unat P + 4096 * (p + 1))" for z
      using that blk_range [OF r pn i p(2)] u by (auto simp: within_def)
    then show "only_pages (kbase st) p 1 (memory st) (memory st')"
      using only unfolding P [symmetric] st'_def only_pages_def by blast
    show "p + 1 \<le> q \<or> q + npages y \<le> p" if "G q = Some y" "q \<noteq> p" for q y
      using wf_space_disjoint [OF D(3) p(1) that(1)] that(2) by auto
    show "cnt_in (kbase st) q (fl h' i') = cnt_in (kbase st) q (fl h i')" if "G q = Some (Small i')" "q \<noteq> p" for q i'
      using page_inj [OF r pn validD(2) [OF V that(1)]] that(2) len pg by (cases "i' = i") (simp_all add: P [symmetric] h'_def)
    show "arena_header (memory st') h' (kbase st) p x" if "G p = Some x" for x
      using that p(1) D(6) [OF p(1)] len pg cleared_header [OF r pn i p(2), of st]
      by (auto simp: P [symmetric] st'_def h'_def small_at_def)
    show "wf_lists {p} (kbase st) h' G"
      unfolding P [symmetric] h'_def by (rule wf_lists_put [OF D(4) V D(1) p new])
  qed (use D in \<open>simp_all add: st'_def h'_def cleared_def\<close>)
  show "keeps (allocated P h' G) (memory st) (memory st')"
  proof (rule keepsI)
    fix b s z assume b: "(b, s) \<in> allocated P h' G" and z: "within b s z"
    let ?b = "blk P i p j"
    have "unat b + s \<le> unat ?b \<or> unat ?b + bsz i \<le> unat b"
      using allocated_disjoint [OF V D(3), of b s h ?b "bsz i"] b A sw by blast
    then have nb: "\<not> within ?b (bsz i) z" using z by (auto simp: within_def)
    have "(b, s) \<in> allocated P h G" using b A by blast
    then have "\<not> within (page P p) 12 z" using z by (rule outside_headers [OF V D(3) p(1)])
    then show "memory st' z = memory st z" unfolding st'_def using nb by (rule only)
  qed
qed

section \<open>New arenas\<close>

lemma get_pages:
  assumes k: "runs k" and st: "wf_palloc st B" and cnt: "0 < cnt"
  obtains (none) "palloc_get_multiple k st 0 cnt = ret (NULL, k, st)" "\<And>p. \<not> run_at False (unat cnt) (B False) p"
  | (pages) p st1 where "palloc_get_multiple k st 0 cnt = ret (page (kbase st) p, k, st1)"
      "run_at False (unat cnt) (B False) p" "wf_palloc st1 (B(False := set_range p (unat cnt) True (B False)))"
      "kbase st1 = kbase st" "memory st1 = memory st" "page (kbase st) p \<noteq> NULL"
proof (rule palloc_get_multiple_cases [OF k st cnt, of 0], goal_cases)
  case (1 r p')
  then obtain a st1 where a: "palloc_get_multiple k st 0 cnt = ret (a, k, st1)" "a \<noteq> NULL" "gets_pages st B 0 cnt a st1"
    by (auto elim!: returnsE)
  then obtain p where p: "run_at False (unat cnt) (B False) p" "unat a = unat (kbase st) + 4096 * p"
      "wf_palloc st1 (B(False := set_range p (unat cnt) True (B False)))" "kbase st1 = kbase st" "memory st1 = memory st"
    by (auto simp: gets_pages_def Let_def get_pool_def)
  have "p < length (B False)" using run_at_le [OF p(1)] cnt by (simp add: word_less_nat_alt)
  then have "a = page (kbase st) p" using unat_page(1) [OF wf_room [OF st]] p(2) by (simp only: word_unat_eq_iff)
  then show thesis using pages a p by simp
next
  case 2
  then show thesis using none by simp
qed

lemma set_arena_only:
  assumes "room P n" and "p < n" and "\<not> within (page P p) 12 z"
  shows "memory (set_arena (page P p) d c st) z = memory st z"
  using room_page [OF assms(1,2)] assms(3) by (intro set_arena_other) simp_all

lemma new_arena_inv:
  assumes W: "wf_arenas {} st B h G" and P: "P = kbase st"
    and run: "run_at False (npages x) (B False) p" "0 < npages x"
    and st1: "wf_palloc st1 (B(False := set_range p (npages x) True (B False)))" "kbase st1 = P" "memory st1 = memory st"
    and h': "sized h'" "descs_at h' = descs_at h" and L: "wf_lists E P h' (G(p \<mapsto> x))"
    and cnt: "\<And>q i. G q = Some (Small i) \<Longrightarrow> cnt_in P q (fl h' i) = cnt_in P q (fl h i)"
    and hdr: "arena_header (memory (set_arena (page P p) d c st1)) h' P p x"
  shows "wf_arenas E (set_arena (page P p) d c st1) (B(False := set_range p (npages x) True (B False))) h' (G(p \<mapsto> x))"
    and "keeps (allocated P h G) (memory st) (memory (set_arena (page P p) d c st1))"
proof -
  note D = wf_arenasD [OF W, folded P] and V = wf_valid [OF W, folded P]
  have pn: "p < length (B False)" using run_at_le [OF run(1)] run(2) by simp
  have only: "only_pages P p (npages x) (memory st) (memory (set_arena (page P p) d c st1))"
    by (rule header_only_pages [OF D(5) pn run(2)]) (simp add: set_arena_only [OF D(5) pn] st1(3))
  note sep = space_fresh [OF D(3) run]
  show "wf_arenas E (set_arena (page P p) d c st1) (B(False := set_range p (npages x) True (B False))) h' (G(p \<mapsto> x))"
  proof (rule wf_arenas_update [OF W, where p = p and k = "npages x"])
    show "wf_space ((B(False := set_range p (npages x) True (B False))) False) (G(p \<mapsto> x))"
      using space_add(1) [OF D(3) run] by simp
    show "p + npages x \<le> q \<or> q + npages y \<le> p" if "G q = Some y" for q y using sep [OF that] .
  qed (use assms only in \<open>simp_all add: P\<close>)
  show "keeps (allocated P h G) (memory st) (memory (set_arena (page P p) d c st1))"
    by (rule keeps_pages [OF V only]) (rule sep)
qed

lemma wf_lists_grow:
  assumes L: "wf_lists {} P h G" and V: "valid P n G" and h: "sized h" and i: "i < 7" "fl h i = []" and p: "p < n" "G p = None"
  defines "h' \<equiv> with_fl i (map (blk P i p) [0..<bpa i]) h"
  shows "wf_lists {p} P h' (G(p \<mapsto> Small i))"
    and "G q = Some (Small i') \<Longrightarrow> cnt_in P q (fl h' i') = cnt_in P q (fl h i')"
    and "cnt_in P p (fl h' i) = bpa i"
proof -
  note r = validD(1) [OF V] and len = sized_length [OF h i(1)]
  have js: "set [0..<bpa i] \<subseteq> {..<bpa i}" by auto
  show c: "cnt_in P q (fl h' i') = cnt_in P q (fl h i')" if q: "G q = Some (Small i')" for q i'
  proof -
    have "q \<noteq> p" using q p(2) by auto
    then have "cnt_in P q (map (blk P i p) [0..<bpa i]) = 0"
      using cnt_in_map [OF r p(1) validD(2) [OF V q] i(1) js] by simp
    then show ?thesis using len i(2) by (simp add: h'_def)
  qed
  show "cnt_in P p (fl h' i) = bpa i"
    using cnt_in_map [OF r p(1) p(1) i(1) js] len by (simp add: h'_def)
  have dist: "distinct (map (blk P i p) [0..<bpa i])"
    using blk_inj [OF r p(1) i(1)] by (auto simp: distinct_map inj_on_def)
  have 1: "i' < 7 \<and> (q \<notin> {p} \<longrightarrow> cnt_in P q (fl h' i') < bpa i')" if q: "(G(p \<mapsto> Small i)) q = Some (Small i')" for q i'
  proof (cases "q = p")
    case True
    then show ?thesis using q i(1) by simp
  next
    case False
    then have q': "G q = Some (Small i')" using q by simp
    then have "i' < 7 \<and> cnt_in P q (fl h i') < bpa i'" using L unfolding wf_lists_def by blast
    then show ?thesis using c [OF q'] by simp
  qed
  have 2: "distinct (fl h' i') \<and> (\<forall>b \<in> set (fl h' i'). \<exists>q j. (G(p \<mapsto> Small i)) q = Some (Small i') \<and> j < bpa i' \<and> b = blk P i' q j)"
    if i': "i' < 7" for i'
  proof (cases "i' = i")
    case True
    have "\<exists>q j. (G(p \<mapsto> Small i)) q = Some (Small i) \<and> j < bpa i \<and> b = blk P i q j"
      if b: "b \<in> set (map (blk P i p) [0..<bpa i])" for b
    proof -
      obtain j where "j < bpa i" "b = blk P i p j" using b by auto
      then show ?thesis by (intro exI [of _ p] exI [of _ j]) simp
    qed
    then show ?thesis using True dist len by (simp add: h'_def)
  next
    case False
    then have f: "fl h' i' = fl h i'" using len by (simp add: h'_def)
    have "\<exists>q j. (G(p \<mapsto> Small i)) q = Some (Small i') \<and> j < bpa i' \<and> b = blk P i' q j" if b: "b \<in> set (fl h i')" for b
    proof -
      obtain q j where q: "G q = Some (Small i')" "j < bpa i'" "b = blk P i' q j" using listed_block [OF L i' b] .
      then have "q \<noteq> p" using p(2) by auto
      then show ?thesis using q by (intro exI [of _ q] exI [of _ j]) simp
    qed
    moreover have "distinct (fl h i')" using L i' by (simp add: wf_lists_def)
    ultimately show ?thesis using f by simp
  qed
  show "wf_lists {p} P h' (G(p \<mapsto> Small i))"
    unfolding wf_lists_def using 1 2 by blast
qed

section \<open>Dropped arenas\<close>

lemma drop_pages:
  assumes k: "runs k" and st: "wf_palloc st B" and run: "run_at True c (B False) p" and c: "0 < c"
  obtains st' where "palloc_free_multiple k st (page (kbase st) p) (of_nat c) = ret (k, st')"
    "wf_palloc st' (B(False := set_range p c False (B False)))" "kbase st' = kbase st"
    "only_pages (kbase st) p c (memory st) (memory st')"
proof -
  note r = wf_room [OF st] and le = run_at_le [OF run]
  have pn: "p < length (B False)" using le c by simp
  have a: "unat (page (kbase st) p) = unat (kbase st) + 4096 * p" by (rule unat_page(1) [OF r pn])
  have b0: "0 < unat (kbase st)" using r by (simp add: room_def unat_gt_0)
  have "4096 * (p + c) \<le> 4096 * length (B False)" using le by simp
  then have end_le: "unat (page (kbase st) p) + 4096 * c \<le> 4294967296" using r a by (simp add: room_def)
  then have uc: "unat (of_nat c :: u32) = c" using b0 a by (simp add: unat_of_nat)
  have u4: "unat (4096 * of_nat c :: u32) = 4096 * c"
    using end_le b0 a uc by (subst unat_mult_lem [THEN iffD1]) simp_all
  have "unat (of_nat c :: u32) \<noteq> 0" using uc c by simp
  then have "(of_nat c :: u32) \<noteq> 0" by (metis unsigned_0)
  note free = palloc_free_multiple_in_pool [OF k st pn this, of "page (kbase st) p"]
  obtain st' where st': "palloc_free_multiple k st (page (kbase st) p) (of_nat c) = ret (k, st')"
      "wf_palloc st' (B(False := set_range p c False (B False)))" "kbase st' = kbase st"
      "memory st' = filled (memory st) (page (kbase st) p) (4096 * of_nat c) 0xcc"
    using free run a uc by (auto simp: get_pool_def elim!: returnsE)
  have "only_pages (kbase st) p c (memory st) (memory st')"
    using st'(4) a u4 end_le by (simp add: only_pages_def filled_within within_def)
  then show thesis using that st' by blast
qed

lemma drop_arena_inv:
  assumes W: "wf_arenas E st B h G" and P: "P = kbase st" and p: "G p = Some x"
    and st': "wf_palloc st' (B(False := set_range p (npages x) False (B False)))" "kbase st' = P"
      "only_pages P p (npages x) (memory st) (memory st')"
    and h': "sized h'" "descs_at h' = descs_at h" and L: "wf_lists {} P h' (G(p := None))"
    and cnt: "\<And>q i. G q = Some (Small i) \<Longrightarrow> q \<noteq> p \<Longrightarrow> cnt_in P q (fl h' i) = cnt_in P q (fl h i)"
  shows "wf_arenas {} st' (B(False := set_range p (npages x) False (B False))) h' (G(p := None))"
    and "keeps (allocated P h' (G(p := None))) (memory st) (memory st')"
proof -
  note D = wf_arenasD [OF W, folded P] and V = wf_valid [OF W, folded P]
  have sep: "p + npages x \<le> q \<or> q + npages y \<le> p" if "G q = Some y" "q \<noteq> p" for q y
    using wf_space_disjoint [OF D(3) p that(1)] that(2) by simp
  show W': "wf_arenas {} st' (B(False := set_range p (npages x) False (B False))) h' (G(p := None))"
  proof (rule wf_arenas_update [OF W, where p = p and k = "npages x"])
    show "wf_space ((B(False := set_range p (npages x) False (B False))) False) (G(p := None))"
      using space_del(1) [OF D(3) p] by simp
    show "p + npages x \<le> q \<or> q + npages y \<le> p" if "G q = Some y" "q \<noteq> p" for q y using sep [OF that] .
  qed (use assms in \<open>simp_all add: P\<close>)
  have sep': "p + npages x \<le> q \<or> q + npages y \<le> p" if "(G(p := None)) q = Some y" for q y
    using that sep by (auto split: if_splits)
  show "keeps (allocated P h' (G(p := None))) (memory st) (memory st')"
    using wf_valid [OF W'] st'(2,3) by (intro keeps_pages [OF _ st'(3)]) (simp_all add: sep')
qed

lemma wf_lists_drain:
  assumes L: "wf_lists {p} P h G" and V: "valid P n G" and h: "sized h" and p: "G p = Some (Small i)"
  defines "h' \<equiv> with_fl i (filter (\<lambda>b. b \<notin> blk P i p ` {..<bpa i}) (fl h i)) h"
  shows "wf_lists {} P h' (G(p := None))"
    and "G q = Some (Small i') \<Longrightarrow> q \<noteq> p \<Longrightarrow> cnt_in P q (fl h' i') = cnt_in P q (fl h i')"
proof -
  note i = validD(4) [OF V p] and pn = validD(2) [OF V p] and r = validD(1) [OF V]
  note len = sized_length [OF h i]
  have in_p: "pg_round_down b = page P p" if "b \<in> blk P i p ` {..<bpa i}" for b
    using that blk_page(1) [OF r pn i] by auto
  show c: "cnt_in P q (fl h' i') = cnt_in P q (fl h i')" if q: "G q = Some (Small i')" "q \<noteq> p" for q i'
  proof -
    have ne: "page P p \<noteq> page P q" using page_inj [OF r pn validD(2) [OF V q(1)]] q(2) by blast
    have "filter (\<lambda>b. pg_round_down b = page P q) (filter (\<lambda>b. b \<notin> blk P i p ` {..<bpa i}) xs) =
        filter (\<lambda>b. pg_round_down b = page P q) xs" for xs
      unfolding filter_filter by (rule filter_cong [OF refl]) (use ne in_p in force)
    then show ?thesis using len by (cases "i' = i") (simp_all add: h'_def cnt_in_def)
  qed
  have sub: "set (fl h' i') \<subseteq> set (fl h i')" "distinct (fl h i') \<Longrightarrow> distinct (fl h' i')" for i'
    using len by (cases "i' = i"; auto simp: h'_def)+
  have 1: "i' < 7 \<and> (q \<notin> {} \<longrightarrow> cnt_in P q (fl h' i') < bpa i')" if q: "(G(p := None)) q = Some (Small i')" for q i'
  proof -
    have q': "G q = Some (Small i')" "q \<noteq> p" using q by (auto split: if_splits)
    then have "i' < 7 \<and> cnt_in P q (fl h i') < bpa i'" using L unfolding wf_lists_def by blast
    then show ?thesis using c [OF q'] by simp
  qed
  have 2: "distinct (fl h' i') \<and> (\<forall>b \<in> set (fl h' i'). \<exists>q j. (G(p := None)) q = Some (Small i') \<and> j < bpa i' \<and> b = blk P i' q j)"
    if i': "i' < 7" for i'
  proof -
    have "\<exists>q j. (G(p := None)) q = Some (Small i') \<and> j < bpa i' \<and> b = blk P i' q j" if b: "b \<in> set (fl h' i')" for b
    proof -
      obtain q j where q: "G q = Some (Small i')" "j < bpa i'" "b = blk P i' q j"
        using listed_block [OF L i', of b] sub(1) b by blast
      have "q \<noteq> p"
      proof
        assume "q = p"
        then have "i' = i" "b \<in> blk P i p ` {..<bpa i}" using q p by auto
        then show False using b len by (simp add: h'_def)
      qed
      then show ?thesis using q by (intro exI [of _ q] exI [of _ j]) simp
    qed
    moreover have "distinct (fl h i')" using L i' by (simp add: wf_lists_def)
    ultimately show ?thesis using sub(2) by blast
  qed
  show "wf_lists {} P h' (G(p := None))"
    unfolding wf_lists_def using 1 2 by blast
qed

end
