(* ===== verification/Malloc_Spec.thy ===== *)
theory Malloc_Spec
  imports Malloc_Safe
begin

text \<open>
  What \<^verbatim>\<open>malloc\<close> and \<^verbatim>\<open>free\<close> guarantee: the invariant in terms of the blocks in use, every path of
  the two calls, and that the owner of a block may write to it.
\<close>

section \<open>What the calls guarantee\<close>

text \<open>
  \<open>heap_inv st h X U\<close>: the heap is well formed, the blocks in use are \<open>X\<close>, with their sizes, and
  the pages of the kernel pool that are used by others are \<open>U\<close>.
\<close>

definition heap_inv :: "palloc \<Rightarrow> heap \<Rightarrow> (addr \<times> nat) set \<Rightarrow> nat set \<Rightarrow> bool" where
  "heap_inv st h X U \<longleftrightarrow> unlocked h \<and>
     (\<exists>B G. wf_arenas {} st B h G \<and> X = allocated (kbase st) h G \<and> U = others (B False) G)"

lemma heap_invE:
  assumes "heap_inv st h X U"
  obtains B G where "unlocked h" "wf_arenas {} st B h G" "X = allocated (kbase st) h G" "U = others (B False) G"
  using assms by (auto simp: heap_inv_def)

lemma heap_invI:
  "unlocked h \<Longrightarrow> wf_arenas {} st B h G \<Longrightarrow> kbase st = P \<Longrightarrow> X = allocated P h G \<Longrightarrow> U = others (B False) G \<Longrightarrow> heap_inv st h X U"
  by (auto simp: heap_inv_def)

lemma kbase_set [simp]: "kbase (set_arena a d c st) = kbase st" "kbase (set_free_cnt a c st) = kbase st"
  "kbase (cleared i b st) = kbase st"
  by (simp_all add: cleared_def)

text \<open>The outcome of an allocation that returns a block of \<open>s\<close> bytes at \<open>p\<close>.\<close>

definition gives :: "palloc \<Rightarrow> (addr \<times> nat) set \<Rightarrow> nat set \<Rightarrow> nat \<Rightarrow> addr \<Rightarrow> palloc \<Rightarrow> heap \<Rightarrow> bool" where
  "gives st X U s p st' h' \<longleftrightarrow> p \<noteq> NULL \<and> (\<forall>t. (p, t) \<notin> X) \<and>
     heap_inv st' h' (insert (p, s) X) U \<and> keeps X (memory st) (memory st')"

lemma malloc_small_new_arena:
  assumes k: "runs k" and H: "unlocked h" "wf_arenas {} st B h G" and P_def: "P = kbase st" and i: "i < 7" and Nil: "fl h i = []"
    and pages: "palloc_get_multiple k st 0 1 = ret (page P p, k, st1)" "run_at False 1 (B False) p"
      "wf_palloc st1 (B(False := set_range p 1 True (B False)))" "kbase st1 = P" "memory st1 = memory st"
  shows "returns (malloc_small k st h (dptr h i)) (\<lambda>(b, k', st', h'). k' = k \<and>
    gives st (allocated P h G) (others (B False) G) (bsz i) b st' h')"
proof -
  note D = wf_arenasD [OF H(2), folded P_def] and V = wf_valid [OF H(2), folded P_def] and len = sized_length [OF D(1) i]
  have run: "run_at False (npages (Small i)) (B False) p" using pages(2) by simp
  have pn: "p < length (B False)" using run_at_le [OF run] by simp
  note A = space_add [OF D(3) run, simplified]
  define h1 where "h1 = with_fl i (map (blk P i p) [0..<bpa i]) h"
  define st2 where "st2 = set_arena (page P p) (dptr h i) (of_nat (bpa i)) st1"
  note L = wf_lists_grow [OF D(4) V D(1) i Nil pn A(2), folded h1_def]
  have "arena_header (memory st2) h1 P p (Small i)"
    using L(3) by (simp add: st2_def h1_def small_at_def)
  note N = new_arena_inv [OF H(2) P_def run _ _ _ pages(5) _ _ L(1,2) this [unfolded st2_def], folded st2_def]
  have W: "wf_arenas {p} st2 (B(False := set_range p 1 True (B False))) h1 (G(p \<mapsto> Small i))"
    and K: "keeps (allocated P h G) (memory st) (memory st2)"
    using N D(1) pages(3,4) by (simp_all add: h1_def)
  have P2: "P = kbase st2" using pages(4) by (simp add: st2_def)
  have al: "allocated P h1 (G(p \<mapsto> Small i)) = allocated P h G"
    using len Nil
    by (intro allocated_arena [where G = G and p = p and i = i, OF wf_valid [OF W, folded P2] A(2)])
      (auto simp: h1_def lessThan_atLeast0)
  have b: "0 < bpa i" using bsz_bounds [OF i] by simp
  then have fl1: "fl h1 i = blk P i p 0 # map (blk P i p) [1..<bpa i]"
    using len by (simp add: h1_def upt_conv_Cons)
  note T = take_inv [OF W subset_refl P2 _ b fl1, simplified]
  have cnt: "a_free_cnt (memory st2) (page P p) = of_nat (bpa i)" by (simp add: st2_def)
  let ?st = "set_free_cnt (page P p) (of_nat (bpa i) - 1) st2" and ?h = "with_fl i (map (blk P i p) [1..<bpa i]) h"
  have h1h: "with_fl i (map (blk P i p) [1..<bpa i]) h1 = ?h" by (simp add: h1_def)
  have ex: "malloc_small k st h (dptr h i) = ret (blk P i p 0, k, ?st, ?h)"
    using malloc_small_grow [OF k D(1) H(1) i Nil D(5) pn, of st st1] pages(1)
    by (simp add: palloc_get_page_def st2_def Let_def)
  have "heap_inv ?st ?h (insert (blk P i p 0, bsz i) (allocated P h G)) (others (B False) G)"
    using T(1,2) H(1) al A(3) P2 cnt h1h
    by (intro heap_invI [of _ _ "B(False := set_range p 1 True (B False))" "G(p \<mapsto> Small i)" P]) simp_all
  then have "gives st (allocated P h G) (others (B False) G) (bsz i) (blk P i p 0) ?st ?h"
    using T(3,4) al cnt keeps_trans [OF K] blk_page(3) [OF D(5) pn i b]
    by (simp add: gives_def)
  then show ?thesis using ex by simp
qed

lemma malloc_small_spec:
  assumes k: "runs k" and I: "heap_inv st h X U" and i: "i < 7"
  shows "returns (malloc_small k st h (dptr h i)) (\<lambda>(p, k', st', h'). k' = k \<and>
    (if p = NULL then st' = st \<and> h' = h \<and> palloc_get_multiple k st 0 1 = ret (NULL, k, st) else gives st X U (bsz i) p st' h'))"
proof -
  obtain B G where H: "unlocked h" "wf_arenas {} st B h G" "X = allocated (kbase st) h G" "U = others (B False) G"
    using heap_invE [OF I] .
  define P where "P = kbase st"
  note D = wf_arenasD [OF H(2), folded P_def] and V = wf_valid [OF H(2), folded P_def]
  note len = sized_length [OF D(1) i] and X = H(3) [folded P_def]
  show ?thesis
  proof (cases "fl h i")
    case (Cons b bs)
    then obtain p j where p: "G p = Some (Small i)" "j < bpa i" "b = blk P i p j"
      using listed_block [OF D(4) i, of b] by auto
    note pn = validD(2) [OF V p(1)]
    have "small_at (memory st) h i (page P p)" using D(6) [OF p(1)] by simp
    note ex = malloc_small_take [OF k D(1) H(1) i Cons [unfolded p(3)] D(5) pn p(2) this]
    note T = take_inv [OF H(2) _ P_def p(1,2) Cons [unfolded p(3)], simplified]
    have "heap_inv (set_free_cnt (page P p) (a_free_cnt (memory st) (page P p) - 1) st) (with_fl i bs h)
        (insert (b, bsz i) X) U"
      using T(1,2) H(1,4) X p(3) by (intro heap_invI [OF _ T(1), of P]) (simp_all add: P_def)
    then have "gives st X U (bsz i) b (set_free_cnt (page P p) (a_free_cnt (memory st) (page P p) - 1) st) (with_fl i bs h)"
      using T(3,4) X p(3) blk_page(3) [OF D(5) pn i p(2)] by (simp add: gives_def)
    then show ?thesis using ex p(3) by (simp add: gives_def)
  next
    case Nil
    have one: "(0 :: size_t) < 1" by simp
    from k D(2) one show ?thesis
    proof (cases rule: get_pages)
      case none
      then have "palloc_get_page k st 0 = ret (NULL, k, st)" by (simp add: palloc_get_page_def)
      then show ?thesis using malloc_small_none [OF k D(1) H(1) i Nil] none(1) by simp
    next
      case (pages p st1)
      show ?thesis
        using malloc_small_new_arena [OF k H(1,2) P_def i Nil, of p st1] pages X H(4)
        by (auto simp: P_def gives_def elim!: returns_mono)
    qed
  qed
qed

lemma wf_lists_big:
  assumes L: "wf_lists {} P h G" and big: "\<And>i. G p \<noteq> Some (Small i)" "\<And>i. x \<noteq> Some (Small i)"
  shows "wf_lists {} P h (G(p := x))"
proof -
  have "(G(p := x)) q = Some (Small i) \<longleftrightarrow> G q = Some (Small i)" for q i using big by auto
  then show ?thesis using L unfolding wf_lists_def by presburger
qed

definition pages_for :: "size_t \<Rightarrow> nat" where
  "pages_for sz = (if unat sz \<le> 1024 then 1 else (unat sz + 4107) div 4096)"

lemma pages_for_word:
  assumes "1024 < unat sz" and "unat sz < 4294967285"
  shows "DIV_ROUND_UP (sz + 12) PGSIZE = (if unat sz + 4107 < 4294967296 then of_nat (pages_for sz) else 0)"
proof (rule word_unat_eq_iff [THEN iffD2])
  have u: "unat (sz + 12 + 4096 - 1) = (unat sz + 4107) mod 4294967296"
  proof -
    have e: "sz + 12 + 4096 - 1 = sz + 4107" by (simp add: algebra_simps)
    show ?thesis unfolding e unat_word_ariths(1) by simp
  qed
  show "unat (DIV_ROUND_UP (sz + 12) PGSIZE) = unat (if unat sz + 4107 < 4294967296 then of_nat (pages_for sz) else 0 :: u32)"
  proof (cases "unat sz + 4107 < 4294967296")
    case True
    then have "(unat sz + 4107) div 4096 < 4294967296" by (intro order_le_less_trans [OF div_le_dividend])
    then show ?thesis using True u assms by (simp add: DIV_ROUND_UP_def unat_div pages_for_def unat_of_nat)
  next
    case False
    define d where "d = unat sz + 4107 - 4294967296"
    have d: "unat sz + 4107 = d + 4294967296" "d < 4096" using False assms(2) by (simp_all add: d_def)
    have "(unat sz + 4107) mod 4294967296 < 4096" unfolding d(1) using d(2) by simp
    then show ?thesis using False u by (simp add: DIV_ROUND_UP_def unat_div)
  qed
qed

lemma no_such_run:
  assumes "wf_palloc st B" and "run_at v n (B False) p"
  shows "n < 1048576"
proof -
  have "n \<le> length (B False)" "unat (kbase st) + 4096 * length (B False) \<le> 4294967296" "0 < unat (kbase st)"
    using run_at_le [OF assms(2)] wf_room [OF assms(1)] by (simp_all add: room_def unat_gt_0)
  then show ?thesis by linarith
qed

lemma malloc_big_pages:
  assumes k: "runs k" and I: "heap_inv st h X U"
    and w: "DIV_ROUND_UP (sz + 12) PGSIZE = of_nat c" and c: "0 < c" "c \<le> 1048576"
  shows "returns (malloc_big k st h sz) (\<lambda>(p, k', st', h'). k' = k \<and>
    (if p = NULL then st' = st \<and> h' = h \<and> palloc_get_multiple k st 0 (of_nat c) = ret (NULL, k, st)
     else gives st X U (4096 * c - 12) p st' h'))"
proof -
  obtain B G where H: "unlocked h" "wf_arenas {} st B h G" "X = allocated (kbase st) h G" "U = others (B False) G"
    using heap_invE [OF I] .
  define P where "P = kbase st"
  note D = wf_arenasD [OF H(2), folded P_def] and V = wf_valid [OF H(2), folded P_def] and X = H(3) [folded P_def]
  have uc: "unat (of_nat c :: u32) = c" using c(2) by (simp add: unat_of_nat)
  then have "(0 :: u32) < of_nat c" using c(1) by (simp add: word_less_nat_alt)
  with k D(2) show ?thesis
  proof (cases rule: get_pages)
    case none
    then show ?thesis unfolding malloc_big_def w by simp
  next
    case (pages p st1)
    have run: "run_at False (npages (Big c)) (B False) p" using pages(2) uc by simp
    have pn: "p < length (B False)" using run_at_le [OF run] c(1) by simp
    note A = space_add [OF D(3) run, simplified, OF c(1)]
    let ?st = "set_arena (page P p) NULL (of_nat c) st1"
    have L: "wf_lists {} P h (G(p \<mapsto> Big c))" by (rule wf_lists_big [OF D(4)]) (simp_all add: A(2))
    have "arena_header (memory ?st) h P p (Big c)" by (simp add: big_at_def)
    note N = new_arena_inv [OF H(2) P_def run _ _ _ pages(5) D(1) refl L refl this]
    have W: "wf_arenas {} ?st (B(False := set_range p c True (B False))) h (G(p \<mapsto> Big c))"
      and K: "keeps X (memory st) (memory ?st)"
      using N c(1) pages(3,4) uc X by (simp_all add: P_def)
    note add = allocated_add_big [OF V A(2) pn]
    have "heap_inv ?st h (insert (page P p + 12, 4096 * c - 12) X) U"
      using W H(1,4) X A(3) pages(4) add(1)
      by (intro heap_invI [of _ _ "B(False := set_range p c True (B False))" "G(p \<mapsto> Big c)" P]) (simp_all add: P_def)
    then have "gives st X U (4096 * c - 12) (page P p + 12) ?st h"
      using K X add(2) big_page(4) [OF D(5) pn] by (simp add: gives_def)
    moreover have "malloc_big k st h sz = ret (page P p + 12, k, ?st, h)"
      using pages(1,6) unfolding malloc_big_def w by (simp add: P_def)
    ultimately show ?thesis by (simp add: gives_def)
  qed
qed

text \<open>A request that wraps around to no pages is refused, as the page allocator would refuse it.\<close>

lemma malloc_big_none:
  assumes k: "runs k" and I: "heap_inv st h X U"
    and w: "DIV_ROUND_UP (sz + 12) PGSIZE = 0" and c: "1048576 \<le> c" "c < 4294967296"
  shows "malloc_big k st h sz = ret (NULL, k, st, h)" and "palloc_get_multiple k st 0 (of_nat c) = ret (NULL, k, st)"
proof -
  obtain B G where "wf_arenas {} st B h G" using I by (auto elim: heap_invE)
  then have st: "wf_palloc st B" by (rule wf_arenasD)
  have uc: "unat (of_nat c :: u32) = c" using c(2) by (simp add: unat_of_nat)
  then have "(0 :: u32) < of_nat c" using c(1) by (simp add: word_less_nat_alt)
  with k st show "palloc_get_multiple k st 0 (of_nat c) = ret (NULL, k, st)"
    by (cases rule: get_pages) (use no_such_run [OF st] uc c(1) in fastforce)+
  show "malloc_big k st h sz = ret (NULL, k, st, h)"
    using w by (simp add: malloc_big_def palloc_get_multiple_def Let_def)
qed

lemma pages_for_bounds:
  assumes "1024 < unat sz" and "unat sz < 4294967285"
  shows "0 < pages_for sz" "pages_for sz \<le> 1048576" "unat sz + 12 \<le> 4096 * pages_for sz"
    and "4294967296 \<le> unat sz + 4107 \<Longrightarrow> 1048576 \<le> pages_for sz"
proof -
  have c: "pages_for sz = (unat sz + 4107) div 4096" using assms(1) by (simp add: pages_for_def)
  then show "0 < pages_for sz" "unat sz + 12 \<le> 4096 * pages_for sz"
    using assms(1) by (simp_all add: div_greater_zero_iff)
  show "pages_for sz \<le> 1048576"
    using assms(2) div_le_mono [of "unat sz + 4107" 4294971391 4096] c by simp
  show "1048576 \<le> pages_for sz" if "4294967296 \<le> unat sz + 4107"
    using that div_le_mono [of 4294967296 "unat sz + 4107" 4096] c by simp
qed

lemma malloc_spec:
  assumes k: "runs k" and I: "heap_inv st h X U" and sz: "sz \<noteq> 0" "unat sz < 4294967285"
  shows "returns (malloc k st h sz) (\<lambda>(p, k', st', h'). k' = k \<and>
    (if p = NULL then st' = st \<and> h' = h \<and> palloc_get_multiple k st 0 (of_nat (pages_for sz)) = ret (NULL, k, st)
     else \<exists>s \<ge> unat sz. gives st X U s p st' h'))"
proof -
  have h: "sized h" using I by (auto elim: heap_invE dest: wf_arenasD(1))
  show ?thesis
    using h sz(1)
  proof (cases rule: malloc_cases [where k = k and st = st])
    case (small i)
    have "1024 < unat sz \<Longrightarrow> False" using small(1,2) bsz_bounds [of i] by linarith
    then have "pages_for sz = 1" by (auto simp: pages_for_def)
    then show ?thesis
      using small(2,4) malloc_small_spec [OF k I small(1)] by (auto elim!: returns_mono split: if_splits)
  next
    case big
    note b = pages_for_bounds [OF big(1) sz(2)] and w = pages_for_word [OF big(1) sz(2)]
    show ?thesis
    proof (cases "unat sz + 4107 < 4294967296")
      case True
      have "unat sz \<le> 4096 * pages_for sz - 12" using b(3) by linarith
      then show ?thesis
        using big(2) malloc_big_pages [OF k I _ b(1,2), of sz] w True by (auto elim!: returns_mono split: if_splits)
    next
      case False
      then show ?thesis
        using big(2) malloc_big_none [OF k I, of sz "pages_for sz"] w b(2,4) by simp
    qed
  qed
qed

section \<open>Freeing\<close>

definition takes :: "palloc \<Rightarrow> (addr \<times> nat) set \<Rightarrow> nat set \<Rightarrow> palloc \<Rightarrow> heap \<Rightarrow> bool" where
  "takes st X U st' h' \<longleftrightarrow> heap_inv st' h' X U \<and> keeps X (memory st) (memory st')"

lemma wf_arenas_strict:
  assumes W: "wf_arenas {p} st B h G" and p: "G p = Some (Small i)" and c: "cnt_in (kbase st) p (fl h i) < bpa i"
  shows "wf_arenas {} st B h G"
proof -
  have "cnt_in (kbase st) q (fl h i') < bpa i'" if q: "G q = Some (Small i')" for q i'
  proof (cases "q = p")
    case True
    then show ?thesis using q p c by simp
  next
    case False
    then show ?thesis using wf_arenasD(4) [OF W] q unfolding wf_lists_def by blast
  qed
  then show ?thesis using W unfolding wf_arenas_def wf_lists_def by blast
qed

lemma free_keep:
  assumes k: "runs k" and I: "unlocked h" "wf_arenas {} st B h G" "P = kbase st"
    and p: "G p = Some (Small i)" "j < bpa i" "blk P i p j \<notin> set (fl h i)" and c: "Suc (cnt_in P p (fl h i)) < bpa i"
  shows "returns (free k st h (blk P i p j)) (\<lambda>(k', st', h'). k' = k \<and>
    takes st (allocated P h G - {(blk P i p j, bsz i)}) (others (B False) G) st' h')"
proof -
  note D = wf_arenasD [OF I(2), folded I(3)] and V = wf_valid [OF I(2), folded I(3)]
  note i = validD(4) [OF V p(1)] and pn = validD(2) [OF V p(1)] and r = validD(1) [OF V]
  have s: "small_at (memory st) h i (page P p)" "a_free_cnt (memory st) (page P p) = of_nat (cnt_in P p (fl h i))"
    using D(6) [OF p(1)] by simp_all
  let ?c = "a_free_cnt (memory st) (page P p) + 1"
  have "?c = of_nat (Suc (cnt_in P p (fl h i)))" using s(2) by simp
  then have lt: "?c < of_nat (bpa i)"
    using c bsz_bounds [OF i] by (simp add: word_less_nat_alt unat_of_nat del: of_nat_Suc)
  let ?st = "set_free_cnt (page P p) ?c (cleared i (blk P i p j) st)" and ?h = "with_fl i (blk P i p j # fl h i) h"
  note T = put_inv [OF I(2,3) p]
  have "cnt_in P p (fl ?h i) < bpa i"
    using c sized_length [OF D(1) i] blk_page(1) [OF r pn i p(2)] by simp
  then have "wf_arenas {} ?st B ?h G" using wf_arenas_strict [OF T(1) p(1)] I(3) by simp
  then have "heap_inv ?st ?h (allocated P h G - {(blk P i p j, bsz i)}) (others (B False) G)"
    using T(2) I(1,3) by (intro heap_invI [of _ _ B G P]) simp_all
  then show ?thesis
    using free_small_exec(1) [OF k D(1) I(1) i r pn p(2) s(1) lt] T(2,3) by (simp add: takes_def)
qed

lemma free_drain:
  assumes k: "runs k" and I: "unlocked h" "wf_arenas {} st B h G" "P = kbase st"
    and p: "G p = Some (Small i)" "j < bpa i" "blk P i p j \<notin> set (fl h i)" and c: "Suc (cnt_in P p (fl h i)) = bpa i"
  shows "returns (free k st h (blk P i p j)) (\<lambda>(k', st', h'). k' = k \<and>
    takes st (allocated P h G - {(blk P i p j, bsz i)}) (others (B False) G) st' h')"
proof -
  note D = wf_arenasD [OF I(2), folded I(3)] and V = wf_valid [OF I(2), folded I(3)]
  note i = validD(4) [OF V p(1)] and pn = validD(2) [OF V p(1)] and r = validD(1) [OF V]
  have s: "small_at (memory st) h i (page P p)" "a_free_cnt (memory st) (page P p) = of_nat (cnt_in P p (fl h i))"
    using D(6) [OF p(1)] by simp_all
  let ?c = "a_free_cnt (memory st) (page P p) + 1"
  have eq: "?c = of_nat (bpa i)" using s(2) by (simp flip: c)
  define st1 where "st1 = set_free_cnt (page P p) ?c (cleared i (blk P i p j) st)"
  define h1 where "h1 = with_fl i (blk P i p j # fl h i) h"
  note T = put_inv [OF I(2,3) p, folded st1_def h1_def]
  have P1: "P = kbase st1" using I(3) by (simp add: st1_def)
  note D1 = wf_arenasD [OF T(1), folded P1]
  have fl1: "fl h1 i = blk P i p j # fl h i" using sized_length [OF D(1) i] by (simp add: h1_def)
  then have cnt1: "cnt_in P p (fl h1 i) = bpa i" using c blk_page(1) [OF r pn i p(2)] by simp
  have sub: "blk P i p ` {..<bpa i} \<subseteq> set (fl h1 i)"
    by (rule cnt_in_bound(2) [OF D1(4) i r pn _ cnt1]) (rule validD(2) [OF V])
  have dist: "distinct (fl h1 i)" using D1(4) i by (simp add: wf_lists_def)
  define h2 where "h2 = with_fl i (filter (\<lambda>b. b \<notin> blk P i p ` {..<bpa i}) (fl h1 i)) h1"
  have run: "run_at True (npages (Small i)) (B False) p" by (rule wf_spaceD(2) [OF D(3) p(1)])
  then obtain st2 where st2: "palloc_free_page k st1 (page P p) = ret (k, st2)"
      "wf_palloc st2 (B(False := set_range p 1 False (B False)))" "kbase st2 = P" "only_pages P p 1 (memory st1) (memory st2)"
    using drop_pages [OF k D1(2), of 1 p] P1 by (auto simp: palloc_free_page_def)
  have fl2: "set (fl h1 i) = set (fl h2 i) \<union> blk P i p ` {..<bpa i}"
    using sub sized_length [OF D1(1) i] by (auto simp: h2_def)
  note L = wf_lists_drain [OF D1(4) V D1(1) p(1), folded h2_def]
  have h2: "sized h2" "descs_at h2 = descs_at h1" "unlocked h2"
    using D1(1) I(1) unfolding h2_def with_sized with_heap by (simp_all add: h1_def)
  note R = drop_arena_inv [OF T(1) P1 p(1), of st2 h2, unfolded npages.simps, OF st2(2-4) h2(1,2) L]
  have GG: "(G(p := None))(p \<mapsto> Small i) = G" using p(1) by (simp add: fun_upd_idem)
  have "fl h1 i' = fl h2 i'" if "i' \<noteq> i" for i'
    using that sized_length [OF D1(1) i] unfolding h2_def by simp
  then have al: "allocated P h1 G = allocated P h2 (G(p := None))"
    using allocated_arena [of P "length (B False)" "G(p := None)" p i h1 h2, unfolded GG, OF V _ _ fl2] by simp
  have ex: "free k st h (blk P i p j) = ret (k, st2, with_fl i (filter (\<lambda>b. b \<notin> blk P i p ` {..<bpa i}) (fl h1 i)) h)"
    using free_small_exec(2) [OF k D(1) I(1) i r pn p(2) s(1) eq] dist sub st2(1) fl1 by (simp add: st1_def)
  have "heap_inv st2 h2 (allocated P h G - {(blk P i p j, bsz i)}) (others (B False) G)"
    using R(1) h2(3) st2(3) al T(2) space_del(2) [OF D(3) p(1)]
    by (intro heap_invI [of _ _ "B(False := set_range p 1 False (B False))" "G(p := None)" P]) simp_all
  moreover have "keeps (allocated P h G - {(blk P i p j, bsz i)}) (memory st) (memory st2)"
    using keeps_trans [OF T(3)] R(2) al T(2) by simp
  ultimately show ?thesis using ex by (simp add: takes_def h1_def h2_def)
qed

lemma free_big:
  assumes k: "runs k" and I: "unlocked h" "wf_arenas {} st B h G" "P = kbase st" and p: "G p = Some (Big c)"
  shows "returns (free k st h (page P p + 12)) (\<lambda>(k', st', h'). k' = k \<and>
    takes st (allocated P h G - {(page P p + 12, 4096 * c - 12)}) (others (B False) G) st' h')"
proof -
  note D = wf_arenasD [OF I(2), folded I(3)] and V = wf_valid [OF I(2), folded I(3)]
  note pn = validD(2) [OF V p] and r = validD(1) [OF V]
  have s: "big_at (memory st) (page P p)" "a_free_cnt (memory st) (page P p) = of_nat c"
    using D(6) [OF p] by simp_all
  have c: "run_at True c (B False) p" "0 < c" using wf_spaceD(1,2) [OF D(3) p] by simp_all
  obtain st' where st': "palloc_free_multiple k st (page P p) (of_nat c) = ret (k, st')"
      "wf_palloc st' (B(False := set_range p c False (B False)))" "kbase st' = P" "only_pages P p c (memory st) (memory st')"
    using drop_pages [OF k D(2) c] I(3) by auto
  have L: "wf_lists {} P h (G(p := None))" by (rule wf_lists_big [OF D(4)]) (simp_all add: p)
  note R = drop_arena_inv [OF I(2,3) p, of st' h, unfolded npages.simps, OF st'(2-4) D(1) refl L refl]
  have V': "valid P (length (B False)) (G(p := None))"
    using wf_valid [OF R(1)] st'(3) run_at_le [OF c(1)] by simp
  have GG: "(G(p := None))(p \<mapsto> Big c) = G" using p by (simp add: fun_upd_idem)
  have "(G(p := None)) p = None" by simp
  note A = allocated_add_big [where G = "G(p := None)", OF V' this pn]
  have al: "allocated P h G - {(page P p + 12, 4096 * c - 12)} = allocated P h (G(p := None))"
    using A(1) [where k = c and h = h, unfolded GG] A(2) by simp
  have "free k st h (page P p + 12) = ret (k, st', h)"
    using block_to_arena_big [OF r pn s(1)] big_page(4) [OF r pn] s st'(1) by (simp add: free_def big_at_def)
  moreover have "heap_inv st' h (allocated P h (G(p := None))) (others (B False) G)"
    using R(1) I(1) st'(3) space_del(2) [OF D(3) p]
    by (intro heap_invI [of _ _ "B(False := set_range p c False (B False))" "G(p := None)" P]) simp_all
  ultimately show ?thesis using R(2) by (simp add: takes_def al)
qed

lemma free_spec:
  assumes k: "runs k" and I: "heap_inv st h X U" and b: "(b, s) \<in> X"
  shows "returns (free k st h b) (\<lambda>(k', st', h'). k' = k \<and> takes st (X - {(b, s)}) U st' h')"
proof -
  obtain B G where H: "unlocked h" "wf_arenas {} st B h G" "X = allocated (kbase st) h G" "U = others (B False) G"
    using heap_invE [OF I] .
  note D = wf_arenasD [OF H(2)]
  from b [unfolded H(3)] show ?thesis
  proof (cases rule: allocatedE)
    case (small p i j)
    have new: "blk (kbase st) i p j \<notin> set (fl h i)" using small(3,5) by simp
    have "cnt_in (kbase st) p (fl h i) < bpa i" using D(4) small(1) by (simp add: wf_lists_def)
    then consider "Suc (cnt_in (kbase st) p (fl h i)) < bpa i" | "Suc (cnt_in (kbase st) p (fl h i)) = bpa i" by linarith
    then show ?thesis
      unfolding H(3,4) small(3,4)
      by cases (rule free_keep [OF k H(1,2) refl small(1,2) new], assumption,
        rule free_drain [OF k H(1,2) refl small(1,2) new], assumption)
  next
    case (big p c)
    show ?thesis unfolding H(3,4) big(2,3) by (rule free_big [OF k H(1,2) refl big(1)])
  qed
qed

section \<open>Using blocks\<close>

text \<open>Whoever has a block may write to it.\<close>

lemma heap_inv_write:
  assumes I: "heap_inv st h X U" and b: "(b, s) \<in> X" and m: "\<And>z. \<not> within b s z \<Longrightarrow> m z = memory st z"
  shows "heap_inv (st\<lparr>memory := m\<rparr>) h X U"
proof -
  obtain B G where H: "unlocked h" "wf_arenas {} st B h G" "X = allocated (kbase st) h G" "U = others (B False) G"
    using heap_invE [OF I] .
  note D = wf_arenasD [OF H(2)] and V = wf_valid [OF H(2)]
  have "arena_header m h (kbase st) p x" if p: "G p = Some x" for p x
  proof (rule header_frame [OF D(5) validD(2) [OF V p] _ refl refl D(6) [OF p]])
    fix z assume z: "within (page (kbase st) p) 12 z"
    have "\<not> within b s z" using outside_headers [OF V D(3) p] b [unfolded H(3)] z by blast
    then show "m z = memory st z" by (rule m)
  qed
  then have "wf_arenas {} (st\<lparr>memory := m\<rparr>) B h G" using H(2) by (simp add: wf_arenas_def)
  then show ?thesis using H by (auto simp: heap_inv_def)
qed

lemma heap_inv_block:
  assumes I: "heap_inv st h X U" and b: "(b, s) \<in> X"
  shows "b \<noteq> NULL" and "unat b + s \<le> 4294967296" and "block_size (memory st) h b = ret (of_nat s)" and "s < 4294967296"
proof -
  obtain B G where H: "unlocked h" "wf_arenas {} st B h G" "X = allocated (kbase st) h G" "U = others (B False) G"
    using heap_invE [OF I] .
  define P where "P = kbase st"
  note D = wf_arenasD [OF H(2), folded P_def] and V = wf_valid [OF H(2), folded P_def]
  obtain p x where p: "G p = Some x" "block_of P p x b s" using allocated_in [OF b [unfolded H(3)]] unfolding P_def .
  note r = block_of_range [OF V p] and pn = validD(2) [OF V p(1)]
  show "b \<noteq> NULL" by (rule r)
  have "4096 * (p + npages x) \<le> 4096 * length (B False)" using validD(3) [OF V p(1)] by (rule mult_le_mono2)
  then show le: "unat b + s \<le> 4294967296"
    using r(3) D(5) unat_page(1) [OF D(5) pn] by (simp add: room_def)
  then show s: "s < 4294967296" using r(2) by linarith
  show "block_size (memory st) h b = ret (of_nat s)"
  proof (cases x)
    case (Small i)
    then obtain j where j: "j < bpa i" "b = blk P i p j" "s = bsz i" using p(2) by auto
    have i: "i < 7" using validD(4) [OF V] p(1) Small by simp
    have "small_at (memory st) h i (page P p)" using D(6) [OF p(1)] Small by simp
    then show ?thesis
      using block_to_arena_small [OF D(1,5) pn i j(1)] j desc_index_ptr(2) [OF D(1) i] D(1) i sized_bsz [OF D(1) i]
      by (simp add: block_size_def small_at_def)
  next
    case (Big c)
    have a: "big_at (memory st) (page P p)" "a_free_cnt (memory st) (page P p) = of_nat c" "b = page P p + 12"
        "s = 4096 * c - 12" "0 < c" using D(6) [OF p(1)] p(2) validD(5) [OF V p(1)] Big by simp_all
    have "(4096 * of_nat c - 12 :: u32) = of_nat s" using a(4,5) by (simp add: of_nat_diff)
    then show ?thesis
      using block_to_arena_big [OF D(5) pn a(1)] a big_page(3) [OF D(5) pn] by (simp add: block_size_def big_at_def)
  qed
qed

lemma heap_inv_disjoint:
  assumes I: "heap_inv st h X U" and "(b, s) \<in> X" and "(c, t) \<in> X" and "(b, s) \<noteq> (c, t)"
  shows "unat b + s \<le> unat c \<or> unat c + t \<le> unat b"
proof -
  obtain B G where H: "unlocked h" "wf_arenas {} st B h G" "X = allocated (kbase st) h G" "U = others (B False) G"
    using heap_invE [OF I] .
  show ?thesis
    using allocated_disjoint [OF wf_valid [OF H(2)] wf_arenasD(3) [OF H(2)]] assms(2-4) unfolding H(3) by blast
qed

end
