(* ===== verification/Malloc_Correct.thy ===== *)
theory Malloc_Correct
  imports Malloc_Spec
begin

text \<open>
  \<^verbatim>\<open>realloc\<close> and \<^verbatim>\<open>calloc\<close> on top of \<^verbatim>\<open>malloc\<close> and \<^verbatim>\<open>free\<close>, the contract of an allocator of blocks
  with its interpretation, the start-up, and the properties.
\<close>

section \<open>Resizing and zeroing\<close>

lemma within_nth:
  assumes "unat (b :: addr) + s \<le> 4294967296" and "i < s"
  shows "within b s (b + of_nat i)"
  using no_wrap_offset [OF assms] assms(2) by (simp add: within_def)

lemma copied_within:
  assumes "unat dst + unat n \<le> 4294967296"
  shows "copied m dst src n z = (if within dst (unat n) z then m (src + (z - dst)) else m z)"
  by (simp add: copied_def within_offset [OF assms])

lemma keeps_outside:
  assumes "\<And>b n. (b, n) \<in> X \<Longrightarrow> unat b + n \<le> unat p \<or> unat p + s \<le> unat b" and "\<And>z. \<not> within p s z \<Longrightarrow> m' z = m z"
  shows "keeps X m m'"
proof (rule keepsI, rule assms(2), rule notI)
  fix b n z assume "(b, n) \<in> X" "within b n z" "within p s z"
  then show False using assms(1) [of b n] by (auto simp: within_def)
qed

lemma malloc_result:
  assumes "runs k" and "heap_inv st h X U" and "sz \<noteq> 0" and "unat sz < 4294967285"
  obtains (none) "malloc k st h sz = ret (NULL, k, st, h)" "palloc_get_multiple k st 0 (of_nat (pages_for sz)) = ret (NULL, k, st)"
  | (block) p s st' h' where "malloc k st h sz = ret (p, k, st', h')" "unat sz \<le> s" "gives st X U s p st' h'" "p \<noteq> NULL"
proof -
  obtain p k' st' h' where m: "malloc k st h sz = ret (p, k', st', h')" and post: "k' = k \<and>
      (if p = NULL then st' = st \<and> h' = h \<and> palloc_get_multiple k st 0 (of_nat (pages_for sz)) = ret (NULL, k, st)
       else \<exists>s \<ge> unat sz. gives st X U s p st' h')"
    using malloc_spec [OF assms] by (auto elim: returnsE)
  show thesis
  proof (cases "p = NULL")
    case True
    then show thesis using m post none by simp
  next
    case False
    then obtain s where "unat sz \<le> s" "gives st X U s p st' h'" using post by auto
    then show thesis using m post block False by blast
  qed
qed

definition resized :: "palloc \<Rightarrow> (addr \<times> nat) set \<Rightarrow> nat set \<Rightarrow> addr \<Rightarrow> nat \<Rightarrow> size_t \<Rightarrow> addr \<Rightarrow> palloc \<Rightarrow> heap \<Rightarrow> bool" where
  "resized st X U b s sz p st' h' \<longleftrightarrow> (\<exists>t \<ge> unat sz. heap_inv st' h' (insert (p, t) (X - {(b, s)})) U \<and>
     keeps (X - {(b, s)}) (memory st) (memory st') \<and>
     (\<forall>i < min (unat sz) s. memory st' (p + of_nat i) = memory st (b + of_nat i)))"

lemma realloc_moves:
  assumes k: "runs k" and I: "heap_inv st h X U" and b: "(b, s) \<in> X" and sz: "sz \<noteq> 0"
    and m: "malloc k st h sz = ret (p, k, st1, h1)" and t: "unat sz \<le> t" and g: "gives st X U t p st1 h1"
  shows "returns (realloc k st h b sz) (\<lambda>(p', k', st', h'). p' = p \<and> k' = k \<and> resized st X U b s sz p st' h')"
proof -
  let ?X = "insert (p, t) X"
  have I1: "heap_inv st1 h1 ?X U" and p: "p \<noteq> NULL" "\<And>t. (p, t) \<notin> X" and K1: "keeps X (memory st) (memory st1)"
    using g by (simp_all add: gives_def)
  have b1: "(b, s) \<in> ?X" and ne: "(b, s) \<noteq> (p, t)" using b p(2) by auto
  note blk_b = heap_inv_block [OF I1 b1] and blk_p = heap_inv_block [OF I1, of p t, simplified]
  define n where "n = (if sz < of_nat s then sz else of_nat s :: u32)"
  have us: "unat (of_nat s :: u32) = s" using blk_b(4) by (simp add: unat_of_nat)
  then have n: "unat n = min (unat sz) s" by (auto simp: n_def word_less_nat_alt min_def)
  have ap: "unat p + t \<le> unat c \<or> unat c + u \<le> unat p" if "(c, u) \<in> X" for c u
    using heap_inv_disjoint [OF I1, of p t c u] that p(2) by auto
  have nt: "unat n \<le> t" "unat n \<le> s" using n t by simp_all
  define m2 where "m2 = copied (memory st1) p b n"
  have c: "memcpy (memory st1) p b n = ret (p, m2)"
    using ap [OF b] nt blk_b(1,2) blk_p(1,2) p(1) unfolding m2_def by (intro memcpy_copied) linarith+
  have room_p: "unat p + unat n \<le> 4294967296" using blk_p(2) nt by linarith
  have out: "m2 z = memory st1 z" if "\<not> within p t z" for z
    using that nt(1) by (auto simp: m2_def copied_within [OF room_p] within_def)
  have I2: "heap_inv (st1\<lparr>memory := m2\<rparr>) h1 ?X U" by (rule heap_inv_write [OF I1, of p t]) (simp_all add: out)
  have K2: "keeps X (memory st1) m2" using ap out by (intro keeps_outside [of X p t]) blast+
  obtain st3 h3 where f: "free k (st1\<lparr>memory := m2\<rparr>) h1 b = ret (k, st3, h3)" and T: "takes (st1\<lparr>memory := m2\<rparr>) (?X - {(b, s)}) U st3 h3"
    using free_spec [OF k I2 b1] by (auto elim!: returnsE)
  have X: "?X - {(b, s)} = insert (p, t) (X - {(b, s)})" using ne by auto
  have K3: "keeps (insert (p, t) (X - {(b, s)})) m2 (memory st3)" using T X by (simp add: takes_def)
  have "memory st3 (p + of_nat i) = memory st (b + of_nat i)" if i: "i < min (unat sz) s" for i
  proof -
    have "within p t (p + of_nat i)" using i t blk_p(2) by (intro within_nth) simp_all
    then have "memory st3 (p + of_nat i) = m2 (p + of_nat i)" using K3 by (intro keepsD) auto
    also have "within p (unat n) (p + of_nat i)" using i n room_p by (intro within_nth) simp_all
    then have "m2 (p + of_nat i) = memory st1 (b + of_nat i)" by (simp add: m2_def copied_within [OF room_p])
    also have "within b s (b + of_nat i)" using i blk_b(2) by (intro within_nth) simp_all
    then have "memory st1 (b + of_nat i) = memory st (b + of_nat i)" using K1 b by (intro keepsD)
    finally show ?thesis .
  qed
  moreover have "keeps (X - {(b, s)}) (memory st) (memory st3)"
    by (rule keeps_trans [OF keeps_mono [OF keeps_trans [OF K1 K2]] keeps_mono [OF K3]]) blast+
  ultimately have "resized st X U b s sz p st3 h3"
    using T X t unfolding resized_def takes_def by (intro exI [of _ t]) simp
  moreover have "realloc k st h b sz = ret (p, k, st3, h3)"
    using m sz blk_b(1,3) p(1) c f by (simp add: realloc_def n_def)
  ultimately show ?thesis by simp
qed

lemma realloc_spec:
  assumes k: "runs k" and I: "heap_inv st h X U" and b: "(b, s) \<in> X" and sz: "sz \<noteq> 0" "unat sz < 4294967285"
  shows "returns (realloc k st h b sz) (\<lambda>(p, k', st', h'). k' = k \<and>
    (if p = NULL then st' = st \<and> h' = h else resized st X U b s sz p st' h'))"
  using k I sz
proof (cases rule: malloc_result)
  case none
  then show ?thesis using sz(1) by (simp add: realloc_def)
next
  case (block p t st1 h1)
  show ?thesis using realloc_moves [OF k I b sz(1) block(1-3)] block(4) by (auto elim!: returns_mono)
qed

lemma calloc_spec:
  assumes k: "runs k" and I: "heap_inv st h X U" and ab: "unat a * unat b < 4294967285" "0 < unat a * unat b"
  shows "returns (calloc k st h a b) (\<lambda>(p, k', st', h'). k' = k \<and> (if p = NULL then st' = st \<and> h' = h
    else \<exists>s \<ge> unat a * unat b. gives st X U s p st' h' \<and> (\<forall>i < unat a * unat b. memory st' (p + of_nat i) = 0)))"
proof -
  have u: "unat (a * b) = unat a * unat b" using ab(1) by (subst unat_mult_lem [THEN iffD1]) simp_all
  have a: "unat a \<le> unat a * unat b" "unat b \<le> unat a * unat b" using ab(2) by simp_all
  then have ge: "\<not> a * b < a" "\<not> a * b < b" using u by (simp_all only: word_less_nat_alt not_less u)
  have "unat (a * b) \<noteq> 0" using u ab(2) by simp
  then have nz: "a * b \<noteq> 0" by (metis unsigned_0)
  have lt: "unat (a * b) < 4294967285" using ab(1) u by simp
  from k I nz lt show ?thesis
  proof (cases rule: malloc_result)
    case none
    then show ?thesis using ge by (simp add: calloc_def)
  next
    case (block p s st1 h1)
    have s: "unat a * unat b \<le> s" "gives st X U s p st1 h1" using block(2,3) u by simp_all
    have I1: "heap_inv st1 h1 (insert (p, s) X) U" and new: "\<And>t. (p, t) \<notin> X" and K: "keeps X (memory st) (memory st1)"
      using s(2) by (simp_all add: gives_def)
    have le: "unat p + s \<le> 4294967296" using heap_inv_block(2) [OF I1] by simp
    define m2 where "m2 = filled (memory st1) p (a * b) 0"
    have m2: "m2 z = (if within p (unat a * unat b) z then 0 else memory st1 z)" for z
      using filled_within [of p "a * b" "memory st1" 0 z] le s(1) u by (simp add: m2_def)
    have out: "m2 z = memory st1 z" if "\<not> within p s z" for z using that s(1) m2 by (auto simp: within_def)
    have "heap_inv (st1\<lparr>memory := m2\<rparr>) h1 (insert (p, s) X) U" by (rule heap_inv_write [OF I1, of p s]) (simp_all add: out)
    moreover have "keeps X (memory st1) m2"
    proof (rule keeps_outside [of X p s])
      show "unat c + n \<le> unat p \<or> unat p + s \<le> unat c" if "(c, n) \<in> X" for c n
        using heap_inv_disjoint [OF I1, of p s c n] that new by auto
    qed (rule out)
    then have "keeps X (memory st) m2" by (rule keeps_trans [OF K])
    ultimately have "gives st X U s p (st1\<lparr>memory := m2\<rparr>) h1" using block(4) new by (simp add: gives_def)
    moreover have "m2 (p + of_nat i) = 0" if "i < unat a * unat b" for i
      using within_nth [of p "unat a * unat b" i] that le s(1) m2 by simp
    moreover have "calloc k st h a b = ret (p, k, st1\<lparr>memory := m2\<rparr>, h1)"
      using block(1,4) ge by (simp add: calloc_def memset_ok m2_def)
    ultimately show ?thesis using block(4) s(1) by auto
  qed
qed

text \<open>
  The overflow check of \<^verbatim>\<open>calloc\<close> compares the product with its factors, which a product that wraps
  around may pass: 65537 elements of 65537 bytes are allocated as 131073 bytes.
\<close>

lemma calloc_overflow:
  "calloc k st h 0x10001 0x10001 = andthen (malloc k st h 0x20001) (\<lambda>(p, k, st, h).
     if p \<noteq> NULL then andthen (memset (memory st) p 0 0x20001) (\<lambda>(_, m). ret (p, k, st\<lparr>memory := m\<rparr>, h))
     else ret (p, k, st, h))"
proof -
  have e: "(0x10001 :: u32) * 0x10001 = 0x20001" by simp
  show ?thesis unfolding calloc_def Let_def e by simp
qed

section \<open>The contract of an allocator of blocks\<close>

text \<open>
  What a client may rely on: \<open>inv s X\<close> says that the blocks in use are \<open>X\<close>. Allocation adds a
  new block that is large enough, or changes nothing; release removes the block; neither changes
  the contents of the other blocks; blocks do not overlap.
\<close>

locale block_allocator =
  fixes inv :: "'s \<Rightarrow> (addr \<times> nat) set \<Rightarrow> bool" and contents :: "'s \<Rightarrow> mem"
    and alloc :: "'s \<Rightarrow> size_t \<Rightarrow> (addr \<times> 's) res" and release :: "'s \<Rightarrow> addr \<Rightarrow> 's res" and limit :: nat
  assumes alloc_law: "inv s X \<Longrightarrow> n \<noteq> 0 \<Longrightarrow> unat n < limit \<Longrightarrow> returns (alloc s n) (\<lambda>(p, s'). if p = NULL then s' = s
      else \<exists>m \<ge> unat n. (\<forall>t. (p, t) \<notin> X) \<and> inv s' (insert (p, m) X) \<and> keeps X (contents s) (contents s'))"
    and release_law: "inv s X \<Longrightarrow> (p, m) \<in> X \<Longrightarrow>
      returns (release s p) (\<lambda>s'. inv s' (X - {(p, m)}) \<and> keeps (X - {(p, m)}) (contents s) (contents s'))"
    and apart_law: "inv s X \<Longrightarrow> (b, m) \<in> X \<Longrightarrow> (c, t) \<in> X \<Longrightarrow> (b, m) \<noteq> (c, t) \<Longrightarrow>
      unat b + m \<le> unat c \<or> unat c + t \<le> unat b"
begin

lemma alloc_apart:
  assumes "inv s X" and "n \<noteq> 0" and "unat n < limit"
  shows "returns (alloc s n) (\<lambda>(p, s'). p \<noteq> NULL \<longrightarrow> (\<exists>m \<ge> unat n. inv s' (insert (p, m) X) \<and>
    (\<forall>(b, k) \<in> X. unat b + k \<le> unat p \<or> unat p + m \<le> unat b) \<and> keeps X (contents s) (contents s')))"
proof -
  obtain p s' where a: "alloc s n = ret (p, s')" and post: "if p = NULL then s' = s
      else \<exists>m \<ge> unat n. (\<forall>t. (p, t) \<notin> X) \<and> inv s' (insert (p, m) X) \<and> keeps X (contents s) (contents s')"
    using alloc_law [OF assms] by (auto elim: returnsE)
  show ?thesis
  proof (cases "p = NULL")
    case False
    then obtain m where m: "unat n \<le> m" "\<And>t. (p, t) \<notin> X" "inv s' (insert (p, m) X)" "keeps X (contents s) (contents s')"
      using post by auto
    have "unat b + k \<le> unat p \<or> unat p + m \<le> unat b" if "(b, k) \<in> X" for b k
      using apart_law [OF m(3), of b k p m] that m(2) by auto
    then show ?thesis using a m by auto
  qed (use a in simp)
qed

lemma alloc_release:
  assumes "inv s X" and "n \<noteq> 0" and "unat n < limit"
  shows "returns (andthen (alloc s n) (\<lambda>(p, s'). if p = NULL then ret s' else release s' p))
    (\<lambda>s'. inv s' X \<and> keeps X (contents s) (contents s'))"
proof -
  obtain p s' where a: "alloc s n = ret (p, s')" and post: "if p = NULL then s' = s
      else \<exists>m \<ge> unat n. (\<forall>t. (p, t) \<notin> X) \<and> inv s' (insert (p, m) X) \<and> keeps X (contents s) (contents s')"
    using alloc_law [OF assms] by (auto elim: returnsE)
  show ?thesis
  proof (cases "p = NULL")
    case True
    then show ?thesis using a post assms(1) by (simp add: keeps_def)
  next
    case False
    then obtain m where m: "\<And>t. (p, t) \<notin> X" "inv s' (insert (p, m) X)" "keeps X (contents s) (contents s')"
      using post by auto
    have "insert (p, m) X - {(p, m)} = X" using m(1) by auto
    then show ?thesis
      using a False release_law [OF m(2), of p m] keeps_trans [OF m(3)] by (auto elim!: returns_mono)
  qed
qed

end

interpretation malloc_heap: block_allocator
  "\<lambda>(k, st, h) X. runs k \<and> heap_inv st h X U" "\<lambda>(k, st, h). memory st"
  "\<lambda>(k, st, h). malloc k st h" "\<lambda>(k, st, h). free k st h" 4294967285 for U
proof (unfold_locales, goal_cases)
  case (1 s X n)
  then obtain k st h where s: "s = (k, st, h)" "runs k" "heap_inv st h X U" by (cases s) auto
  from s(2,3) 1(2,3) show ?case
  proof (cases rule: malloc_result)
    case none
    then show ?thesis using s(1) by simp
  next
    case (block p m st' h')
    then show ?thesis using s by (auto simp: gives_def)
  qed
next
  case (2 s X p m)
  then obtain k st h where s: "s = (k, st, h)" "runs k" "heap_inv st h X U" by (cases s) auto
  show ?case using free_spec [OF s(2,3) 2(2)] s(1,2) by (auto simp: takes_def elim!: returns_mono)
next
  case (3 s X b m c n)
  then obtain k st h where s: "s = (k, st, h)" "runs k" "heap_inv st h X U" by (cases s) auto
  show ?case by (rule heap_inv_disjoint [OF s(3) 3(2-4)])
qed

section \<open>Start-up and the empty heap\<close>

text \<open>A heap without blocks in use has no arenas: every used page is somebody else's.\<close>

lemma full_count:
  assumes L: "wf_lists E P h G" and i: "i < 7" and P: "room P n" "p < n"
    and all: "\<And>j. j < bpa i \<Longrightarrow> blk P i p j \<in> set (fl h i)"
  shows "bpa i \<le> cnt_in P p (fl h i)"
proof -
  let ?F = "filter (\<lambda>b. pg_round_down b = page P p) (fl h i)"
  have "inj_on (blk P i p) {..<bpa i}" using blk_inj [OF P i] by (auto simp: inj_on_def)
  then have "card (blk P i p ` {..<bpa i}) = bpa i" by (simp add: card_image)
  moreover have "blk P i p ` {..<bpa i} \<subseteq> set ?F" using all blk_page(1) [OF P i] by auto
  ultimately have "bpa i \<le> card (set ?F)" using card_mono [OF finite_set] by metis
  also have "\<dots> \<le> length ?F" by (rule card_length)
  finally show ?thesis by (simp add: cnt_in_def)
qed

lemma no_leak:
  assumes "heap_inv st h {} U"
  shows "\<exists>B. wf_palloc st B \<and> U = {q. q < length (B False) \<and> B False ! q}"
proof -
  obtain B G where H: "unlocked h" "wf_arenas {} st B h G" "{} = allocated (kbase st) h G" "U = others (B False) G"
    using heap_invE [OF assms] .
  note D = wf_arenasD [OF H(2)] and V = wf_valid [OF H(2)]
  have "G p \<noteq> Some (Small i)" for p i
  proof
    assume p: "G p = Some (Small i)"
    have "blk (kbase st) i p j \<in> set (fl h i)" if "j < bpa i" for j
      using allocated_small [of G p i j "kbase st" h] p that H(3) by blast
    then have "bpa i \<le> cnt_in (kbase st) p (fl h i)"
      by (rule full_count [OF D(4) validD(4) [OF V p] D(5) validD(2) [OF V p]])
    moreover have "cnt_in (kbase st) p (fl h i) < bpa i" using D(4) p by (simp add: wf_lists_def)
    ultimately show False by simp
  qed
  moreover have "G p \<noteq> Some (Big c)" for p c
    using allocated_big [of G p c "kbase st" h] H(3) by blast
  ultimately have "G p \<noteq> Some x" for p x by (cases x) simp_all
  then have "U = {q. q < length (B False) \<and> B False ! q}" using H(4) by (simp add: others_def)
  then show ?thesis using D(2) by blast
qed

definition fresh_desc :: "nat \<Rightarrow> desc" where
  "fresh_desc i = \<lparr>d_block_size = of_nat (bsz i), blocks_per_arena = of_nat (bpa i), free_list = [], desc_lock = lock_init\<rparr>"

lemma malloc_init_descs:
  assumes "length (descs h) = 10" and "desc_cnt h = 0"
  shows "returns (malloc_init h) (\<lambda>h'. length (descs h') = 10 \<and> desc_cnt h' = 7 \<and> descs_at h' = descs_at h \<and>
    (\<forall>i < 7. descs h' ! i = fresh_desc i))"
  unfolding malloc_init_def
proof (rule returns_loop [where I = "\<lambda>(w, h'). \<exists>n \<le> 7. w = of_nat (bsz n) \<and> desc_cnt h' = of_nat n \<and> length (descs h') = 10 \<and>
      descs_at h' = descs_at h \<and> (\<forall>i < n. descs h' ! i = fresh_desc i)" and m = "\<lambda>(w, h'). 7 - unat (desc_cnt h')"], goal_cases)
  case 1
  show ?case using assms by (intro case_prodI exI [of _ 0]) (simp add: bsz_def)
next
  case (2 s)
  then obtain w h' n where s: "s = (w, h')" and n: "n \<le> 7" "w = of_nat (bsz n)" "desc_cnt h' = of_nat n"
      "length (descs h') = 10" "descs_at h' = descs_at h" "\<forall>i < n. descs h' ! i = fresh_desc i"
    by (cases s) auto
  have un: "unat (of_nat n :: u32) = n" using n(1) by (simp add: unat_of_nat)
  show ?case
  proof (cases "n < 7")
    case True
    have b: "unat (of_nat (bsz n) :: u32) = bsz n" using True by simp
    have lt: "(of_nat (bsz n) :: u32) < 2048" using bsz_bounds [OF True] b by (simp add: word_less_nat_alt)
    have "unat (4084 div of_nat (bsz n) :: u32) = bpa n" using b by (simp add: unat_div bpa_def)
    then have d: "4084 div of_nat (bsz n) = (of_nat (bpa n) :: u32)" using True by (simp add: word_unat_eq_iff)
    have sn: "(of_nat n + 1 :: u32) = of_nat (Suc n)" "(of_nat (bsz n) * 2 :: u32) = of_nat (bsz (Suc n))"
      by (simp_all add: bsz_def)
    have us: "unat (of_nat (Suc n) :: u32) = Suc n" using True by (simp add: unat_of_nat del: of_nat_Suc)
    then have le: "(of_nat (Suc n) :: u32) \<le> 10" using True by (simp add: word_le_nat_alt)
    let ?h = "h'\<lparr>desc_cnt := of_nat (Suc n), descs := (descs h')[n := fresh_desc n]\<rparr>"
    have "\<forall>i < Suc n. descs ?h ! i = fresh_desc i" using n(4,6) True by (simp add: nth_list_update less_Suc_eq)
    then show ?thesis
      using s n lt d sn us le un True by (auto simp: wp fresh_desc_def Let_def simp del: of_nat_Suc intro!: exI [of _ "Suc n"])
  next
    case False
    then have "n = 7" using n(1) by simp
    then show ?thesis using s n by (simp add: bsz_def)
  qed
qed

lemma malloc_init_spec:
  assumes "length (descs h) = 10" and "desc_cnt h = 0" and "descs_at h \<noteq> NULL" and "unat (descs_at h) + 480 \<le> 4294967296"
    and st: "wf_palloc st B"
  shows "returns (malloc_init h) (\<lambda>h'. heap_inv st h' {} {q. q < length (B False) \<and> B False ! q})"
proof (rule returns_mono [OF malloc_init_descs [OF assms(1,2)]])
  fix h' :: heap assume h': "length (descs h') = 10 \<and> desc_cnt h' = 7 \<and> descs_at h' = descs_at h \<and> (\<forall>i < 7. descs h' ! i = fresh_desc i)"
  then have "sized h'" "unlocked h'" "\<And>i. i < 7 \<Longrightarrow> fl h' i = []"
    using assms(3,4) by (simp_all add: sized_def unlocked_def fresh_desc_def)
  then have "wf_arenas {} st B h' Map.empty"
    using st by (simp add: wf_arenas_def wf_space_def wf_lists_def)
  then show "heap_inv st h' {} {q. q < length (B False) \<and> B False ! q}"
    using \<open>unlocked h'\<close> by (intro heap_invI [of _ _ B Map.empty]) (simp_all add: allocated_def others_def)
qed

section \<open>A sample heap\<close>

definition boot_heap :: heap where
  "boot_heap = \<lparr>descs = replicate 10 \<lparr>d_block_size = 0, blocks_per_arena = 0, free_list = [], desc_lock = lock_init\<rparr>,
     desc_cnt = 0, descs_at = 0xc0020000\<rparr>"

lemma sample_heap:
  obtains h where "malloc_init boot_heap = ret h" "heap_inv (sample_palloc mode) h {} {0, 3, 5}"
proof -
  have "{q. q < length (sample_bits False) \<and> sample_bits False ! q} = {0, 3, 5}"
    by (auto simp: sample_bits_def less_Suc_eq numeral_eq_Suc)
  then show thesis
    using malloc_init_spec [of boot_heap, OF _ _ _ _ sample_wf, of mode] that
    by (auto simp: boot_heap_def elim!: returnsE)
qed

lemma sample_page: "palloc_get_multiple sample_kernel (sample_palloc mode) 0 1 \<noteq> ret (NULL, sample_kernel, sample_palloc mode)"
proof -
  have run: "run_at False (unat (1 :: u32)) (sample_bits False) 1" by (simp add: run_at_def sample_bits_def)
  have one: "(0 :: u32) < 1" by simp
  from sample_runs sample_wf one show ?thesis
  proof (cases rule: get_pages [where st = "sample_palloc mode"])
    case none
    then show ?thesis using run by blast
  next
    case (pages p st1)
    then show ?thesis by simp
  qed
qed

lemma sample_block:
  obtains h p s st' h' where "malloc_init boot_heap = ret h" "heap_inv (sample_palloc mode) h {} {0, 3, 5}"
    "malloc sample_kernel (sample_palloc mode) h 100 = ret (p, sample_kernel, st', h')" "100 \<le> s" "p \<noteq> NULL"
    "heap_inv st' h' {(p, s)} {0, 3, 5}"
proof -
  obtain h where h: "malloc_init boot_heap = ret h" "heap_inv (sample_palloc mode) h {} {0, 3, 5}"
    using sample_heap .
  have sz: "(100 :: u32) \<noteq> 0" "unat (100 :: u32) < 4294967285" by simp_all
  from sample_runs h(2) sz show thesis
  proof (cases rule: malloc_result)
    case none
    then show thesis using sample_page by (simp add: pages_for_def)
  next
    case (block p s st' h')
    then show thesis using that h by (simp add: gives_def)
  qed
qed

section \<open>Properties\<close>

text \<open>
  C13: \<^verbatim>\<open>malloc\<close> is safe. For every size from 1 to 4294967284 the call ends without a failed assertion. It
  returns a null pointer, with nothing changed, only if the page allocator has no run of pages
  that is long enough. Otherwise it returns a block of at least the requested size that overlaps
  none of the blocks in use; the other blocks keep their contents, the invariant of the
  heap holds again with the new block added, and the pages used by others are the same.
\<close>

theorem malloc_safe:
  assumes "runs k" and "heap_inv st h X U" and "sz \<noteq> 0" and "unat sz < 4294967285"
  shows "returns (malloc k st h sz) (\<lambda>(p, k', st', h'). k' = k \<and>
    (if p = NULL then st' = st \<and> h' = h \<and> palloc_get_multiple k st 0 (of_nat (pages_for sz)) = ret (NULL, k, st)
     else \<exists>s \<ge> unat sz. heap_inv st' h' (insert (p, s) X) U \<and>
       (\<forall>(b, n) \<in> X. unat b + n \<le> unat p \<or> unat p + s \<le> unat b) \<and> keeps X (memory st) (memory st')))"
  using assms
proof (cases rule: malloc_result)
  case none
  then show ?thesis by simp
next
  case (block p s st' h')
  then show ?thesis using malloc_heap.alloc_apart [of U "(k, st, h)" X sz] assms by auto
qed

theorem malloc_safe_witness:
  "returns (andthen (malloc_init boot_heap) (\<lambda>h. malloc sample_kernel (sample_palloc PAL_BEST_FIT) h 100))
    (\<lambda>(p, k', st', h'). p \<noteq> NULL \<and> (\<exists>s \<ge> 100. heap_inv st' h' {(p, s)} {0, 3, 5}))"
proof -
  obtain h p s st' h' where h: "malloc_init boot_heap = ret h" "heap_inv (sample_palloc PAL_BEST_FIT) h {} {0, 3, 5}"
      "malloc sample_kernel (sample_palloc PAL_BEST_FIT) h 100 = ret (p, sample_kernel, st', h')" "p \<noteq> NULL"
    using sample_block by metis
  then show ?thesis using malloc_safe [OF sample_runs h(2), of 100] by auto
qed

text \<open>
  C14: \<^verbatim>\<open>free\<close> is safe and nothing leaks. Freeing a block in use ends without a failed assertion, removes
  exactly this block, keeps the contents of all others and the pages of all others. When the last
  block is freed, every arena has gone back to the page allocator: the pages in use are then exactly
  those used by others.
\<close>

theorem free_safe:
  assumes "runs k" and "heap_inv st h X U" and "(p, s) \<in> X"
  shows "returns (free k st h p) (\<lambda>(k', st', h'). k' = k \<and> heap_inv st' h' (X - {(p, s)}) U \<and>
    keeps (X - {(p, s)}) (memory st) (memory st') \<and>
    (X = {(p, s)} \<longrightarrow> (\<exists>B. wf_palloc st' B \<and> U = {q. q < length (B False) \<and> B False ! q})))"
  using free_spec [OF assms] by (auto simp: takes_def elim!: returns_mono dest: no_leak)

theorem free_safe_witness:
  "returns (andthen (malloc_init boot_heap) (\<lambda>h. andthen (malloc sample_kernel (sample_palloc PAL_NEXT_FIT) h 100)
      (\<lambda>(p, k, st, h). free k st h p)))
    (\<lambda>(k', st', h'). \<exists>B. wf_palloc st' B \<and> {0, 3, 5} = {q. q < length (B False) \<and> B False ! q})"
proof -
  obtain h p s st' h' where h: "malloc_init boot_heap = ret h"
      "malloc sample_kernel (sample_palloc PAL_NEXT_FIT) h 100 = ret (p, sample_kernel, st', h')" "heap_inv st' h' {(p, s)} {0, 3, 5}"
    using sample_block by metis
  then show ?thesis using free_safe [OF sample_runs h(3), of p s] by (auto elim!: returns_mono)
qed

text \<open>
  C15: \<^verbatim>\<open>realloc\<close> preserves contents. Resizing a block in use either fails with a null pointer and nothing
  changed, or returns a block of at least the new size that replaces the old one; as many bytes as
  both sizes allow are those of the old block, and all other blocks keep their contents.
\<close>

theorem realloc_preserves:
  assumes "runs k" and "heap_inv st h X U" and "(b, s) \<in> X" and "sz \<noteq> 0" and "unat sz < 4294967285"
  shows "returns (realloc k st h b sz) (\<lambda>(p, k', st', h'). k' = k \<and> (if p = NULL then st' = st \<and> h' = h
    else \<exists>t \<ge> unat sz. heap_inv st' h' (insert (p, t) (X - {(b, s)})) U \<and> keeps (X - {(b, s)}) (memory st) (memory st') \<and>
      (\<forall>i < min (unat sz) s. memory st' (p + of_nat i) = memory st (b + of_nat i))))"
  using realloc_spec [OF assms] unfolding resized_def .

theorem realloc_preserves_witness:
  "returns (andthen (malloc_init boot_heap) (\<lambda>h. andthen (malloc sample_kernel (sample_palloc PAL_NEXT_FIT) h 100)
      (\<lambda>(p, k, st, h). realloc k st h p 2000)))
    (\<lambda>(p, k', st', h'). k' = sample_kernel \<and> (p \<noteq> NULL \<longrightarrow> (\<exists>t \<ge> 2000. heap_inv st' h' {(p, t)} {0, 3, 5})))"
proof -
  obtain h p s st' h' where h: "malloc_init boot_heap = ret h"
      "malloc sample_kernel (sample_palloc PAL_NEXT_FIT) h 100 = ret (p, sample_kernel, st', h')" "heap_inv st' h' {(p, s)} {0, 3, 5}"
    using sample_block by metis
  then show ?thesis using realloc_preserves [OF sample_runs h(3), of p s 2000] by (auto elim!: returns_mono)
qed

text \<open>
  C39: Huge requests wrap around. For the eleven sizes from 4294967285 on, \<^verbatim>\<open>malloc\<close> returns a block of
  4084 bytes, in a single page, whenever a page is free.
\<close>

theorem malloc_size_wraps:
  assumes "runs k" and "heap_inv st h X U" and "4294967285 \<le> unat sz"
  shows "returns (malloc k st h sz) (\<lambda>(p, k', st', h'). k' = k \<and>
    (if p = NULL then st' = st \<and> h' = h \<and> palloc_get_multiple k st 0 1 = ret (NULL, k, st)
     else heap_inv st' h' (insert (p, 4084) X) U))"
proof -
  have h: "sized h" using assms(2) by (auto elim: heap_invE dest: wf_arenasD(1))
  have nz: "sz \<noteq> 0" using assms(3) by auto
  define d where "d = unat sz + 4107 - 4294967296"
  have d: "unat sz + 4107 = d + 4294967296" "4096 \<le> d" "d < 8192"
    using assms(3) unat_lt_2p32 [of sz] unfolding d_def by linarith+
  have e: "sz + 12 + 4096 - 1 = sz + 4107" by (simp add: algebra_simps)
  have "unat (sz + 12 + 4096 - 1) = d" unfolding e unat_word_ariths(1) using d by simp
  then have "unat (DIV_ROUND_UP (sz + 12) PGSIZE) = 1"
    using d(2,3) by (simp add: DIV_ROUND_UP_def unat_div div_nat_eqI)
  then have w: "DIV_ROUND_UP (sz + 12) PGSIZE = of_nat 1" by (simp add: word_unat_eq_iff)
  from h nz show ?thesis
  proof (cases rule: malloc_cases [where k = k and st = st])
    case big
    then show ?thesis
      using malloc_big_pages [OF assms(1,2) w] by (auto simp: gives_def elim!: returns_mono split: if_splits)
  next
    case (small i)
    then show ?thesis using assms(3) bsz_bounds [of i] by simp
  qed
qed

theorem malloc_size_wraps_witness:
  "returns (andthen (malloc_init boot_heap) (\<lambda>h. malloc sample_kernel (sample_palloc PAL_FIRST_FIT) h 4294967295))
    (\<lambda>(p, k', st', h'). p \<noteq> NULL \<and> heap_inv st' h' {(p, 4084)} {0, 3, 5})"
proof -
  obtain h where h: "malloc_init boot_heap = ret h" "heap_inv (sample_palloc PAL_FIRST_FIT) h {} {0, 3, 5}"
    using sample_heap .
  then show ?thesis
    using malloc_size_wraps [OF sample_runs h(2), of 4294967295] sample_page [of PAL_FIRST_FIT]
    by (auto elim!: returns_mono split: if_splits)
qed

end
