(* ===== verification/Spec2Isabelle.thy ===== *)
theory Spec2Isabelle
  imports Prelude Address Memory Bitmap Kernel Synch Palloc Linked_List List_Sort CString Hash Arith64 Random_Gen Stdlib
    Thread Thread_Inv Interrupt Interrupt_Inv Gates Intq Scheduler Scheduler_Inv Scheduler_Steps Concurrency
    Malloc Malloc_Blocks Malloc_Inv Malloc_Safe Malloc_Spec Malloc_Correct
begin

text \<open>
  A verification library for the teaching kernel of this repository: a Pintos kernel whose page
  allocator offers first fit, next fit and best fit. Paths below are relative to \<^verbatim>\<open>src/\<close>.

  \<^bold>\<open>The program and its parts.\<close> The page allocator (\<^verbatim>\<open>threads/palloc.c\<close>) keeps two pools of pages,
  each with a bitmap of the pages in use (\<^verbatim>\<open>lib/kernel/bitmap.c\<close>) and a lock
  (\<^verbatim>\<open>threads/synch.c\<close>). Locks are made of semaphores, and semaphores block and unblock threads
  (\<^verbatim>\<open>threads/thread.c\<close>), which the scheduler keeps in lists (\<^verbatim>\<open>lib/kernel/list.c\<close>) and whose pages
  come from the page allocator. The timer (\<^verbatim>\<open>devices/timer.c\<close>) drives preemption through the common
  interrupt handler (\<^verbatim>\<open>threads/interrupt.c\<close>); drivers pass bytes through interrupt queues
  (\<^verbatim>\<open>devices/intq.c\<close>). Underneath is a C library: strings and memory blocks, sorting and searching,
  hash tables, 64-bit division, random numbers, character classes.

  \<^bold>\<open>How C is modelled.\<close> The kernel is compiled for IA-32: \<open>size_t\<close>, \<open>unsigned\<close> and pointers are
  32-bit words, so every sum and product wraps as it does in C. A function that can fail returns
  a value of the type \<open>'a res\<close> of the theory \<open>Prelude\<close>: \<open>ret x\<close> for a return, \<open>stop h\<close> for a
  failed assertion, a panic, a processor trap or a call that has to sleep, and \<open>None\<close> for a
  computation that does not end. Loops are the combinator \<open>loop\<close>, a partial function into this
  type, or its instances \<open>for_range\<close>, \<open>for_find\<close>, \<open>count_down\<close> and \<open>for_each\<close>. No fuel is used: a
  theorem that says \<open>returns m Q\<close> or \<open>m = ret x\<close> thereby says that the loop ends. Bounds are
  those of the address space: a pool has at most \<open>2^20\<close> pages, an array at most \<open>2^32 - 1\<close> bytes.
  Memory is a function from addresses to bytes; linked lists have a heap of links of their own.

  \<^bold>\<open>The theories.\<close>
  \<^item> \<open>Prelude\<close>: outcomes, loops with their rules, checked array accesses, facts on words.
  \<^item> \<open>Address\<close>: \<^verbatim>\<open>lib/round.h\<close>, \<^verbatim>\<open>threads/vaddr.h\<close>, \<^verbatim>\<open>threads/pte.h\<close>; page table entries round trip.
  \<^item> \<open>Memory\<close>, \<open>CString\<close>: \<^verbatim>\<open>lib/string.c\<close>; the loops compute the list functions, and the writing
    functions stay inside their buffers.
  \<^item> \<open>Bitmap\<close>: \<^verbatim>\<open>lib/kernel/bitmap.c\<close>; every operation refines one on lists of booleans.
  \<^item> \<open>Kernel\<close>, \<open>Synch\<close>: interrupt level, thread structures, semaphores and locks as one thread
    executes them up to the point where it has to sleep.
  \<^item> \<open>Palloc\<close>: \<^verbatim>\<open>threads/palloc.c\<close>. The locale \<open>contiguous_allocator\<close> is the contract of a search;
    it is interpreted for the three searches and for the search that the mode selects, and
    allocation is proved over it. Shown: allocation returns exactly free runs and finds one
    whenever there is one, each mode picks the run it should, freeing undoes allocation and
    rejects wrong arguments, start-up builds disjoint pools.
  \<^item> \<open>Linked_List\<close>, \<open>List_Sort\<close>: \<^verbatim>\<open>lib/kernel/list.c\<close> over the heap of links, with the locales
    \<open>fifo_queue\<close> and \<open>weak_order\<close>; sorting is stable and ends.
  \<^item> \<open>Hash\<close>: \<^verbatim>\<open>lib/kernel/hash.c\<close> with the locale \<open>dictionary\<close>; a table is a map on keys whatever
    the memory allocation of its resizing answers.
  \<^item> \<open>Arith64\<close>, \<open>Random_Gen\<close>, \<open>Stdlib\<close>: \<^verbatim>\<open>lib/arithmetic.c\<close>, \<^verbatim>\<open>lib/random.c\<close>, \<^verbatim>\<open>lib/stdlib.c\<close> and
    \<^verbatim>\<open>lib/ctype.h\<close>; division, the generator's stream, heap sort and binary search over the locale
    \<open>element_order\<close>.
  \<^item> \<open>Thread\<close>, \<open>Thread_Inv\<close>: \<^verbatim>\<open>threads/thread.c\<close> over the page allocator, and the invariant of the
    ready list and of the threads' pages.
  \<^item> \<open>Interrupt\<close>, \<open>Interrupt_Inv\<close>, \<open>Gates\<close>: \<^verbatim>\<open>threads/interrupt.c\<close>, the timer interrupt and the
    gate descriptors as the processor reads them.
  \<^item> \<open>Intq\<close>: \<^verbatim>\<open>devices/intq.c\<close> as a bounded queue.
  \<^item> \<open>Scheduler\<close>, \<open>Scheduler_Inv\<close>, \<open>Scheduler_Steps\<close>, \<open>Concurrency\<close>: threads that interleave. Each
    thread is a stack of frames, one per pending call of \<^verbatim>\<open>threads/synch.c\<close>, \<^verbatim>\<open>threads/thread.c\<close> or
    \<^verbatim>\<open>devices/timer.c\<close>; the timer may preempt it between frames whenever interrupts are on. The
    invariant holds in every reachable state; from it follow mutual exclusion of locks, no lost
    wake-ups, the absence of failed assertions, and that a ready thread runs within a bounded
    number of timer ticks.

  \<^bold>\<open>Assumptions about code outside the model.\<close> Comparison and hash functions, the allocation
  inside hash tables, the interrupt stubs and the effects of foreign device handlers are
  arguments, with what the code needs of them as hypotheses.

  \<^bold>\<open>Not modelled.\<close>
  \<^item> Preemption inside a call of the page allocator or of \<^verbatim>\<open>thread_create\<close>: these run to their end, or
    stop with \<open>Sleeps\<close> when the lock they need is held.
  \<^item> The registers saved by \<^verbatim>\<open>switch_threads\<close> and the assembly start-up (\<^verbatim>\<open>threads/switch.S\<close>,
    \<^verbatim>\<open>threads/start.S\<close>, \<^verbatim>\<open>threads/loader.S\<close>): their subject is the machine state.
  \<^item> Output (\<^verbatim>\<open>lib/stdio.c\<close>, \<^verbatim>\<open>lib/kernel/console.c\<close>, \<^verbatim>\<open>lib/debug.c\<close>) and everything that only prints:
    boot messages, statistics, dumps, the self-test of semaphores.
  \<^item> Device input and output: \<^verbatim>\<open>devices/ide.c\<close>, \<^verbatim>\<open>kbd.c\<close>, \<^verbatim>\<open>serial.c\<close>, \<^verbatim>\<open>vga.c\<close>, \<^verbatim>\<open>rtc.c\<close>, \<^verbatim>\<open>speaker.c\<close>,
    \<^verbatim>\<open>shutdown.c\<close>, \<^verbatim>\<open>input.c\<close>, and the calibrated busy waiting of the timer.
  \<^item> Kernel start-up and the command line (\<^verbatim>\<open>threads/init.c\<close>), the user library, the example
    programs, the host utilities and the test programs.
\<close>

end
